(* ===== verification/Prelude.thy ===== *)
theory Prelude
  imports Main
begin

text \<open>
  Shared vocabulary of the development: the two ends of a list as optional elements, the
  generic facts about duplicate-free lists that every queue proof uses, and Go's integer
  conventions (two's-complement wrap-around of 64-bit signed arithmetic).

  The collection \<open>queue_simps\<close> gathers the rewrite rules of the list-level queues of theory
  \<open>Queue\<close>; \<open>policy_defs\<close> gathers the unfolding equations of the eviction policies.
\<close>

named_theorems queue_simps
named_theorems policy_defs

section \<open>The ends of a list\<close>

definition first_of :: "'a list \<Rightarrow> 'a option \<Rightarrow> 'a option" where
  "first_of xs d = (case xs of [] \<Rightarrow> d | x # _ \<Rightarrow> Some x)"

definition last_of :: "'a list \<Rightarrow> 'a option \<Rightarrow> 'a option" where
  "last_of xs d = (if xs = [] then d else Some (last xs))"

lemma first_of_simps [simp]:
  "first_of [] d = d"
  "first_of (x # xs) d = Some x"
  by (simp_all add: first_of_def)

lemma last_of_simps [simp]:
  "last_of [] d = d"
  "last_of (xs @ [x]) d = Some x"
  "last_of (x # xs) d = last_of xs (Some x)"
  by (simp_all add: last_of_def)

lemma first_of_append [simp]: "first_of (xs @ ys) d = first_of xs (first_of ys d)"
  by (cases xs) simp_all

lemma last_of_append [simp]: "last_of (xs @ ys) d = last_of ys (last_of xs d)"
  by (simp add: last_of_def)

lemma first_of_None_eq_Some: "first_of xs None = Some x \<longleftrightarrow> (\<exists>ys. xs = x # ys)"
  by (cases xs) auto

lemma last_of_None_eq_Some: "last_of xs None = Some x \<longleftrightarrow> (\<exists>ys. xs = ys @ [x])"
  by (cases xs rule: rev_cases) (auto simp: last_of_def)

lemma first_of_None_eq_None [simp]: "first_of xs None = None \<longleftrightarrow> xs = []"
  by (cases xs) auto

lemma last_of_None_eq_None [simp]: "last_of xs None = None \<longleftrightarrow> xs = []"
  by (simp add: last_of_def)

lemma ends_default_Some [simp]:
  "first_of xs (Some a) \<noteq> None" "last_of xs (Some a) \<noteq> None"
  "\<exists>y. first_of xs (Some a) = Some y" "\<exists>y. last_of xs (Some a) = Some y"
  by (cases xs; simp add: last_of_def)+

lemma first_of_in_set: "first_of xs None = Some x \<Longrightarrow> x \<in> set xs"
  by (auto simp: first_of_None_eq_Some)

lemma last_of_in_set: "last_of xs None = Some x \<Longrightarrow> x \<in> set xs"
  by (auto simp: last_of_None_eq_Some)

section \<open>Duplicate-free lists\<close>

lemma remove1_middle [simp]: "n \<notin> set as \<Longrightarrow> remove1 n (as @ n # bs) = as @ bs"
  by (simp add: remove1_append)

lemma int_length_remove1 [simp]:
  "n \<in> set xs \<Longrightarrow> int (length (remove1 n xs)) = int (length xs) - 1"
  by (induction xs) auto

lemma distinct_splitE:
  assumes "distinct xs" and "n \<in> set xs"
  obtains as bs where "xs = as @ n # bs" and "n \<notin> set as" and "n \<notin> set bs"
  using assms by (metis distinct.simps(2) distinct_append not_distinct_conv_prefix split_list
      disjoint_insert(1) list.simps(15))

lemma find_Some_set: "List.find P xs = Some x \<Longrightarrow> x \<in> set xs \<and> P x"
  by (auto simp: find_Some_iff)

lemma find_None_iff_all: "List.find P xs = None \<longleftrightarrow> (\<forall>x \<in> set xs. \<not> P x)"
  by (auto simp: find_None_iff)

section \<open>Signed 64-bit arithmetic\<close>

text \<open>Go's \<open>int64\<close> addition wraps around; \<open>wrap64\<close> reduces a mathematical integer to the
  value the machine holds.\<close>

definition wrap64 :: "int \<Rightarrow> int" where
  "wrap64 x = (x + 2 ^ 63) mod 2 ^ 64 - 2 ^ 63"

lemma wrap64_id: "- (2 ^ 63) \<le> x \<Longrightarrow> x < 2 ^ 63 \<Longrightarrow> wrap64 x = x"
  by (simp add: wrap64_def)

lemma wrap64_range: "- (2 ^ 63) \<le> wrap64 x \<and> wrap64 x < 2 ^ 63"
  by (simp add: wrap64_def)

text \<open>Go's integer division truncates towards zero.\<close>

definition quot64 :: "int \<Rightarrow> int \<Rightarrow> int" where
  "quot64 a b = sgn a * sgn b * (\<bar>a\<bar> div \<bar>b\<bar>)"

lemma quot64_nonneg [simp]: "0 \<le> a \<Longrightarrow> 0 < b \<Longrightarrow> quot64 a b = a div b"
  by (cases "a = 0") (simp_all add: quot64_def)

end
