(* ===== verification/Queue.thy ===== *)
theory Queue
  imports Prelude
begin

text \<open>
  The queues the eviction policies keep, at the level of lists: the nodes from head to tail
  and the size counter the code maintains beside the pointers. Every policy of the package
  carries such head/tail/size triples; theory \<open>DLinked\<close> models the pointer manipulation and
  shows that it implements the operations below.

  The locale \<open>node_queue\<close> is the contract the policies rely on. It is stated over an abstract
  queue type with its nodes as a list, and is interpreted here on the list-level queue and in
  \<open>DLinked\<close> on the pointer structure.
\<close>

record 'n queue =
  qitems :: "'n list"
  qsize :: int

definition q_empty :: "'n queue" where
  "q_empty = \<lparr>qitems = [], qsize = 0\<rparr>"

definition q_pushTail :: "'n \<Rightarrow> 'n queue \<Rightarrow> 'n queue" where
  "q_pushTail n q = q\<lparr>qitems := qitems q @ [n], qsize := qsize q + 1\<rparr>"

definition q_pushHead :: "'n \<Rightarrow> 'n queue \<Rightarrow> 'n queue" where
  "q_pushHead n q = q\<lparr>qitems := n # qitems q, qsize := qsize q + 1\<rparr>"

definition q_unlink :: "'n \<Rightarrow> 'n queue \<Rightarrow> 'n queue" where
  "q_unlink n q =
     (if n \<in> set (qitems q) then q\<lparr>qitems := remove1 n (qitems q), qsize := qsize q - 1\<rparr> else q)"

definition q_head :: "'n queue \<Rightarrow> 'n option" where
  "q_head q = first_of (qitems q) None"

definition q_tail :: "'n queue \<Rightarrow> 'n option" where
  "q_tail q = last_of (qitems q) None"

definition q_set :: "'n queue \<Rightarrow> 'n set" where
  "q_set q = set (qitems q)"

text \<open>The invariant of a queue: no node is linked twice and the counter is the number of
  nodes.\<close>

definition q_inv :: "'n queue \<Rightarrow> bool" where
  "q_inv q \<longleftrightarrow> distinct (qitems q) \<and> qsize q = int (length (qitems q))"

section \<open>The contract of a node queue\<close>

locale node_queue =
  fixes items :: "'q \<Rightarrow> 'n list"
    and size_of :: "'q \<Rightarrow> int"
    and pushTail :: "'n \<Rightarrow> 'q \<Rightarrow> 'q"
    and pushHead :: "'n \<Rightarrow> 'q \<Rightarrow> 'q"
    and unlink :: "'n \<Rightarrow> 'q \<Rightarrow> 'q"
    and ok :: "'q \<Rightarrow> bool"
  assumes items_distinct: "ok q \<Longrightarrow> distinct (items q)"
    and items_size: "ok q \<Longrightarrow> size_of q = int (length (items q))"
    and items_pushTail: "ok q \<Longrightarrow> n \<notin> set (items q) \<Longrightarrow> items (pushTail n q) = items q @ [n]"
    and items_pushHead: "ok q \<Longrightarrow> n \<notin> set (items q) \<Longrightarrow> items (pushHead n q) = n # items q"
    and items_unlink: "ok q \<Longrightarrow> n \<in> set (items q) \<Longrightarrow> items (unlink n q) = remove1 n (items q)"
    and ok_pushTail: "ok q \<Longrightarrow> n \<notin> set (items q) \<Longrightarrow> ok (pushTail n q)"
    and ok_pushHead: "ok q \<Longrightarrow> n \<notin> set (items q) \<Longrightarrow> ok (pushHead n q)"
    and ok_unlink: "ok q \<Longrightarrow> n \<in> set (items q) \<Longrightarrow> ok (unlink n q)"
begin

lemma unlink_not_in: "ok q \<Longrightarrow> n \<in> set (items q) \<Longrightarrow> n \<notin> set (items (unlink n q))"
  by (simp add: items_unlink items_distinct)

lemma size_unlink: "ok q \<Longrightarrow> n \<in> set (items q) \<Longrightarrow> size_of (unlink n q) = size_of q - 1"
  by (simp add: items_size ok_unlink items_unlink)

text \<open>Rotating a node: \<open>unlink\<close> and push at an end leaves the same set of nodes.\<close>

lemma rotate_tail:
  assumes "ok q" and "n \<in> set (items q)"
  shows "ok (pushTail n (unlink n q))"
    and "items (pushTail n (unlink n q)) = remove1 n (items q) @ [n]"
    and "size_of (pushTail n (unlink n q)) = size_of q"
proof -
  have u: "ok (unlink n q)" "n \<notin> set (items (unlink n q))"
    using assms by (simp_all add: ok_unlink unlink_not_in)
  show ok: "ok (pushTail n (unlink n q))" using u by (rule ok_pushTail)
  show it: "items (pushTail n (unlink n q)) = remove1 n (items q) @ [n]"
    using u assms by (simp add: items_pushTail items_unlink)
  show "size_of (pushTail n (unlink n q)) = size_of q"
    using ok it assms by (simp add: items_size)
qed

lemma rotate_head:
  assumes "ok q" and "n \<in> set (items q)"
  shows "ok (pushHead n (unlink n q))"
    and "items (pushHead n (unlink n q)) = n # remove1 n (items q)"
    and "size_of (pushHead n (unlink n q)) = size_of q"
proof -
  have u: "ok (unlink n q)" "n \<notin> set (items (unlink n q))"
    using assms by (simp_all add: ok_unlink unlink_not_in)
  show ok: "ok (pushHead n (unlink n q))" using u by (rule ok_pushHead)
  show it: "items (pushHead n (unlink n q)) = n # remove1 n (items q)"
    using u assms by (simp add: items_pushHead items_unlink)
  show "size_of (pushHead n (unlink n q)) = size_of q"
    using ok it assms by (simp add: items_size)
qed

end

section \<open>The list-level queue meets the contract\<close>

lemma q_empty_simps [simp, queue_simps]:
  "qitems q_empty = []" "qsize q_empty = 0" "q_set q_empty = {}" "q_inv q_empty"
  "q_head q_empty = None" "q_tail q_empty = None"
  by (simp_all add: q_empty_def q_set_def q_inv_def q_head_def q_tail_def)

lemma q_push_items [simp, queue_simps]:
  "qitems (q_pushTail n q) = qitems q @ [n]"
  "qitems (q_pushHead n q) = n # qitems q"
  "qsize (q_pushTail n q) = qsize q + 1"
  "qsize (q_pushHead n q) = qsize q + 1"
  by (simp_all add: q_pushTail_def q_pushHead_def)

lemma q_unlink_items [simp, queue_simps]:
  "qitems (q_unlink n q) = remove1 n (qitems q)"
  by (simp add: q_unlink_def remove1_idem)

lemma q_unlink_size [simp, queue_simps]:
  "qsize (q_unlink n q) = (if n \<in> set (qitems q) then qsize q - 1 else qsize q)"
  by (simp add: q_unlink_def)

interpretation lq: node_queue qitems qsize q_pushTail q_pushHead q_unlink q_inv
  by unfold_locales (simp_all add: q_inv_def)

lemma q_set_simps [simp, queue_simps]:
  "q_set (q_pushTail n q) = insert n (q_set q)"
  "q_set (q_pushHead n q) = insert n (q_set q)"
  by (auto simp: q_set_def)

lemma q_set_unlink [simp, queue_simps]: "q_inv q \<Longrightarrow> q_set (q_unlink n q) = q_set q - {n}"
  by (simp add: q_set_def q_inv_def)

lemma q_inv_push [simp, intro]:
  "q_inv q \<Longrightarrow> n \<notin> q_set q \<Longrightarrow> q_inv (q_pushTail n q)"
  "q_inv q \<Longrightarrow> n \<notin> q_set q \<Longrightarrow> q_inv (q_pushHead n q)"
  by (auto simp: q_set_def intro: lq.ok_pushTail lq.ok_pushHead)

lemma q_inv_unlink [simp, intro]: "q_inv q \<Longrightarrow> q_inv (q_unlink n q)"
  by (cases "n \<in> set (qitems q)") (rule lq.ok_unlink, simp_all add: q_unlink_def)

lemma q_unlink_absent [simp, queue_simps]: "n \<notin> q_set q \<Longrightarrow> q_unlink n q = q"
  by (simp add: q_unlink_def q_set_def)

lemma q_head_in_set: "q_head q = Some n \<Longrightarrow> n \<in> q_set q"
  by (auto simp: q_head_def q_set_def dest: first_of_in_set)

lemma q_tail_in_set: "q_tail q = Some n \<Longrightarrow> n \<in> q_set q"
  by (auto simp: q_tail_def q_set_def dest: last_of_in_set)

lemma q_head_None: "q_head q = None \<longleftrightarrow> q_set q = {}"
  by (simp add: q_head_def q_set_def)

lemma q_tail_None: "q_tail q = None \<longleftrightarrow> q_set q = {}"
  by (simp add: q_tail_def q_set_def)

lemma q_finite [simp]: "finite (q_set q)"
  by (simp add: q_set_def)

lemma q_size_card: "q_inv q \<Longrightarrow> qsize q = int (card (q_set q))"
  by (simp add: q_inv_def q_set_def distinct_card)

lemma q_size_pos: "q_inv q \<Longrightarrow> 0 < qsize q \<longleftrightarrow> q_set q \<noteq> {}"
  by (auto simp: q_inv_def q_set_def)

end
