(* ===== verification/DLinked.thy ===== *)
theory DLinked
  imports Queue
begin

text \<open>
  The intrusive doubly linked lists of the eviction policies, at the level of pointers. A
  node is an address; \<open>links\<close> is the store of \<open>next\<close>/\<open>prev\<close> fields of all nodes and
  \<open>dlist\<close> is one list header (\<open>head\<close>, \<open>tail\<close>, \<open>size\<close>). Two queues of a policy share the
  store, so each operation is also shown to leave every other list alone.

  The operations follow the source statement by statement, in the variants the package has:
  the switch-based \<open>unlink\<close> with its early return (S3-FIFO, 2Q, ARC, W-TinyLFU, LFU), the
  two-\<open>if\<close> variant of LRU and the ghost queues, and the unguarded one of FIFO.
  The theorems show that each variant computes the list operation of theory \<open>Queue\<close>.
\<close>

record 'n links =
  lnext :: "'n \<Rightarrow> 'n option"
  lprev :: "'n \<Rightarrow> 'n option"

record 'n dlist =
  dhead :: "'n option"
  dtail :: "'n option"
  dsize :: int

definition set_next :: "'n \<Rightarrow> 'n option \<Rightarrow> 'n links \<Rightarrow> 'n links" where
  "set_next n m l = l\<lparr>lnext := (lnext l)(n := m)\<rparr>"

definition set_prev :: "'n \<Rightarrow> 'n option \<Rightarrow> 'n links \<Rightarrow> 'n links" where
  "set_prev n m l = l\<lparr>lprev := (lprev l)(n := m)\<rparr>"

text \<open>\<open>pushSmallTail\<close>: append at the tail.\<close>

definition dl_pushTail :: "'n \<Rightarrow> 'n links \<times> 'n dlist \<Rightarrow> 'n links \<times> 'n dlist" where
  "dl_pushTail n s =
     (let l = fst s; d = snd s;
          l = set_next n None (set_prev n (dtail d) l);
          (l, d) = (case dtail d of
                      Some t \<Rightarrow> (set_next t (Some n) l, d)
                    | None \<Rightarrow> (l, d\<lparr>dhead := Some n\<rparr>))
      in (l, d\<lparr>dtail := Some n, dsize := dsize d + 1\<rparr>))"

text \<open>\<open>pushAmHead\<close>: insert at the head.\<close>

definition dl_pushHead :: "'n \<Rightarrow> 'n links \<times> 'n dlist \<Rightarrow> 'n links \<times> 'n dlist" where
  "dl_pushHead n s =
     (let l = fst s; d = snd s;
          l = set_prev n None (set_next n (dhead d) l);
          (l, d) = (case dhead d of
                      Some h \<Rightarrow> (set_prev h (Some n) l, d)
                    | None \<Rightarrow> (l, d\<lparr>dtail := Some n\<rparr>))
      in (l, d\<lparr>dhead := Some n, dsize := dsize d + 1\<rparr>))"

text \<open>\<open>unlinkSmall\<close>: the switch-based removal; a detached node is left alone.\<close>

definition dl_unlink :: "'n \<Rightarrow> 'n links \<times> 'n dlist \<Rightarrow> 'n links \<times> 'n dlist" where
  "dl_unlink n s =
     (let l = fst s; d = snd s;
          r = (case lprev l n of
                 Some p \<Rightarrow> Some (set_next p (lnext l n) l, d)
               | None \<Rightarrow> if dhead d = Some n then Some (l, d\<lparr>dhead := lnext l n\<rparr>) else None)
      in case r of
           None \<Rightarrow> s
         | Some (l, d) \<Rightarrow>
             (let (l, d) = (case lnext l n of
                              Some m \<Rightarrow> (set_prev m (lprev l n) l, d)
                            | None \<Rightarrow> if dtail d = Some n then (l, d\<lparr>dtail := lprev l n\<rparr>) else (l, d))
              in (set_prev n None (set_next n None l), d\<lparr>dsize := dsize d - 1\<rparr>)))"

text \<open>LRU's \<open>pushFront\<close> and \<open>unlink\<close> leave the counter to the caller (\<open>OnInsert\<close> and
  \<open>OnRemove\<close>).\<close>

definition lru_pushFront :: "'n \<Rightarrow> 'n links \<times> 'n dlist \<Rightarrow> 'n links \<times> 'n dlist" where
  "lru_pushFront n s =
     (let l = fst s; d = snd s;
          l = set_next n (dhead d) (set_prev n None l);
          l = (case dhead d of Some h \<Rightarrow> set_prev h (Some n) l | None \<Rightarrow> l);
          d = d\<lparr>dhead := Some n\<rparr>
      in (l, if dtail d = None then d\<lparr>dtail := Some n\<rparr> else d))"

definition lru_unlink :: "'n \<Rightarrow> 'n links \<times> 'n dlist \<Rightarrow> 'n links \<times> 'n dlist" where
  "lru_unlink n s =
     (let (l, d) = (case lprev (fst s) n of
                      Some p \<Rightarrow> (set_next p (lnext (fst s) n) (fst s), snd s)
                    | None \<Rightarrow> if dhead (snd s) = Some n
                             then (fst s, (snd s)\<lparr>dhead := lnext (fst s) n\<rparr>) else s);
          (l, d) = (case lnext l n of
                      Some m \<Rightarrow> (set_prev m (lprev l n) l, d)
                    | None \<Rightarrow> if dtail d = Some n then (l, d\<lparr>dtail := lprev l n\<rparr>) else (l, d))
      in (set_prev n None (set_next n None l), d))"

text \<open>\<open>unlinkGhost\<close> of S3-FIFO and 2Q has the shape of LRU's \<open>unlink\<close> and counts itself.\<close>

definition dl_unlinkGhost :: "'n \<Rightarrow> 'n links \<times> 'n dlist \<Rightarrow> 'n links \<times> 'n dlist" where
  "dl_unlinkGhost n s =
     (let (l, d) = lru_unlink n s in (l, d\<lparr>dsize := dsize d - 1\<rparr>))"

text \<open>FIFO's \<open>OnRemove\<close> does not check that the node is linked.\<close>

definition fifo_unlink :: "'n \<Rightarrow> 'n links \<times> 'n dlist \<Rightarrow> 'n links \<times> 'n dlist" where
  "fifo_unlink n s =
     (let (l, d) = (case lprev (fst s) n of
                      Some p \<Rightarrow> (set_next p (lnext (fst s) n) (fst s), snd s)
                    | None \<Rightarrow> (fst s, (snd s)\<lparr>dhead := lnext (fst s) n\<rparr>));
          (l, d) = (case lnext l n of
                      Some m \<Rightarrow> (set_prev m (lprev l n) l, d)
                    | None \<Rightarrow> (l, d\<lparr>dtail := lprev l n\<rparr>))
      in (set_prev n None (set_next n None l), d\<lparr>dsize := dsize d - 1\<rparr>))"

text \<open>The loops \<open>for n := head; n != nil; n = n.next\<close>: the nodes they visit. The number of
  steps is bounded by the first argument; \<open>dl_rep_walk\<close> below shows that the size counter is
  enough.\<close>

fun dl_walk :: "nat \<Rightarrow> 'n links \<Rightarrow> 'n option \<Rightarrow> 'n list" where
  "dl_walk 0 l p = []"
| "dl_walk (Suc k) l p = (case p of None \<Rightarrow> [] | Some n \<Rightarrow> n # dl_walk k l (lnext l n))"

section \<open>Linked segments\<close>

text \<open>\<open>seg l p xs q\<close>: the nodes \<open>xs\<close> are linked in order, the first one's \<open>prev\<close> is \<open>p\<close>
  and the last one's \<open>next\<close> is \<open>q\<close>.\<close>

fun seg :: "'n links \<Rightarrow> 'n option \<Rightarrow> 'n list \<Rightarrow> 'n option \<Rightarrow> bool" where
  "seg l p [] q = True"
| "seg l p (x # xs) q = (lprev l x = p \<and> lnext l x = first_of xs q \<and> seg l (Some x) xs q)"

definition dl_rep :: "'n links \<times> 'n dlist \<Rightarrow> 'n list \<Rightarrow> bool" where
  "dl_rep s xs \<longleftrightarrow> distinct xs \<and> dhead (snd s) = first_of xs None \<and>
     dtail (snd s) = last_of xs None \<and> dsize (snd s) = int (length xs) \<and>
     seg (fst s) None xs None"

lemma links_simps [simp]:
  "lnext (set_next n m l) = (lnext l)(n := m)" "lprev (set_next n m l) = lprev l"
  "lprev (set_prev n m l) = (lprev l)(n := m)" "lnext (set_prev n m l) = lnext l"
  by (simp_all add: set_next_def set_prev_def)

lemma seg_append:
  "seg l p (as @ bs) q \<longleftrightarrow> seg l p as (first_of bs q) \<and> seg l (last_of as p) bs q"
  by (induction as arbitrary: p) auto

lemma seg_cong:
  "(\<And>x. x \<in> set xs \<Longrightarrow> lnext l x = lnext l' x \<and> lprev l x = lprev l' x) \<Longrightarrow>
   seg l p xs q = seg l' p xs q"
  by (induction xs arbitrary: p) auto

text \<open>Writing a field of a node outside the segment changes nothing; writing the outer link of
  an end moves that end.\<close>

lemma seg_frame [simp]:
  "n \<notin> set xs \<Longrightarrow> seg (set_next n m l) p xs q = seg l p xs q"
  "n \<notin> set xs \<Longrightarrow> seg (set_prev n m l) p xs q = seg l p xs q"
  by (rule seg_cong; auto)+

lemma seg_set_last_next:
  "seg l p (as @ [a]) q \<Longrightarrow> a \<notin> set as \<Longrightarrow> seg (set_next a q' l) p (as @ [a]) q'"
  by (simp add: seg_append)

lemma seg_set_first_prev:
  "seg l p (b # bs) q \<Longrightarrow> b \<notin> set bs \<Longrightarrow> seg (set_prev b p' l) p' (b # bs) q"
  by simp

section \<open>Refinement: the pointer operations compute the list operations\<close>

lemma dl_rep_empty: "dl_rep (l, \<lparr>dhead = None, dtail = None, dsize = 0\<rparr>) []"
  by (simp add: dl_rep_def)

lemma dl_rep_pushTail:
  assumes rep: "dl_rep s xs" and fresh: "n \<notin> set xs"
  shows "dl_rep (dl_pushTail n s) (xs @ [n])"
proof (cases xs rule: rev_cases)
  case Nil
  then show ?thesis using rep by (simp add: dl_rep_def dl_pushTail_def Let_def)
next
  case (snoc as a)
  then show ?thesis using rep fresh
    by (auto simp: dl_rep_def dl_pushTail_def Let_def seg_append split: if_splits)
qed

lemma dl_rep_pushHead:
  assumes rep: "dl_rep s xs" and fresh: "n \<notin> set xs"
  shows "dl_rep (dl_pushHead n s) (n # xs)"
proof (cases xs)
  case Nil
  then show ?thesis using rep by (simp add: dl_rep_def dl_pushHead_def Let_def)
next
  case (Cons b bs)
  then show ?thesis using rep fresh
    by (auto simp: dl_rep_def dl_pushHead_def Let_def)
qed

lemma lru_rep_pushFront:
  assumes rep: "dl_rep s xs" and fresh: "n \<notin> set xs"
  shows "dl_rep (let (l, d) = lru_pushFront n s in (l, d\<lparr>dsize := dsize d + 1\<rparr>)) (n # xs)"
proof (cases xs)
  case Nil
  then show ?thesis using rep by (simp add: dl_rep_def lru_pushFront_def Let_def)
next
  case (Cons b bs)
  then show ?thesis using rep fresh
    by (auto simp: dl_rep_def lru_pushFront_def Let_def)
qed

text \<open>The four positions of a node in a list: alone, first, last, in the middle.\<close>

lemma dl_rep_unlink:
  assumes rep: "dl_rep s xs" and n: "n \<in> set xs"
  shows "dl_rep (dl_unlink n s) (remove1 n xs)"
proof -
  from rep n obtain as bs where xs: "xs = as @ n # bs" "n \<notin> set as" "n \<notin> set bs"
    by (auto simp: dl_rep_def elim: distinct_splitE)
  show ?thesis
    using rep xs
    by (cases as rule: rev_cases; cases bs)
      (auto simp: dl_rep_def dl_unlink_def Let_def seg_append remove1_append)
qed

text \<open>\<open>lru_unlink\<close> moves the links and leaves the counter; the two callers adjust it.\<close>

lemma lru_unlink_unlink:
  assumes rep: "dl_rep s xs" and n: "n \<in> set xs"
  shows "(let (l, d) = lru_unlink n s in (l, d\<lparr>dsize := dsize d - 1\<rparr>)) = dl_unlink n s"
proof -
  from rep n obtain as bs where xs: "xs = as @ n # bs" "n \<notin> set as" "n \<notin> set bs"
    by (auto simp: dl_rep_def elim: distinct_splitE)
  show ?thesis
    using rep xs
    by (cases as rule: rev_cases; cases bs)
      (auto simp: dl_rep_def dl_unlink_def lru_unlink_def Let_def seg_append)
qed

lemma fifo_unlink_unlink:
  assumes rep: "dl_rep s xs" and n: "n \<in> set xs"
  shows "fifo_unlink n s = dl_unlink n s"
proof -
  from rep n obtain as bs where xs: "xs = as @ n # bs" "n \<notin> set as" "n \<notin> set bs"
    by (auto simp: dl_rep_def elim: distinct_splitE)
  show ?thesis
    using rep xs
    by (cases as rule: rev_cases; cases bs)
      (auto simp: dl_rep_def dl_unlink_def fifo_unlink_def Let_def seg_append)
qed

lemma dl_unlinkGhost_unlink:
  "dl_rep s xs \<Longrightarrow> n \<in> set xs \<Longrightarrow> dl_unlinkGhost n s = dl_unlink n s"
  by (simp add: dl_unlinkGhost_def lru_unlink_unlink)

text \<open>A node that was already pulled out has no links and is not the head: a second
  \<open>unlink\<close> is a no-op. \<open>Victim\<close> followed by \<open>OnRemove\<close> relies on it.\<close>

lemma dl_unlink_detached:
  assumes "dl_rep s xs" and "n \<notin> set xs" and "lprev (fst s) n = None"
  shows "dl_unlink n s = s"
  using assms first_of_in_set[of xs n] by (auto simp: dl_unlink_def dl_rep_def Let_def)

lemma dl_unlink_detaches:
  assumes "dl_rep s xs" and "n \<in> set xs"
  shows "lprev (fst (dl_unlink n s)) n = None \<and> lnext (fst (dl_unlink n s)) n = None"
proof -
  from assms obtain as bs where xs: "xs = as @ n # bs" "n \<notin> set as" "n \<notin> set bs"
    by (auto simp: dl_rep_def elim: distinct_splitE)
  then show ?thesis
    using assms(1)
    by (cases as rule: rev_cases; cases bs)
      (auto simp: dl_rep_def dl_unlink_def Let_def seg_append)
qed

section \<open>Frame: other lists over the same nodes\<close>

text \<open>An operation on one list writes only the links of the node it moves and of that list's
  own nodes.\<close>

lemma dl_pushTail_frame:
  assumes "dl_rep (l, d) xs" and "dl_rep (l, e) ys" and "set xs \<inter> set ys = {}" and "n \<notin> set ys"
  shows "dl_rep (fst (dl_pushTail n (l, d)), e) ys"
  using assms last_of_in_set[of xs]
  by (auto simp: dl_rep_def disjoint_iff dl_pushTail_def Let_def split: option.splits)

lemma dl_pushHead_frame:
  assumes "dl_rep (l, d) xs" and "dl_rep (l, e) ys" and "set xs \<inter> set ys = {}" and "n \<notin> set ys"
  shows "dl_rep (fst (dl_pushHead n (l, d)), e) ys"
  using assms first_of_in_set[of xs]
  by (auto simp: dl_rep_def disjoint_iff dl_pushHead_def Let_def split: option.splits)

lemma dl_unlink_frame:
  assumes "dl_rep (l, d) xs" and "dl_rep (l, e) ys" and "set xs \<inter> set ys = {}" and "n \<in> set xs"
  shows "dl_rep (fst (dl_unlink n (l, d)), e) ys"
proof -
  from assms obtain as bs where xs: "xs = as @ n # bs" "n \<notin> set as" "n \<notin> set bs"
    by (auto simp: dl_rep_def elim: distinct_splitE)
  then show ?thesis
    using assms
    by (cases as rule: rev_cases; cases bs)
      (auto simp: dl_rep_def dl_unlink_def Let_def seg_append)
qed

section \<open>Walking a list\<close>

lemma dl_walk_seg: "seg l p xs None \<Longrightarrow> length xs \<le> k \<Longrightarrow> dl_walk k l (first_of xs None) = xs"
proof (induction xs arbitrary: p k)
  case Nil
  then show ?case by (cases k) auto
next
  case (Cons x xs)
  then show ?case by (cases k) auto
qed

definition dl_items :: "'n links \<times> 'n dlist \<Rightarrow> 'n list" where
  "dl_items s = dl_walk (nat (dsize (snd s))) (fst s) (dhead (snd s))"

lemma dl_rep_walk: "dl_rep s xs \<Longrightarrow> dl_items s = xs"
  by (auto simp: dl_rep_def dl_items_def intro: dl_walk_seg)

definition dl_ok :: "'n links \<times> 'n dlist \<Rightarrow> bool" where
  "dl_ok s \<longleftrightarrow> dl_rep s (dl_items s)"

lemma dl_repI: "dl_rep s xs \<Longrightarrow> dl_ok s \<and> dl_items s = xs"
  by (simp add: dl_ok_def dl_rep_walk)

section \<open>The pointer structure meets the queue contract\<close>

interpretation pq: node_queue dl_items "\<lambda>s. dsize (snd s)" dl_pushTail dl_pushHead dl_unlink dl_ok
proof
  fix s :: "'n links \<times> 'n dlist" and n
  assume ok: "dl_ok s"
  then have rep: "dl_rep s (dl_items s)" by (simp add: dl_ok_def)
  then show "distinct (dl_items s)" "dsize (snd s) = int (length (dl_items s))"
    by (simp_all add: dl_rep_def)
  show "dl_items (dl_pushTail n s) = dl_items s @ [n]" "dl_ok (dl_pushTail n s)"
    if "n \<notin> set (dl_items s)"
    using dl_repI[OF dl_rep_pushTail[OF rep that]] by simp_all
  show "dl_items (dl_pushHead n s) = n # dl_items s" "dl_ok (dl_pushHead n s)"
    if "n \<notin> set (dl_items s)"
    using dl_repI[OF dl_rep_pushHead[OF rep that]] by simp_all
  show "dl_items (dl_unlink n s) = remove1 n (dl_items s)" "dl_ok (dl_unlink n s)"
    if "n \<in> set (dl_items s)"
    using dl_repI[OF dl_rep_unlink[OF rep that]] by simp_all
qed

section \<open>Sequences of operations\<close>

datatype 'n qop = PushTail 'n | PushHead 'n | Unlink 'n

fun dl_step :: "'n qop \<Rightarrow> 'n links \<times> 'n dlist \<Rightarrow> 'n links \<times> 'n dlist" where
  "dl_step (PushTail n) s = dl_pushTail n s"
| "dl_step (PushHead n) s = dl_pushHead n s"
| "dl_step (Unlink n) s = dl_unlink n s"

fun q_step :: "'n qop \<Rightarrow> 'n queue \<Rightarrow> 'n queue" where
  "q_step (PushTail n) q = q_pushTail n q"
| "q_step (PushHead n) q = q_pushHead n q"
| "q_step (Unlink n) q = q_unlink n q"

text \<open>An operation is allowed when a pushed node is not in the queue and an unlinked one is.\<close>

fun q_allowed :: "'n qop list \<Rightarrow> 'n queue \<Rightarrow> bool" where
  "q_allowed [] q = True"
| "q_allowed (op # ops) q =
     ((case op of Unlink n \<Rightarrow> n \<in> q_set q | PushTail n \<Rightarrow> n \<notin> q_set q | PushHead n \<Rightarrow> n \<notin> q_set q)
      \<and> q_allowed ops (q_step op q))"

definition dl_abs :: "'n links \<times> 'n dlist \<Rightarrow> 'n queue" where
  "dl_abs s = \<lparr>qitems = dl_items s, qsize = dsize (snd s)\<rparr>"

lemma dl_step_refines:
  assumes "dl_ok s" and "q_allowed [op] (dl_abs s)"
  shows "dl_ok (dl_step op s) \<and> dl_abs (dl_step op s) = q_step op (dl_abs s)"
proof -
  have 1: "qitems (dl_abs s) = dl_items s" "qsize (dl_abs s) = dsize (snd s)"
    by (simp_all add: dl_abs_def)
  show ?thesis
    using assms 1
    by (cases op)
      (auto simp: q_set_def pq.ok_pushTail pq.ok_pushHead pq.ok_unlink dl_abs_def
        q_pushTail_def q_pushHead_def q_unlink_def pq.items_pushTail pq.items_pushHead
        pq.items_unlink pq.items_size)
qed

text \<open>C13: The pointer manipulation of the policies' queues implements sequences. From any
  well-formed doubly linked list, every sequence of tail insertions, head insertions and removals
  (a pushed node is not in the list, a removed one is) leaves a well-formed list whose nodes from
  head to tail, and whose size counter, are those of the same operations on a plain sequence.\<close>

theorem dl_run_refines:
  "dl_ok s \<Longrightarrow> q_allowed ops (dl_abs s) \<Longrightarrow>
   dl_ok (fold dl_step ops s) \<and> dl_abs (fold dl_step ops s) = fold q_step ops (dl_abs s)"
proof (induction ops arbitrary: s)
  case Nil
  then show ?case by simp
next
  case (Cons op ops)
  then have "dl_ok (dl_step op s) \<and> dl_abs (dl_step op s) = q_step op (dl_abs s)"
    by (intro dl_step_refines) auto
  with Cons show ?case by simp
qed

definition dl_new :: "'n links \<times> 'n dlist" where
  "dl_new = (\<lparr>lnext = Map.empty, lprev = Map.empty\<rparr>, \<lparr>dhead = None, dtail = None, dsize = 0\<rparr>)"

lemma dl_new_ok: "dl_ok dl_new" "dl_abs dl_new = q_empty"
  by (simp_all add: dl_ok_def dl_rep_def dl_new_def dl_items_def dl_abs_def q_empty_def)

theorem dl_run_refines_witness:
  "qitems (dl_abs (fold dl_step [PushTail (1::nat), PushHead 2, PushTail 3, Unlink 1] dl_new)) = [2, 3]"
  using dl_run_refines[of dl_new "[PushTail (1::nat), PushHead 2, PushTail 3, Unlink 1]"]
  by (simp add: dl_new_ok)

end
