(* ===== verification/Policy_Interface.thy ===== *)
theory Policy_Interface
  imports Queue
begin

text \<open>
  The contract between a shard and its eviction policy (\<open>evictionPolicy\<close> in policy.go),
  stated as locales. A policy is a state \<open>'p\<close> over keys \<open>'k\<close>; an entry of a shard is
  identified with its key, and an entry's \<open>policyData\<close> pointer is the policy's record for that
  key. \<open>tracked\<close> is the set of keys whose entry has a node.

  A policy may take the victim's node out of its queues in \<open>Victim\<close> already; the node is
  released by the \<open>OnRemove\<close> the cache then issues. The laws therefore describe the pair of
  calls. \<open>eviction_policy\<close> holds the laws every policy keeps; \<open>eager_policy\<close> adds that a
  non-empty policy always names a victim; \<open>budgeted_policy\<close> adds that a policy holding more
  than its budget does.

  The second half gives the reference semantics of use order: a logical clock that stamps keys.
  LRU and FIFO are shown to evict the key with the least stamp.
\<close>

locale eviction_policy =
  fixes tracked :: "'p \<Rightarrow> 'k set"
    and ok :: "'p \<Rightarrow> bool"
    and onInsert :: "'k \<Rightarrow> 'p \<Rightarrow> 'p"
    and onAccess :: "'k \<Rightarrow> 'p \<Rightarrow> 'p"
    and onUpdate :: "'k \<Rightarrow> 'p \<Rightarrow> 'p"
    and onRemove :: "'k \<Rightarrow> 'p \<Rightarrow> 'p"
    and victim :: "'p \<Rightarrow> 'k option \<times> 'p"
    and len :: "'p \<Rightarrow> int"
  assumes finite_tracked: "ok p \<Longrightarrow> finite (tracked p)"
    and len_tracked: "ok p \<Longrightarrow> len p = int (card (tracked p))"
    and ok_insert: "ok p \<Longrightarrow> k \<notin> tracked p \<Longrightarrow> ok (onInsert k p)"
    and tracked_insert: "ok p \<Longrightarrow> k \<notin> tracked p \<Longrightarrow> tracked (onInsert k p) = insert k (tracked p)"
    and ok_access: "ok p \<Longrightarrow> ok (onAccess k p)"
    and tracked_access: "ok p \<Longrightarrow> tracked (onAccess k p) = tracked p"
    and ok_update: "ok p \<Longrightarrow> ok (onUpdate k p)"
    and tracked_update: "ok p \<Longrightarrow> tracked (onUpdate k p) = tracked p"
    and ok_remove: "ok p \<Longrightarrow> ok (onRemove k p)"
    and tracked_remove: "ok p \<Longrightarrow> tracked (onRemove k p) = tracked p - {k}"
    and victim_tracked: "ok p \<Longrightarrow> victim p = (Some k, p') \<Longrightarrow> k \<in> tracked p"
    and victim_ok: "ok p \<Longrightarrow> victim p = (Some k, p') \<Longrightarrow> ok (onRemove k p')"
    and victim_evicts: "ok p \<Longrightarrow> victim p = (Some k, p') \<Longrightarrow>
          tracked (onRemove k p') = tracked p - {k}"
    and victim_none: "ok p \<Longrightarrow> victim p = (None, p') \<Longrightarrow> ok p' \<and> tracked p' = tracked p"
begin

text \<open>Each eviction makes the policy one entry smaller: the eviction loop terminates.\<close>

lemma evict_shrinks:
  assumes "ok p" and "victim p = (Some k, p')"
  shows "len (onRemove k p') = len p - 1"
proof -
  have "0 < card (tracked p)"
    using assms by (metis card_gt_0_iff empty_iff finite_tracked victim_tracked)
  then show ?thesis
    using assms
    by (simp add: len_tracked victim_ok victim_evicts victim_tracked finite_tracked of_nat_diff
        Suc_leI)
qed

text \<open>Inserting and evicting once leaves the number of entries unchanged.\<close>

lemma insert_then_evict:
  assumes "ok p" and "k \<notin> tracked p" and "victim (onInsert k p) = (Some v, p')"
  shows "len (onRemove v p') = len p"
proof -
  have "len (onRemove v p') = len (onInsert k p) - 1"
    using assms by (intro evict_shrinks ok_insert)
  then show ?thesis
    using assms by (simp add: len_tracked ok_insert tracked_insert finite_tracked)
qed

end

locale eager_policy = eviction_policy +
  assumes victim_exists: "ok p \<Longrightarrow> tracked p \<noteq> {} \<Longrightarrow> \<exists>k. fst (victim p) = Some k"
begin

lemma victim_none_iff: "ok p \<Longrightarrow> fst (victim p) = None \<longleftrightarrow> tracked p = {}"
  by (metis empty_iff option.exhaust option.distinct(1) prod.collapse victim_exists victim_tracked)

end

locale budgeted_policy = eviction_policy +
  fixes budget :: "'p \<Rightarrow> int"
  assumes victim_over_budget: "ok p \<Longrightarrow> 0 < budget p \<Longrightarrow> budget p < len p \<Longrightarrow> \<exists>k. fst (victim p) = Some k"

section \<open>The order of use as a specification\<close>

datatype 'k pevent = EvInsert 'k | EvAccess 'k | EvUpdate 'k | EvRemove 'k

record 'k stamps =
  stamp :: "'k \<Rightarrow> nat option"
  clock :: nat

definition stamps_empty :: "'k stamps" where
  "stamps_empty = \<lparr>stamp = Map.empty, clock = 0\<rparr>"

definition stamp_now :: "'k \<Rightarrow> 'k stamps \<Rightarrow> 'k stamps" where
  "stamp_now k t = t\<lparr>stamp := (stamp t)(k \<mapsto> clock t), clock := Suc (clock t)\<rparr>"

definition stamp_drop :: "'k \<Rightarrow> 'k stamps \<Rightarrow> 'k stamps" where
  "stamp_drop k t = t\<lparr>stamp := (stamp t)(k := None)\<rparr>"

text \<open>Recency: inserting, reading and updating a tracked key stamp it with the current time.\<close>

fun recency_step :: "'k pevent \<Rightarrow> 'k stamps \<Rightarrow> 'k stamps" where
  "recency_step (EvInsert k) t = stamp_now k t"
| "recency_step (EvAccess k) t = (if stamp t k = None then t else stamp_now k t)"
| "recency_step (EvUpdate k) t = (if stamp t k = None then t else stamp_now k t)"
| "recency_step (EvRemove k) t = stamp_drop k t"

text \<open>Arrival: only the insertion stamps a key.\<close>

fun arrival_step :: "'k pevent \<Rightarrow> 'k stamps \<Rightarrow> 'k stamps" where
  "arrival_step (EvInsert k) t = stamp_now k t"
| "arrival_step (EvAccess k) t = t"
| "arrival_step (EvUpdate k) t = t"
| "arrival_step (EvRemove k) t = stamp_drop k t"

text \<open>The cache inserts a key only when its shard does not hold it.\<close>

fun fresh_inserts :: "'k pevent list \<Rightarrow> 'k set \<Rightarrow> bool" where
  "fresh_inserts [] A = True"
| "fresh_inserts (EvInsert k # es) A = (k \<notin> A \<and> fresh_inserts es (insert k A))"
| "fresh_inserts (EvRemove k # es) A = fresh_inserts es (A - {k})"
| "fresh_inserts (e # es) A = fresh_inserts es A"

text \<open>\<open>stamped t xs\<close>: \<open>xs\<close> lists exactly the stamped keys, latest stamp first.\<close>

definition stamped :: "'k stamps \<Rightarrow> 'k list \<Rightarrow> bool" where
  "stamped t xs \<longleftrightarrow> set xs = dom (stamp t) \<and> distinct xs \<and>
     sorted_wrt (\<lambda>a b. the (stamp t b) < the (stamp t a)) xs \<and>
     (\<forall>k n. stamp t k = Some n \<longrightarrow> n < clock t)"

lemma stamped_empty: "stamped stamps_empty []"
  by (simp add: stamped_def stamps_empty_def)

lemma stamped_now:
  assumes "stamped t xs"
  shows "stamped (stamp_now k t) (k # remove1 k xs)"
proof -
  have "sorted_wrt (\<lambda>a b. the (stamp t b) < the (stamp t a)) (remove1 k xs)"
    using assms
    by (simp add: stamped_def distinct_remove1_removeAll removeAll_filter_not_eq sorted_wrt_filter)
  then have "sorted_wrt (\<lambda>a b. the (stamp (stamp_now k t) b) < the (stamp (stamp_now k t) a))
      (remove1 k xs)"
    using assms by (elim sorted_wrt_mono_rel[rotated]) (auto simp: stamped_def stamp_now_def)
  then show ?thesis
    using assms by (auto simp: stamped_def stamp_now_def dom_def less_Suc_eq split: if_splits)
qed

lemma stamped_drop:
  assumes "stamped t xs"
  shows "stamped (stamp_drop k t) (remove1 k xs)"
proof -
  have "sorted_wrt (\<lambda>a b. the (stamp t b) < the (stamp t a)) (remove1 k xs)"
    using assms
    by (simp add: stamped_def distinct_remove1_removeAll removeAll_filter_not_eq sorted_wrt_filter)
  then have "sorted_wrt (\<lambda>a b. the (stamp (stamp_drop k t) b) < the (stamp (stamp_drop k t) a))
      (remove1 k xs)"
    using assms by (elim sorted_wrt_mono_rel[rotated]) (auto simp: stamped_def stamp_drop_def)
  then show ?thesis
    using assms by (auto simp: stamped_def stamp_drop_def dom_def split: if_splits)
qed

text \<open>The last key of a stamped list is the one with the least stamp.\<close>

lemma stamped_last_least:
  assumes "stamped t xs" and "xs \<noteq> []" and "stamp t k = Some n"
  shows "\<exists>m. stamp t (last xs) = Some m \<and> m \<le> n \<and> (k \<noteq> last xs \<longrightarrow> m < n)"
proof -
  obtain ys y where xs: "xs = ys @ [y]"
    using assms(2) by (metis append_butlast_last_id)
  have k: "k \<in> set xs" and "y \<in> dom (stamp t)"
    using assms xs by (auto simp: stamped_def)
  then obtain m where m: "stamp t y = Some m" by auto
  have "k = y \<or> k \<in> set ys"
    using k xs by auto
  moreover have "\<forall>x \<in> set ys. m < the (stamp t x)"
    using assms(1) m xs by (simp add: stamped_def sorted_wrt_append)
  ultimately show ?thesis
    using assms(3) m xs by auto
qed

end
