(* ===== verification/Policy_LRU.thy ===== *)
theory Policy_LRU
  imports Policy_Interface
begin

text \<open>
  The LRU policy (lru.go). The list runs from the most recently used key (\<open>head\<close>) to the
  least recently used one (\<open>tail\<close>); the size counter is kept by \<open>OnInsert\<close> and \<open>OnRemove\<close>
  only, apart from the list primitives, as in the code. \<open>lru_node\<close> is the set of keys whose
  entry has a node in \<open>policyData\<close>.

  The policy is shown to implement the recency specification: the list is the tracked keys in
  the order of their last use, so \<open>Victim\<close> is the least recently used one.
\<close>

record 'k lru =
  lru_items :: "'k list"
  lru_size :: int
  lru_node :: "'k set"

definition newLRU :: "'k lru" where
  "newLRU = \<lparr>lru_items = [], lru_size = 0, lru_node = {}\<rparr>"

definition lru_toFront :: "'k \<Rightarrow> 'k lru \<Rightarrow> 'k lru" where
  "lru_toFront k p = p\<lparr>lru_items := k # lru_items p\<rparr>"

definition lru_drop :: "'k \<Rightarrow> 'k lru \<Rightarrow> 'k lru" where
  "lru_drop k p = p\<lparr>lru_items := remove1 k (lru_items p)\<rparr>"

definition lru_onInsert :: "'k \<Rightarrow> 'k lru \<Rightarrow> 'k lru" where
  "lru_onInsert k p =
     (let p = p\<lparr>lru_node := insert k (lru_node p)\<rparr>;
          p = lru_toFront k p
      in p\<lparr>lru_size := lru_size p + 1\<rparr>)"

definition lru_onAccess :: "'k \<Rightarrow> 'k lru \<Rightarrow> 'k lru" where
  "lru_onAccess k p =
     (if k \<notin> lru_node p then p
      else if first_of (lru_items p) None = Some k then p
      else lru_toFront k (lru_drop k p))"

definition lru_onUpdate :: "'k \<Rightarrow> 'k lru \<Rightarrow> 'k lru" where
  "lru_onUpdate k p = lru_onAccess k p"

definition lru_onRemove :: "'k \<Rightarrow> 'k lru \<Rightarrow> 'k lru" where
  "lru_onRemove k p =
     (if k \<notin> lru_node p then p
      else let p = lru_drop k p
           in p\<lparr>lru_node := lru_node p - {k}, lru_size := lru_size p - 1\<rparr>)"

definition lru_victim :: "'k lru \<Rightarrow> 'k option \<times> 'k lru" where
  "lru_victim p = (case last_of (lru_items p) None of None \<Rightarrow> (None, p) | Some k \<Rightarrow> (Some k, p))"

definition lru_len :: "'k lru \<Rightarrow> int" where
  "lru_len p = lru_size p"

definition lru_setBudget :: "int \<Rightarrow> 'k lru \<Rightarrow> 'k lru" where
  "lru_setBudget b p = p"

text \<open>\<open>Reset\<close> walks the list and detaches every node it meets.\<close>

definition lru_reset :: "'k lru \<Rightarrow> 'k lru" where
  "lru_reset p =
     \<lparr>lru_items = [], lru_size = 0, lru_node = lru_node p - set (lru_items p)\<rparr>"

definition lru_promotionNeeded :: "'k \<Rightarrow> 'k lru \<Rightarrow> bool" where
  "lru_promotionNeeded k p = True"

definition lru_ok :: "'k lru \<Rightarrow> bool" where
  "lru_ok p \<longleftrightarrow> distinct (lru_items p) \<and> lru_node p = set (lru_items p) \<and>
     lru_size p = int (length (lru_items p))"

lemmas lru_defs [policy_defs] =
  newLRU_def lru_toFront_def lru_drop_def lru_onInsert_def lru_onAccess_def lru_onUpdate_def
  lru_onRemove_def lru_victim_def lru_len_def lru_setBudget_def lru_reset_def

lemma lru_new_ok: "lru_ok newLRU" "lru_node newLRU = {}"
  by (simp_all add: lru_ok_def lru_defs)

lemma lru_reset_new: "lru_ok p \<Longrightarrow> lru_reset p = newLRU"
  by (simp add: lru_ok_def lru_defs)

lemma lru_victim_eq: "lru_victim p = (last_of (lru_items p) None, p)"
  by (simp add: lru_victim_def split: option.split)

interpretation lru: eager_policy lru_node lru_ok lru_onInsert lru_onAccess lru_onUpdate
  lru_onRemove lru_victim lru_len
proof
  fix p :: "'a lru"
  assume "lru_ok p" and "lru_node p \<noteq> {}"
  then show "\<exists>k. fst (lru_victim p) = Some k"
    by (auto simp: lru_victim_eq last_of_def lru_ok_def)
qed (auto simp: lru_ok_def lru_victim_eq lru_defs[unfolded lru_victim_def] distinct_card
    dest: last_of_in_set split: if_splits option.splits)

section \<open>Refinement of the recency specification\<close>

fun lru_step :: "'k pevent \<Rightarrow> 'k lru \<Rightarrow> 'k lru" where
  "lru_step (EvInsert k) p = lru_onInsert k p"
| "lru_step (EvAccess k) p = lru_onAccess k p"
| "lru_step (EvUpdate k) p = lru_onUpdate k p"
| "lru_step (EvRemove k) p = lru_onRemove k p"

definition lru_sim :: "'k lru \<Rightarrow> 'k stamps \<Rightarrow> bool" where
  "lru_sim p t \<longleftrightarrow> lru_ok p \<and> stamped t (lru_items p)"

lemma lru_access_items:
  "lru_ok p \<Longrightarrow> k \<in> lru_node p \<Longrightarrow> lru_items (lru_onAccess k p) = k # remove1 k (lru_items p)"
  by (auto simp: lru_defs lru_ok_def first_of_None_eq_Some)

lemma lru_sim_touch:
  assumes "lru_sim p t"
  shows "lru_sim (lru_onAccess k p) (if stamp t k = None then t else stamp_now k t)"
proof (cases "k \<in> lru_node p")
  case True
  then obtain n where "stamp t k = Some n"
    using assms by (auto simp: lru_sim_def lru_ok_def stamped_def)
  then show ?thesis
    using assms True by (simp add: lru_sim_def lru.ok_access lru_access_items stamped_now)
next
  case False
  then have "stamp t k = None"
    using assms by (auto simp: lru_sim_def lru_ok_def stamped_def)
  then show ?thesis
    using assms False by (simp add: lru_onAccess_def)
qed

lemma lru_sim_insert:
  "lru_sim p t \<Longrightarrow> k \<notin> lru_node p \<Longrightarrow> lru_sim (lru_onInsert k p) (stamp_now k t)"
  using stamped_now[of t "lru_items p" k]
  by (simp add: lru_sim_def lru.ok_insert) (simp add: lru_defs lru_ok_def remove1_idem)

lemma lru_sim_remove: "lru_sim p t \<Longrightarrow> lru_sim (lru_onRemove k p) (stamp_drop k t)"
  using stamped_drop[of t "lru_items p" k]
  by (simp add: lru_sim_def lru.ok_remove) (auto simp: lru_defs lru_ok_def remove1_idem)

lemma lru_run_sim:
  assumes "lru_sim p t" and "fresh_inserts es (lru_node p)"
  shows "lru_sim (fold lru_step es p) (fold recency_step es t)"
  using assms
proof (induction es arbitrary: p t)
  case (Cons e es)
  have ok: "lru_ok p" using Cons.prems by (simp add: lru_sim_def)
  show ?case
    using Cons.prems ok
    by (cases e)
       (simp_all add: Cons.IH lru_sim_insert lru_sim_touch lru_sim_remove lru.tracked_insert
         lru.tracked_access lru.tracked_remove lru_onUpdate_def del: split_paired_All)
qed simp

text \<open>C7: LRU evicts the least recently used key. After any sequence of insertions, reads,
  updates and removals starting from an empty policy, in which a key is inserted only while it
  is not tracked, the policy names as victim a key whose last use is older than that of every
  other tracked key; and it names one whenever some key is tracked.\<close>

theorem lru_victim_least_recent:
  assumes "fresh_inserts es {}"
    and "p = fold lru_step es newLRU" and "t = fold recency_step es stamps_empty"
    and "stamp t k = Some n"
  shows "\<exists>v m. fst (lru_victim p) = Some v \<and> stamp t v = Some m \<and> (k \<noteq> v \<longrightarrow> m < n)"
proof -
  have "lru_sim p t"
    using assms lru_run_sim[of newLRU stamps_empty es]
    by (simp add: lru_sim_def lru_new_ok) (simp add: newLRU_def stamped_empty)
  then have st: "stamped t (lru_items p)" by (simp add: lru_sim_def)
  then have ne: "lru_items p \<noteq> []" using assms(4) by (auto simp: stamped_def)
  then show ?thesis
    using stamped_last_least[OF st ne assms(4)] by (auto simp: lru_victim_eq last_of_def)
qed

theorem lru_victim_least_recent_witness:
  "fst (lru_victim (fold lru_step [EvInsert 1, EvInsert (2::nat), EvAccess 1] newLRU)) = Some 2"
  using lru_victim_least_recent[OF _ refl refl, of "[EvInsert 1, EvInsert (2::nat), EvAccess 1]" 2 1]
  by (simp add: lru_defs stamps_empty_def stamp_now_def split: if_splits)

end
