(* ===== verification/Policy_FIFO.thy ===== *)
theory Policy_FIFO
  imports Policy_Interface
begin

text \<open>
  The FIFO policy (fifo.go): a queue from the oldest entry (\<open>head\<close>, the next victim) to the
  newest. Reads and updates do not change it. \<open>fifo_node\<close> is the set of keys whose entry has a
  node in \<open>policyData\<close>. The policy implements the arrival specification: \<open>Victim\<close> is the key
  inserted first.
\<close>

record 'k fifo =
  fifo_queue :: "'k queue"
  fifo_node :: "'k set"

definition newFIFO :: "'k fifo" where
  "newFIFO = \<lparr>fifo_queue = q_empty, fifo_node = {}\<rparr>"

definition fifo_onInsert :: "'k \<Rightarrow> 'k fifo \<Rightarrow> 'k fifo" where
  "fifo_onInsert k p =
     p\<lparr>fifo_node := insert k (fifo_node p), fifo_queue := q_pushTail k (fifo_queue p)\<rparr>"

definition fifo_onAccess :: "'k \<Rightarrow> 'k fifo \<Rightarrow> 'k fifo" where
  "fifo_onAccess k p = p"

definition fifo_onUpdate :: "'k \<Rightarrow> 'k fifo \<Rightarrow> 'k fifo" where
  "fifo_onUpdate k p = p"

definition fifo_onRemove :: "'k \<Rightarrow> 'k fifo \<Rightarrow> 'k fifo" where
  "fifo_onRemove k p =
     (if k \<notin> fifo_node p then p
      else p\<lparr>fifo_queue := q_unlink k (fifo_queue p), fifo_node := fifo_node p - {k}\<rparr>)"

definition fifo_victim :: "'k fifo \<Rightarrow> 'k option \<times> 'k fifo" where
  "fifo_victim p =
     (case q_head (fifo_queue p) of None \<Rightarrow> (None, p) | Some k \<Rightarrow> (Some k, p))"

definition fifo_len :: "'k fifo \<Rightarrow> int" where
  "fifo_len p = qsize (fifo_queue p)"

definition fifo_setBudget :: "int \<Rightarrow> 'k fifo \<Rightarrow> 'k fifo" where
  "fifo_setBudget b p = p"

definition fifo_reset :: "'k fifo \<Rightarrow> 'k fifo" where
  "fifo_reset p = \<lparr>fifo_queue = q_empty, fifo_node = fifo_node p - q_set (fifo_queue p)\<rparr>"

definition fifo_promotionNeeded :: "'k \<Rightarrow> 'k fifo \<Rightarrow> bool" where
  "fifo_promotionNeeded k p = False"

definition fifo_ok :: "'k fifo \<Rightarrow> bool" where
  "fifo_ok p \<longleftrightarrow> q_inv (fifo_queue p) \<and> fifo_node p = q_set (fifo_queue p)"

lemmas fifo_defs [policy_defs] =
  newFIFO_def fifo_onInsert_def fifo_onAccess_def fifo_onUpdate_def fifo_onRemove_def
  fifo_len_def fifo_setBudget_def fifo_reset_def

lemma fifo_victim_eq: "fifo_victim p = (q_head (fifo_queue p), p)"
  by (simp add: fifo_victim_def split: option.split)

lemma fifo_new_ok: "fifo_ok newFIFO" "fifo_node newFIFO = {}"
  by (simp_all add: fifo_ok_def fifo_defs)

lemma fifo_reset_new: "fifo_ok p \<Longrightarrow> fifo_reset p = newFIFO"
  by (simp add: fifo_ok_def fifo_defs)

interpretation fifo: eager_policy fifo_node fifo_ok fifo_onInsert fifo_onAccess fifo_onUpdate
  fifo_onRemove fifo_victim fifo_len
proof
  fix p :: "'a fifo"
  assume "fifo_ok p" and "fifo_node p \<noteq> {}"
  then show "\<exists>k. fst (fifo_victim p) = Some k"
    by (cases "q_head (fifo_queue p)") (auto simp: fifo_victim_eq fifo_ok_def q_head_None)
qed (auto simp: fifo_ok_def fifo_defs fifo_victim_eq q_size_card dest: q_head_in_set
    split: if_splits)

section \<open>Refinement of the arrival specification\<close>

fun fifo_step :: "'k pevent \<Rightarrow> 'k fifo \<Rightarrow> 'k fifo" where
  "fifo_step (EvInsert k) p = fifo_onInsert k p"
| "fifo_step (EvAccess k) p = fifo_onAccess k p"
| "fifo_step (EvUpdate k) p = fifo_onUpdate k p"
| "fifo_step (EvRemove k) p = fifo_onRemove k p"

text \<open>The queue read from tail to head is the list of keys with the latest arrival first.\<close>

definition fifo_sim :: "'k fifo \<Rightarrow> 'k stamps \<Rightarrow> bool" where
  "fifo_sim p t \<longleftrightarrow> fifo_ok p \<and> stamped t (rev (qitems (fifo_queue p)))"

lemma remove1_rev: "distinct xs \<Longrightarrow> remove1 k (rev xs) = rev (remove1 k xs)"
  by (simp add: distinct_remove1_removeAll removeAll_filter_not_eq rev_filter)

lemma fifo_sim_insert:
  "fifo_sim p t \<Longrightarrow> k \<notin> fifo_node p \<Longrightarrow> fifo_sim (fifo_onInsert k p) (stamp_now k t)"
  using stamped_now[of t "rev (qitems (fifo_queue p))" k]
  by (simp add: fifo_sim_def fifo.ok_insert)
     (simp add: fifo_defs fifo_ok_def remove1_idem q_set_def)

lemma fifo_sim_remove: "fifo_sim p t \<Longrightarrow> fifo_sim (fifo_onRemove k p) (stamp_drop k t)"
  using stamped_drop[of t "rev (qitems (fifo_queue p))" k]
  by (simp add: fifo_sim_def fifo.ok_remove)
     (auto simp: fifo_defs fifo_ok_def remove1_idem q_set_def q_inv_def remove1_rev)

lemma fifo_run_sim:
  assumes "fifo_sim p t" and "fresh_inserts es (fifo_node p)"
  shows "fifo_sim (fold fifo_step es p) (fold arrival_step es t)"
  using assms
proof (induction es arbitrary: p t)
  case (Cons e es)
  have ok: "fifo_ok p" using Cons.prems by (simp add: fifo_sim_def)
  show ?case
    using Cons.prems ok
    by (cases e)
       (simp_all add: Cons.IH fifo_sim_insert fifo_sim_remove fifo.tracked_insert
         fifo.tracked_remove fifo_onUpdate_def fifo_onAccess_def)
qed simp

text \<open>C9: FIFO evicts in arrival order. After any sequence of insertions, reads, updates and
  removals starting from an empty policy, in which a key is inserted only while it is not
  tracked, the policy names as victim the tracked key that was inserted first, whatever was read
  or updated since.\<close>

theorem fifo_victim_oldest:
  assumes "fresh_inserts es {}"
    and "p = fold fifo_step es newFIFO" and "t = fold arrival_step es stamps_empty"
    and "stamp t k = Some n"
  shows "\<exists>v m. fst (fifo_victim p) = Some v \<and> stamp t v = Some m \<and> (k \<noteq> v \<longrightarrow> m < n)"
proof -
  have "fifo_sim p t"
    using assms fifo_run_sim[of newFIFO stamps_empty es]
    by (simp add: fifo_sim_def fifo_new_ok) (simp add: newFIFO_def stamped_empty)
  then have st: "stamped t (rev (qitems (fifo_queue p)))" by (simp add: fifo_sim_def)
  then have ne: "rev (qitems (fifo_queue p)) \<noteq> []" using assms(4) by (auto simp: stamped_def)
  then obtain v vs where "qitems (fifo_queue p) = v # vs"
    by (cases "qitems (fifo_queue p)") auto
  then show ?thesis
    using stamped_last_least[OF st ne assms(4)] by (auto simp: fifo_victim_eq q_head_def)
qed

theorem fifo_victim_oldest_witness:
  "fst (fifo_victim (fold fifo_step [EvInsert 1, EvInsert (2::nat), EvAccess 1] newFIFO)) = Some 1"
  using fifo_victim_oldest[OF _ refl refl, of "[EvInsert 1, EvInsert (2::nat), EvAccess 1]" 1 0]
  by (simp add: fifo_defs stamps_empty_def stamp_now_def split: if_splits)

end
