(* ===== verification/Policy_S3FIFO.thy ===== *)
theory Policy_S3FIFO
  imports Policy_Interface "HOL-Library.Word"
begin

text \<open>
  The S3-FIFO policy (s3fifo.go): the Small and Main queues of live entries, the key-only Ghost
  queue with its set, and the node of each entry (\<open>freq\<close>, \<open>inMain\<close>, whether the node still
  points at its entry). \<open>Victim\<close> rotates the queues; its loop is modelled with the iteration
  bound the code computes, and the defensive code after the loop is part of the model.

  The lemmas show the structural invariant, that \<open>Victim\<close> never names the entry inserted last,
  that it names one whenever the policy is over its budget, and that the bound of the loop is
  large enough for the code after the loop not to run.
\<close>

unbundle bit_operations_syntax

record s3Node =
  freq :: "32 word"
  inMain :: bool
  hasEntry :: bool

record 'k s3fifo =
  s3_small :: "'k queue"
  smallBudget :: int
  s3_main :: "'k queue"
  mainBudget :: int
  s3_ghost :: "'k queue"
  ghostBudget :: int
  ghostSet :: "'k set"
  recentInsert :: "'k option"
  pinNodes :: bool
  s3_node :: "'k \<Rightarrow> s3Node option"

definition s3FreqMax :: "32 word" where
  "s3FreqMax = 3"

definition s3SplitBudget :: "int \<Rightarrow> int \<times> int" where
  "s3SplitBudget budget =
     (if budget \<le> 0 then (0, 0)
      else if budget = 1 then (1, 0)
      else let small = (budget + 9) div 10;
               small = (if small \<ge> budget then 1 else small)
           in (small, budget - small))"

definition newS3FIFO :: "int \<Rightarrow> 'k s3fifo" where
  "newS3FIFO budget =
     (case s3SplitBudget budget of (small, main) \<Rightarrow>
        \<lparr>s3_small = q_empty, smallBudget = small, s3_main = q_empty, mainBudget = main,
         s3_ghost = q_empty, ghostBudget = main, ghostSet = {}, recentInsert = None,
         pinNodes = False, s3_node = Map.empty\<rparr>)"

section \<open>Queue primitives\<close>

definition s3_setNode :: "'k \<Rightarrow> (s3Node \<Rightarrow> s3Node) \<Rightarrow> 'k s3fifo \<Rightarrow> 'k s3fifo" where
  "s3_setNode k f p = p\<lparr>s3_node := (s3_node p)(k := map_option f (s3_node p k))\<rparr>"

definition s3_pushSmallTail :: "'k \<Rightarrow> 'k s3fifo \<Rightarrow> 'k s3fifo" where
  "s3_pushSmallTail k p =
     (s3_setNode k (inMain_update (\<lambda>_. False)) p)\<lparr>s3_small := q_pushTail k (s3_small p)\<rparr>"

definition s3_pushMainTail :: "'k \<Rightarrow> 'k s3fifo \<Rightarrow> 'k s3fifo" where
  "s3_pushMainTail k p =
     (s3_setNode k (inMain_update (\<lambda>_. True)) p)\<lparr>s3_main := q_pushTail k (s3_main p)\<rparr>"

definition s3_unlinkSmall :: "'k \<Rightarrow> 'k s3fifo \<Rightarrow> 'k s3fifo" where
  "s3_unlinkSmall k p = p\<lparr>s3_small := q_unlink k (s3_small p)\<rparr>"

definition s3_unlinkMain :: "'k \<Rightarrow> 'k s3fifo \<Rightarrow> 'k s3fifo" where
  "s3_unlinkMain k p = p\<lparr>s3_main := q_unlink k (s3_main p)\<rparr>"

definition s3_unlinkGhost :: "'k \<Rightarrow> 'k s3fifo \<Rightarrow> 'k s3fifo" where
  "s3_unlinkGhost g p = p\<lparr>s3_ghost := q_unlink g (s3_ghost p), ghostSet := ghostSet p - {g}\<rparr>"

text \<open>The loop \<open>for p.ghostSize > p.ghostBudget && p.ghostHead != nil\<close>, which \<open>SetBudget\<close> and
  \<open>recordGhost\<close> share.\<close>

function s3_trimGhost :: "'k s3fifo \<Rightarrow> 'k s3fifo" where
  "s3_trimGhost p =
     (case q_head (s3_ghost p) of
        None \<Rightarrow> p
      | Some g \<Rightarrow>
          if qsize (s3_ghost p) > ghostBudget p then s3_trimGhost (s3_unlinkGhost g p) else p)"
  by pat_completeness auto
termination
proof (relation "measure (\<lambda>p. length (qitems (s3_ghost p)))")
  fix p :: "'k s3fifo" and g
  assume "q_head (s3_ghost p) = Some g"
  then show "(s3_unlinkGhost g p, p) \<in> measure (\<lambda>p. length (qitems (s3_ghost p)))"
    by (auto simp: s3_unlinkGhost_def q_head_def first_of_None_eq_Some)
qed simp

declare s3_trimGhost.simps [simp del]

definition s3_recordGhost :: "'k \<Rightarrow> 'k s3fifo \<Rightarrow> 'k s3fifo" where
  "s3_recordGhost key p =
     (if key \<in> ghostSet p then p
      else s3_trimGhost
        (p\<lparr>s3_ghost := q_pushTail key (s3_ghost p), ghostSet := insert key (ghostSet p)\<rparr>))"

section \<open>The policy operations\<close>

definition s3_setBudget :: "int \<Rightarrow> 'k s3fifo \<Rightarrow> 'k s3fifo" where
  "s3_setBudget budget p =
     (case s3SplitBudget budget of (small, main) \<Rightarrow>
        s3_trimGhost (p\<lparr>smallBudget := small, mainBudget := main, ghostBudget := main\<rparr>))"

definition s3_onInsert :: "'k \<Rightarrow> 'k s3fifo \<Rightarrow> 'k s3fifo" where
  "s3_onInsert k p =
     (let n = \<lparr>freq = 0, inMain = False, hasEntry = True\<rparr>;
          p = p\<lparr>s3_node := (s3_node p)(k \<mapsto> n)\<rparr>;
          p = (if k \<in> ghostSet p
               then let p = s3_unlinkGhost k p;
                        p = s3_setNode k (inMain_update (\<lambda>_. True)) p;
                        p = s3_setNode k (freq_update (\<lambda>_. 1)) p
                    in s3_pushMainTail k p
               else s3_pushSmallTail k p)
      in p\<lparr>recentInsert := Some k\<rparr>)"

definition s3_onAccess :: "'k \<Rightarrow> 'k s3fifo \<Rightarrow> 'k s3fifo" where
  "s3_onAccess k p =
     (case s3_node p k of
        None \<Rightarrow> p
      | Some n \<Rightarrow> if freq n < s3FreqMax then s3_setNode k (freq_update (\<lambda>f. f + 1)) p else p)"

definition s3_onUpdate :: "'k \<Rightarrow> 'k s3fifo \<Rightarrow> 'k s3fifo" where
  "s3_onUpdate k p = s3_onAccess k p"

definition s3_onRemove :: "'k \<Rightarrow> 'k s3fifo \<Rightarrow> 'k s3fifo" where
  "s3_onRemove k p =
     (case s3_node p k of
        None \<Rightarrow> p
      | Some n \<Rightarrow>
          if \<not> hasEntry n then p
          else let p = (if inMain n then s3_unlinkMain k p else s3_unlinkSmall k p);
                   p = (if recentInsert p = Some k then p\<lparr>recentInsert := None\<rparr> else p);
                   p = s3_setNode k (hasEntry_update (\<lambda>_. False)) p
               in if pinNodes p then p else p\<lparr>s3_node := (s3_node p)(k := None)\<rparr>)"

definition s3_freqOf :: "'k \<Rightarrow> 'k s3fifo \<Rightarrow> 32 word" where
  "s3_freqOf k p = (case s3_node p k of None \<Rightarrow> 0 | Some n \<Rightarrow> freq n)"

text \<open>One iteration of the loop of \<open>Victim\<close>: \<open>None\<close> is \<open>continue\<close>, \<open>Some r\<close> is \<open>return r\<close>.\<close>

definition s3_smallIter :: "'k \<Rightarrow> 'k s3fifo \<Rightarrow> 'k option option \<times> 'k s3fifo" where
  "s3_smallIter n p =
     (if Some n = recentInsert p then (None, s3_pushSmallTail n (s3_unlinkSmall n p))
      else if s3_freqOf n p \<ge> 1
      then let p = s3_unlinkSmall n p;
               p = s3_setNode n (freq_update (\<lambda>_. 0)) p;
               p = s3_setNode n (inMain_update (\<lambda>_. True)) p
           in (None, s3_pushMainTail n p)
      else (Some (Some n), s3_recordGhost n (s3_unlinkSmall n p)))"

definition s3_mainIter :: "'k \<Rightarrow> 'k s3fifo \<Rightarrow> 'k option option \<times> 'k s3fifo" where
  "s3_mainIter n p =
     (if Some n = recentInsert p then (None, s3_pushMainTail n (s3_unlinkMain n p))
      else if s3_freqOf n p \<ge> 1
      then let p = s3_setNode n (freq_update (\<lambda>f. f + NOT 0)) p
           in (None, s3_pushMainTail n (s3_unlinkMain n p))
      else (Some (Some n), s3_unlinkMain n p))"

definition s3_iter :: "'k s3fifo \<Rightarrow> 'k option option \<times> 'k s3fifo" where
  "s3_iter p =
     (if qsize (s3_small p) > smallBudget p \<and> q_head (s3_small p) \<noteq> None
      then s3_smallIter (the (q_head (s3_small p))) p
      else if qsize (s3_main p) > mainBudget p \<and> q_head (s3_main p) \<noteq> None
      then s3_mainIter (the (q_head (s3_main p))) p
      else (Some None, p))"

fun s3_loop :: "nat \<Rightarrow> 'k s3fifo \<Rightarrow> 'k option option \<times> 'k s3fifo" where
  "s3_loop 0 p = (None, p)"
| "s3_loop (Suc i) p =
     (case s3_iter p of (Some r, p') \<Rightarrow> (Some r, p') | (None, p') \<Rightarrow> s3_loop i p')"

definition s3_maxRotations :: "'k s3fifo \<Rightarrow> int" where
  "s3_maxRotations p = (qsize (s3_small p) + qsize (s3_main p) + 1) * (uint s3FreqMax + 1) + 1"

definition firstSmallNotRecent :: "'k s3fifo \<Rightarrow> 'k option" where
  "firstSmallNotRecent p = List.find (\<lambda>n. Some n \<noteq> recentInsert p) (qitems (s3_small p))"

definition firstMainNotRecent :: "'k s3fifo \<Rightarrow> 'k option" where
  "firstMainNotRecent p = List.find (\<lambda>n. Some n \<noteq> recentInsert p) (qitems (s3_main p))"

text \<open>The tail that the fallback of \<open>Victim\<close> and \<open>shed\<close> share: the oldest Small entry that is
  not the recent one, else the oldest such Main entry.\<close>

definition s3_oldestNotRecent :: "'k s3fifo \<Rightarrow> 'k option \<times> 'k s3fifo" where
  "s3_oldestNotRecent p =
     (case firstSmallNotRecent p of
        Some n \<Rightarrow> (Some n, s3_recordGhost n (s3_unlinkSmall n p))
      | None \<Rightarrow>
          (case firstMainNotRecent p of
             Some n \<Rightarrow> (Some n, s3_unlinkMain n p)
           | None \<Rightarrow> (None, p)))"

definition s3_fallback :: "'k s3fifo \<Rightarrow> 'k option \<times> 'k s3fifo" where
  "s3_fallback p =
     (if qsize (s3_main p) > mainBudget p
      then (case firstMainNotRecent p of
              Some n \<Rightarrow> (Some n, s3_unlinkMain n p)
            | None \<Rightarrow> s3_oldestNotRecent p)
      else s3_oldestNotRecent p)"

definition s3_victim :: "'k s3fifo \<Rightarrow> 'k option \<times> 'k s3fifo" where
  "s3_victim p =
     (case s3_loop (nat (s3_maxRotations p)) p of
        (Some r, p') \<Rightarrow> (r, p')
      | (None, p') \<Rightarrow> s3_fallback p')"

definition s3_shed :: "bool \<Rightarrow> 'k s3fifo \<Rightarrow> 'k option \<times> 'k s3fifo" where
  "s3_shed keepRecent p =
     (case s3_oldestNotRecent p of
        (Some n, p') \<Rightarrow> (Some n, p')
      | (None, _) \<Rightarrow>
          if keepRecent then (None, p)
          else (case recentInsert p of
                  None \<Rightarrow> (None, p)
                | Some n \<Rightarrow>
                    if (case s3_node p n of None \<Rightarrow> False | Some d \<Rightarrow> inMain d)
                    then (Some n, s3_unlinkMain n p)
                    else (Some n, s3_recordGhost n (s3_unlinkSmall n p))))"

definition s3_len :: "'k s3fifo \<Rightarrow> int" where
  "s3_len p = qsize (s3_small p) + qsize (s3_main p)"

definition s3_reset :: "'k s3fifo \<Rightarrow> 'k s3fifo" where
  "s3_reset p =
     p\<lparr>s3_small := q_empty, s3_main := q_empty, s3_ghost := q_empty, ghostSet := {},
       recentInsert := None,
       s3_node := (\<lambda>k. if k \<in> q_set (s3_small p) \<union> q_set (s3_main p)
                       then (if pinNodes p
                             then map_option (hasEntry_update (\<lambda>_. False)) (s3_node p k)
                             else None)
                       else s3_node p k)\<rparr>"

definition s3_promotionNeeded :: "'k \<Rightarrow> 'k s3fifo \<Rightarrow> bool" where
  "s3_promotionNeeded k p =
     (case s3_node p k of None \<Rightarrow> True | Some n \<Rightarrow> freq n < s3FreqMax)"

section \<open>The structural invariant\<close>

definition s3_keys :: "('k \<Rightarrow> s3Node option) \<Rightarrow> 'k set" where
  "s3_keys m = {k. \<exists>n. m k = Some n \<and> hasEntry n}"

definition s3_tracked :: "'k s3fifo \<Rightarrow> 'k set" where
  "s3_tracked p = s3_keys (s3_node p)"

lemma s3_keys_simps [simp]:
  "s3_keys Map.empty = {}"
  "s3_keys (m(k \<mapsto> n)) = (if hasEntry n then insert k (s3_keys m) else s3_keys m - {k})"
  "s3_keys (m(k := None)) = s3_keys m - {k}"
  "s3_keys (m(k := map_option (freq_update f) x)) = s3_keys (m(k := x))"
  "s3_keys (m(k := map_option (inMain_update g) x)) = s3_keys (m(k := x))"
  "s3_keys (m(k := map_option (hasEntry_update (\<lambda>_. False)) x)) = s3_keys m - {k}"
  by (auto simp: s3_keys_def split: if_splits)

definition s3_linked :: "'k s3fifo \<Rightarrow> 'k set" where
  "s3_linked p = q_set (s3_small p) \<union> q_set (s3_main p)"

text \<open>\<open>s3_live X p\<close>: Small and Main are disjoint queues that hold exactly the tracked keys but
  those of \<open>X\<close>, the nodes \<open>Victim\<close> has pulled out and \<open>OnRemove\<close> has not yet released; \<open>inMain\<close>
  agrees with the queue and counters stay within two bits.\<close>

definition s3_live :: "'k set \<Rightarrow> 'k s3fifo \<Rightarrow> bool" where
  "s3_live X p \<longleftrightarrow>
     q_inv (s3_small p) \<and> q_inv (s3_main p) \<and> q_set (s3_small p) \<inter> q_set (s3_main p) = {} \<and>
     s3_tracked p = s3_linked p \<union> X \<and> s3_linked p \<inter> X = {} \<and>
     (\<forall>k n. s3_node p k = Some n \<longrightarrow> freq n \<le> s3FreqMax \<and>
        (k \<in> q_set (s3_small p) \<longrightarrow> \<not> inMain n) \<and> (k \<in> q_set (s3_main p) \<longrightarrow> inMain n)) \<and>
     (\<forall>k. recentInsert p = Some k \<longrightarrow> k \<in> s3_tracked p)"

text \<open>\<open>s3_ghosts p\<close>: the Ghost queue and its set agree, stay within the budget, and hold no
  queued key.\<close>

definition s3_ghosts :: "'k s3fifo \<Rightarrow> bool" where
  "s3_ghosts p \<longleftrightarrow>
     q_inv (s3_ghost p) \<and> q_set (s3_ghost p) = ghostSet p \<and> qsize (s3_ghost p) \<le> ghostBudget p \<and>
     ghostSet p \<inter> s3_linked p = {}"

definition s3_budgets :: "'k s3fifo \<Rightarrow> bool" where
  "s3_budgets p \<longleftrightarrow> 0 \<le> smallBudget p \<and> 0 \<le> mainBudget p \<and> ghostBudget p = mainBudget p \<and>
     (mainBudget p > 0 \<longrightarrow> smallBudget p > 0)"

definition s3_inv :: "'k set \<Rightarrow> 'k s3fifo \<Rightarrow> bool" where
  "s3_inv X p \<longleftrightarrow> s3_live X p \<and> s3_ghosts p \<and> s3_budgets p"

definition s3_ok :: "'k s3fifo \<Rightarrow> bool" where
  "s3_ok p \<longleftrightarrow> s3_inv {} p"

lemmas s3_prims [policy_defs] =
  s3_setNode_def s3_pushSmallTail_def s3_pushMainTail_def s3_unlinkSmall_def s3_unlinkMain_def
  s3_unlinkGhost_def

lemma s3_setNode_simps [simp]:
  "s3_small (s3_setNode k f p) = s3_small p" "s3_main (s3_setNode k f p) = s3_main p"
  "s3_ghost (s3_setNode k f p) = s3_ghost p" "ghostSet (s3_setNode k f p) = ghostSet p"
  "smallBudget (s3_setNode k f p) = smallBudget p" "mainBudget (s3_setNode k f p) = mainBudget p"
  "ghostBudget (s3_setNode k f p) = ghostBudget p" "pinNodes (s3_setNode k f p) = pinNodes p"
  "recentInsert (s3_setNode k f p) = recentInsert p"
  "s3_node (s3_setNode k f p) = (s3_node p)(k := map_option f (s3_node p k))"
  by (simp_all add: s3_setNode_def)

section \<open>Trimming and recording ghosts\<close>

lemma s3_trimGhost_stop:
  "q_head (s3_ghost p) = None \<or> qsize (s3_ghost p) \<le> ghostBudget p \<Longrightarrow> s3_trimGhost p = p"
  by (subst s3_trimGhost.simps) (auto split: option.split)

lemma s3_trimGhost_next:
  "q_head (s3_ghost p) = Some g \<Longrightarrow> qsize (s3_ghost p) > ghostBudget p \<Longrightarrow>
   s3_trimGhost p = s3_trimGhost (s3_unlinkGhost g p)"
  by (subst s3_trimGhost.simps) simp

text \<open>Induction over the drops the trimming performs.\<close>

lemma s3_trimGhost_cases [case_names Stop Next]:
  assumes "\<And>p. q_head (s3_ghost p) = None \<or> qsize (s3_ghost p) \<le> ghostBudget p \<Longrightarrow> P p p"
    and "\<And>p g. q_head (s3_ghost p) = Some g \<Longrightarrow> qsize (s3_ghost p) > ghostBudget p \<Longrightarrow>
          P (s3_unlinkGhost g p) (s3_trimGhost (s3_unlinkGhost g p)) \<Longrightarrow>
          P p (s3_trimGhost (s3_unlinkGhost g p))"
  shows "P p (s3_trimGhost p)"
proof (induction p rule: s3_trimGhost.induct)
  case (1 p)
  then show ?case
    using assms by (cases "q_head (s3_ghost p) = None \<or> qsize (s3_ghost p) \<le> ghostBudget p")
      (auto simp: s3_trimGhost_stop s3_trimGhost_next not_le)
qed

lemma s3_trimGhost_frame:
  "\<exists>G S. s3_trimGhost p = p\<lparr>s3_ghost := G, ghostSet := S\<rparr> \<and> S \<subseteq> ghostSet p"
proof (induction p rule: s3_trimGhost_cases)
  case (Stop p)
  show ?case by (auto intro!: exI[of _ "s3_ghost p"] exI[of _ "ghostSet p"])
next
  case (Next p g)
  then obtain G S where
    "s3_trimGhost (s3_unlinkGhost g p) = (s3_unlinkGhost g p)\<lparr>s3_ghost := G, ghostSet := S\<rparr>"
    "S \<subseteq> ghostSet (s3_unlinkGhost g p)"
    by blast
  then show ?case
    by (auto simp: s3_unlinkGhost_def intro!: exI[of _ G] exI[of _ S])
qed

lemma s3_trimGhost_simps [simp]:
  "s3_small (s3_trimGhost p) = s3_small p" "s3_main (s3_trimGhost p) = s3_main p"
  "smallBudget (s3_trimGhost p) = smallBudget p" "mainBudget (s3_trimGhost p) = mainBudget p"
  "ghostBudget (s3_trimGhost p) = ghostBudget p" "pinNodes (s3_trimGhost p) = pinNodes p"
  "recentInsert (s3_trimGhost p) = recentInsert p" "s3_node (s3_trimGhost p) = s3_node p"
  using s3_trimGhost_frame[of p] by auto

lemma s3_trimGhost_sub: "ghostSet (s3_trimGhost p) \<subseteq> ghostSet p"
  using s3_trimGhost_frame[of p] by auto

lemma s3_trimGhost_inv:
  assumes "q_inv (s3_ghost p)" and "q_set (s3_ghost p) = ghostSet p" and "0 \<le> ghostBudget p"
  shows "q_inv (s3_ghost (s3_trimGhost p)) \<and>
     q_set (s3_ghost (s3_trimGhost p)) = ghostSet (s3_trimGhost p) \<and>
     qsize (s3_ghost (s3_trimGhost p)) \<le> ghostBudget p"
  using assms
proof (induction p rule: s3_trimGhost_cases)
  case (Stop p)
  then show ?case by (auto simp: q_head_None q_size_card)
next
  case (Next p g)
  then show ?case by (simp add: s3_unlinkGhost_def)
qed

lemma s3_recordGhost_simps [simp]:
  "s3_small (s3_recordGhost k p) = s3_small p" "s3_main (s3_recordGhost k p) = s3_main p"
  "smallBudget (s3_recordGhost k p) = smallBudget p" "mainBudget (s3_recordGhost k p) = mainBudget p"
  "ghostBudget (s3_recordGhost k p) = ghostBudget p" "pinNodes (s3_recordGhost k p) = pinNodes p"
  "recentInsert (s3_recordGhost k p) = recentInsert p" "s3_node (s3_recordGhost k p) = s3_node p"
  by (simp_all add: s3_recordGhost_def)

lemma s3_recordGhost_ghosts:
  assumes "s3_ghosts p" and "0 \<le> ghostBudget p" and "k \<notin> s3_linked p"
  shows "s3_ghosts (s3_recordGhost k p)"
proof (cases "k \<in> ghostSet p")
  case True
  then show ?thesis using assms by (simp add: s3_recordGhost_def)
next
  case False
  let ?p = "p\<lparr>s3_ghost := q_pushTail k (s3_ghost p), ghostSet := insert k (ghostSet p)\<rparr>"
  have "s3_linked (s3_trimGhost ?p) = s3_linked p"
    by (simp add: s3_linked_def)
  moreover have "ghostSet (s3_trimGhost ?p) \<subseteq> insert k (ghostSet p)"
    using s3_trimGhost_sub[of ?p] by simp
  ultimately show ?thesis
    using False assms s3_trimGhost_inv[of ?p]
    by (auto simp: s3_recordGhost_def s3_ghosts_def)
qed

section \<open>Moves between the queues\<close>

lemmas s3_live_defs = s3_live_def s3_linked_def s3_tracked_def
lemmas s3_inv_defs = s3_inv_def s3_live_defs s3_ghosts_def s3_budgets_def

lemma s3_unlinkSmall_simps [simp]:
  "s3_small (s3_unlinkSmall n p) = q_unlink n (s3_small p)"
  "s3_main (s3_unlinkSmall n p) = s3_main p"
  "s3_ghost (s3_unlinkSmall n p) = s3_ghost p"
  "ghostSet (s3_unlinkSmall n p) = ghostSet p"
  "smallBudget (s3_unlinkSmall n p) = smallBudget p"
  "mainBudget (s3_unlinkSmall n p) = mainBudget p"
  "ghostBudget (s3_unlinkSmall n p) = ghostBudget p"
  "pinNodes (s3_unlinkSmall n p) = pinNodes p"
  "recentInsert (s3_unlinkSmall n p) = recentInsert p"
  "s3_node (s3_unlinkSmall n p) = s3_node p"
  by (simp_all add: s3_prims)

lemma s3_unlinkMain_simps [simp]:
  "s3_small (s3_unlinkMain n p) = s3_small p"
  "s3_main (s3_unlinkMain n p) = q_unlink n (s3_main p)"
  "s3_ghost (s3_unlinkMain n p) = s3_ghost p"
  "ghostSet (s3_unlinkMain n p) = ghostSet p"
  "smallBudget (s3_unlinkMain n p) = smallBudget p"
  "mainBudget (s3_unlinkMain n p) = mainBudget p"
  "ghostBudget (s3_unlinkMain n p) = ghostBudget p"
  "pinNodes (s3_unlinkMain n p) = pinNodes p"
  "recentInsert (s3_unlinkMain n p) = recentInsert p"
  "s3_node (s3_unlinkMain n p) = s3_node p"
  by (simp_all add: s3_prims)

lemma s3_pushSmallTail_simps [simp]:
  "s3_small (s3_pushSmallTail n p) = q_pushTail n (s3_small p)"
  "s3_main (s3_pushSmallTail n p) = s3_main p"
  "s3_ghost (s3_pushSmallTail n p) = s3_ghost p"
  "ghostSet (s3_pushSmallTail n p) = ghostSet p"
  "smallBudget (s3_pushSmallTail n p) = smallBudget p"
  "mainBudget (s3_pushSmallTail n p) = mainBudget p"
  "ghostBudget (s3_pushSmallTail n p) = ghostBudget p"
  "pinNodes (s3_pushSmallTail n p) = pinNodes p"
  "recentInsert (s3_pushSmallTail n p) = recentInsert p"
  "s3_node (s3_pushSmallTail n p) = (s3_node p)(n := map_option (inMain_update (\<lambda>_. False)) (s3_node p n))"
  by (simp_all add: s3_prims)

lemma s3_pushMainTail_simps [simp]:
  "s3_small (s3_pushMainTail n p) = s3_small p"
  "s3_main (s3_pushMainTail n p) = q_pushTail n (s3_main p)"
  "s3_ghost (s3_pushMainTail n p) = s3_ghost p"
  "ghostSet (s3_pushMainTail n p) = ghostSet p"
  "smallBudget (s3_pushMainTail n p) = smallBudget p"
  "mainBudget (s3_pushMainTail n p) = mainBudget p"
  "ghostBudget (s3_pushMainTail n p) = ghostBudget p"
  "pinNodes (s3_pushMainTail n p) = pinNodes p"
  "recentInsert (s3_pushMainTail n p) = recentInsert p"
  "s3_node (s3_pushMainTail n p) = (s3_node p)(n := map_option (inMain_update (\<lambda>_. True)) (s3_node p n))"
  by (simp_all add: s3_prims)

lemma s3_unlinkGhost_simps [simp]:
  "s3_small (s3_unlinkGhost n p) = s3_small p"
  "s3_main (s3_unlinkGhost n p) = s3_main p"
  "s3_ghost (s3_unlinkGhost n p) = q_unlink n (s3_ghost p)"
  "ghostSet (s3_unlinkGhost n p) = ghostSet p - {n}"
  "smallBudget (s3_unlinkGhost n p) = smallBudget p"
  "mainBudget (s3_unlinkGhost n p) = mainBudget p"
  "ghostBudget (s3_unlinkGhost n p) = ghostBudget p"
  "pinNodes (s3_unlinkGhost n p) = pinNodes p"
  "recentInsert (s3_unlinkGhost n p) = recentInsert p"
  "s3_node (s3_unlinkGhost n p) = s3_node p"
  by (simp_all add: s3_prims)

lemma s3_inv_requeue_small:
  assumes "s3_inv {} p" and "n \<in> q_set (s3_small p)"
  shows "s3_inv {} (s3_pushSmallTail n (s3_unlinkSmall n p))"
  using assms by (auto simp: s3_inv_defs)

lemma s3_inv_requeue_main:
  assumes "s3_inv {} p" and "n \<in> q_set (s3_main p)"
  shows "s3_inv {} (s3_pushMainTail n (s3_unlinkMain n p))"
  using assms by (auto simp: s3_inv_defs)

lemma s3_inv_promote:
  assumes "s3_inv {} p" and "n \<in> q_set (s3_small p)"
  shows "s3_inv {} (s3_pushMainTail n (s3_setNode n (inMain_update (\<lambda>_. True))
           (s3_setNode n (freq_update (\<lambda>_. 0)) (s3_unlinkSmall n p))))"
  using assms by (auto simp: s3_inv_defs)

lemma s3_inv_freq:
  assumes "s3_inv X p" and "\<And>d. s3_node p n = Some d \<Longrightarrow> f (freq d) \<le> s3FreqMax"
  shows "s3_inv X (s3_setNode n (freq_update f) p)"
  using assms by (auto simp: s3_inv_defs)

lemma s3_inv_pull_main:
  assumes "s3_inv {} p" and "n \<in> q_set (s3_main p)"
  shows "s3_inv {n} (s3_unlinkMain n p)"
  using assms by (auto simp: s3_inv_defs)

lemma s3_inv_pull_small:
  assumes "s3_inv {} p" and "n \<in> q_set (s3_small p)"
  shows "s3_inv {n} (s3_recordGhost n (s3_unlinkSmall n p))"
proof -
  have "s3_live {n} (s3_unlinkSmall n p)" "s3_ghosts (s3_unlinkSmall n p)"
    "s3_budgets (s3_unlinkSmall n p)" "n \<notin> s3_linked (s3_unlinkSmall n p)"
    using assms by (auto simp: s3_inv_defs)
  then show ?thesis
    using s3_recordGhost_ghosts[of "s3_unlinkSmall n p" n]
    by (simp add: s3_inv_def s3_budgets_def s3_live_defs cong: conj_cong)
qed

section \<open>Insertion, access and removal\<close>

lemma s3_split_bounds:
  "s3SplitBudget b = (small, main) \<Longrightarrow>
   0 \<le> small \<and> 0 \<le> main \<and> (main > 0 \<longrightarrow> small > 0) \<and> small + main = max 0 b"
  by (auto simp: s3SplitBudget_def Let_def split: if_splits)

lemma s3_new_ok: "s3_ok (newS3FIFO b)" "s3_tracked (newS3FIFO b) = {}"
  using s3_split_bounds
  by (auto simp: newS3FIFO_def s3_ok_def s3_inv_defs split: prod.split)

lemma s3_setBudget_inv:
  assumes inv: "s3_inv X p"
  shows "s3_inv X (s3_setBudget b p)"
proof -
  obtain small main where sm: "s3SplitBudget b = (small, main)" by force
  let ?p = "p\<lparr>smallBudget := small, mainBudget := main, ghostBudget := main\<rparr>"
  have live: "s3_live X (s3_trimGhost ?p)"
    using inv by (simp add: s3_inv_def s3_live_defs cong: conj_cong)
  have "ghostSet (s3_trimGhost ?p) \<subseteq> ghostSet p"
    using s3_trimGhost_sub[of ?p] by simp
  then have "s3_ghosts (s3_trimGhost ?p)"
    using inv s3_split_bounds[OF sm] s3_trimGhost_inv[of ?p]
    by (auto simp: s3_inv_def s3_ghosts_def s3_linked_def)
  then show ?thesis
    using live s3_split_bounds[OF sm] by (simp add: s3_setBudget_def sm s3_inv_def s3_budgets_def)
qed

lemma s3_setBudget_tracked: "s3_tracked (s3_setBudget b p) = s3_tracked p"
  by (simp add: s3_setBudget_def s3_tracked_def split: prod.split)

lemma s3_onInsert_tracked: "s3_tracked (s3_onInsert k p) = insert k (s3_tracked p)"
  by (simp add: s3_onInsert_def s3_tracked_def Let_def insert_absorb)

lemma s3_onInsert_ok:
  assumes "s3_ok p" and "k \<notin> s3_tracked p"
  shows "s3_ok (s3_onInsert k p)"
proof (cases "k \<in> ghostSet p")
  case True
  then show ?thesis
    using assms by (auto simp: s3_ok_def s3_inv_defs s3_onInsert_def Let_def s3FreqMax_def)
next
  case False
  then show ?thesis
    using assms by (auto simp: s3_ok_def s3_inv_defs s3_onInsert_def Let_def s3FreqMax_def)
qed

lemma s3_freq_bump: "(f :: 32 word) < s3FreqMax \<Longrightarrow> f + 1 \<le> s3FreqMax"
  by (simp add: s3FreqMax_def inc_le)

lemma s3_onAccess_inv: "s3_inv X p \<Longrightarrow> s3_inv X (s3_onAccess k p)"
  by (auto simp: s3_onAccess_def s3_freq_bump intro!: s3_inv_freq split: option.split)

lemma s3_onAccess_tracked: "s3_tracked (s3_onAccess k p) = s3_tracked p"
  by (cases "s3_node p k") (auto simp: s3_onAccess_def s3_tracked_def s3_keys_def)

lemma s3_onRemove_tracked: "s3_tracked (s3_onRemove k p) = s3_tracked p - {k}"
  by (auto simp: s3_tracked_def s3_onRemove_def Let_def s3_keys_def split: option.split if_splits)

lemma s3_onRemove_inv:
  assumes "s3_inv X p"
  shows "s3_inv (X - {k}) (s3_onRemove k p)"
proof (cases "k \<in> s3_tracked p")
  case False
  then have "s3_onRemove k p = p" "k \<notin> X"
    using assms
    by (auto simp: s3_onRemove_def s3_tracked_def s3_keys_def s3_inv_defs split: option.split)
  then show ?thesis using assms by simp
next
  case True
  then obtain n where n: "s3_node p k = Some n" "hasEntry n"
    by (auto simp: s3_tracked_def s3_keys_def)
  show ?thesis
  proof (cases "k \<in> X")
    case True
    then show ?thesis
      using assms n by (auto simp: s3_inv_defs s3_onRemove_def Let_def)
  next
    case False
    then have "k \<in> q_set (s3_small p) \<and> \<not> inMain n \<or> k \<in> q_set (s3_main p) \<and> inMain n"
      using assms n \<open>k \<in> s3_tracked p\<close> by (auto simp: s3_inv_defs)
    then show ?thesis
      using assms n False by (auto simp: s3_inv_defs s3_onRemove_def Let_def)
  qed
qed

section \<open>The loop of Victim\<close>

lemma s3_freq_drop:
  assumes "(1 :: 32 word) \<le> f"
  shows "unat (f + NOT 0) = unat f - 1" and "f + NOT 0 \<le> f"
proof -
  have "f + NOT 0 = f - 1" by simp
  moreover have "unat (f - 1) = unat f - 1"
    using assms by (simp add: unat_sub)
  ultimately show "unat (f + NOT 0) = unat f - 1" "f + NOT 0 \<le> f"
    by (simp_all add: word_le_nat_alt)
qed

text \<open>What one iteration keeps, and what it reports.\<close>

definition s3_frame :: "'k s3fifo \<Rightarrow> 'k s3fifo \<Rightarrow> bool" where
  "s3_frame p p' \<longleftrightarrow> s3_tracked p' = s3_tracked p \<and> recentInsert p' = recentInsert p \<and>
     smallBudget p' = smallBudget p \<and> mainBudget p' = mainBudget p \<and> pinNodes p' = pinNodes p"

lemma s3_frame_refl [simp]: "s3_frame p p"
  by (simp add: s3_frame_def)

lemma s3_frame_trans: "s3_frame p q \<Longrightarrow> s3_frame q r \<Longrightarrow> s3_frame p r"
  by (simp add: s3_frame_def)

lemma s3_frame_moves [simp]:
  "s3_frame p (s3_unlinkMain n p)"
  "s3_frame p (s3_recordGhost n (s3_unlinkSmall n p))"
  "s3_frame p (s3_pushSmallTail n (s3_unlinkSmall n p))"
  "s3_frame p (s3_pushMainTail n (s3_unlinkMain n p))"
  "s3_frame p (s3_pushMainTail n (s3_unlinkMain n (s3_setNode n (freq_update f) p)))"
  "s3_frame p (s3_pushMainTail n (s3_setNode n (inMain_update g)
     (s3_setNode n (freq_update f) (s3_unlinkSmall n p))))"
  by (simp_all add: s3_frame_def s3_tracked_def)

lemma s3_smallIter_inv:
  assumes "s3_inv {} p" and "n \<in> q_set (s3_small p)" and "s3_smallIter n p = (r, p')"
  shows "s3_frame p p' \<and>
    (case r of None \<Rightarrow> s3_inv {} p'
     | Some v \<Rightarrow> v = Some n \<and> s3_inv {n} p' \<and> recentInsert p \<noteq> Some n)"
  using assms
  by (auto simp: s3_smallIter_def Let_def s3_inv_requeue_small s3_inv_promote s3_inv_pull_small
      split: if_splits)

lemma s3_mainIter_inv:
  assumes "s3_inv {} p" and "n \<in> q_set (s3_main p)" and "s3_mainIter n p = (r, p')"
  shows "s3_frame p p' \<and>
    (case r of None \<Rightarrow> s3_inv {} p'
     | Some v \<Rightarrow> v = Some n \<and> s3_inv {n} p' \<and> recentInsert p \<noteq> Some n)"
proof -
  have "s3_inv {} (s3_setNode n (freq_update (\<lambda>f. f + NOT 0)) p)" if "1 \<le> s3_freqOf n p"
  proof (rule s3_inv_freq[OF assms(1)])
    fix d
    assume d: "s3_node p n = Some d"
    then have "freq d \<le> s3FreqMax" using assms(1) by (auto simp: s3_inv_defs)
    then show "freq d + NOT 0 \<le> s3FreqMax"
      using s3_freq_drop(2)[of "freq d"] that d by (simp add: s3_freqOf_def)
  qed
  then show ?thesis
    using assms
    by (auto simp: s3_mainIter_def Let_def s3_inv_requeue_main s3_inv_pull_main split: if_splits)
qed

lemma s3_iter_inv:
  assumes "s3_inv {} p" and "s3_iter p = (r, p')"
  shows "s3_frame p p' \<and>
    (case r of
       None \<Rightarrow> s3_inv {} p'
     | Some None \<Rightarrow> p' = p \<and> qsize (s3_small p) \<le> smallBudget p \<and> qsize (s3_main p) \<le> mainBudget p
     | Some (Some n) \<Rightarrow> n \<in> s3_tracked p \<and> s3_inv {n} p' \<and> recentInsert p \<noteq> Some n)"
proof -
  have sub: "q_set (s3_small p) \<union> q_set (s3_main p) = s3_tracked p"
    using assms(1) by (simp add: s3_inv_defs)
  have empty: "q_head (s3_small p) = None \<Longrightarrow> qsize (s3_small p) \<le> smallBudget p"
    "q_head (s3_main p) = None \<Longrightarrow> qsize (s3_main p) \<le> mainBudget p"
    using assms(1) by (simp_all add: s3_inv_defs q_head_None q_size_card)
  consider (small) n where "q_head (s3_small p) = Some n" "s3_smallIter n p = (r, p')"
    | (main) n where "q_head (s3_main p) = Some n" "s3_mainIter n p = (r, p')"
    | (none) "r = Some None" "p' = p" "qsize (s3_small p) \<le> smallBudget p"
        "qsize (s3_main p) \<le> mainBudget p"
    using assms(2) empty by (auto simp: s3_iter_def not_less split: if_splits)
  then show ?thesis
  proof cases
    case small
    then show ?thesis
      using s3_smallIter_inv[OF assms(1) q_head_in_set[OF small(1)] small(2)] sub
        q_head_in_set[OF small(1)]
      by (auto split: option.splits)
  next
    case main
    then show ?thesis
      using s3_mainIter_inv[OF assms(1) q_head_in_set[OF main(1)] main(2)] sub
        q_head_in_set[OF main(1)]
      by (auto split: option.splits)
  next
    case none
    then show ?thesis by simp
  qed
qed

lemma s3_iter_continues:
  assumes "s3_inv {} p" and "fst (s3_iter p) = None"
  shows "s3_inv {} (snd (s3_iter p))" and "s3_frame p (snd (s3_iter p))"
  using s3_iter_inv[OF assms(1), of None "snd (s3_iter p)"] assms(2)
  by (metis option.simps(4) prod.collapse)+

lemma s3_loop_inv:
  assumes "s3_inv {} p" and "s3_loop i p = (r, p')"
  shows "s3_frame p p' \<and>
    (case r of
       None \<Rightarrow> s3_inv {} p'
     | Some None \<Rightarrow> s3_inv {} p' \<and> qsize (s3_small p') \<le> smallBudget p \<and>
                    qsize (s3_main p') \<le> mainBudget p
     | Some (Some n) \<Rightarrow> n \<in> s3_tracked p \<and> s3_inv {n} p' \<and> recentInsert p \<noteq> Some n)"
  using assms
proof (induction i arbitrary: p)
  case (Suc i)
  obtain r1 p1 where it: "s3_iter p = (r1, p1)" by force
  note one = s3_iter_inv[OF Suc.prems(1) it]
  show ?case
  proof (cases r1)
    case None
    then show ?thesis
      using Suc.IH[of p1] Suc.prems it one
      by (auto simp: s3_frame_def split: option.splits)
  next
    case (Some v)
    then show ?thesis
      using Suc.prems it one by (auto split: option.splits)
  qed
qed simp

section \<open>Victim and shed\<close>

lemma firstSmallNotRecent_Some:
  "firstSmallNotRecent p = Some n \<Longrightarrow> n \<in> q_set (s3_small p) \<and> recentInsert p \<noteq> Some n"
  by (auto simp: firstSmallNotRecent_def q_set_def dest!: find_Some_set)

lemma firstMainNotRecent_Some:
  "firstMainNotRecent p = Some n \<Longrightarrow> n \<in> q_set (s3_main p) \<and> recentInsert p \<noteq> Some n"
  by (auto simp: firstMainNotRecent_def q_set_def dest!: find_Some_set)

lemma firstNotRecent_None:
  "firstSmallNotRecent p = None \<longleftrightarrow> (\<forall>n \<in> q_set (s3_small p). recentInsert p = Some n)"
  "firstMainNotRecent p = None \<longleftrightarrow> (\<forall>n \<in> q_set (s3_main p). recentInsert p = Some n)"
  by (auto simp: firstSmallNotRecent_def firstMainNotRecent_def q_set_def find_None_iff_all)

lemma s3_linked_tracked: "s3_inv {} p \<Longrightarrow> s3_tracked p = q_set (s3_small p) \<union> q_set (s3_main p)"
  by (simp add: s3_inv_defs)

definition s3_pull_spec :: "'k s3fifo \<Rightarrow> 'k option \<times> 'k s3fifo \<Rightarrow> bool" where
  "s3_pull_spec p res \<longleftrightarrow> s3_frame p (snd res) \<and>
    (case fst res of
       None \<Rightarrow> snd res = p \<and> (\<forall>n \<in> s3_tracked p. recentInsert p = Some n)
     | Some n \<Rightarrow> n \<in> s3_tracked p \<and> s3_inv {n} (snd res) \<and> recentInsert p \<noteq> Some n)"

lemma s3_oldest_inv:
  assumes "s3_inv {} p"
  shows "s3_pull_spec p (s3_oldestNotRecent p)"
  using assms s3_linked_tracked[OF assms]
  by (auto simp: s3_pull_spec_def s3_oldestNotRecent_def firstNotRecent_None s3_inv_pull_small
      s3_inv_pull_main dest: firstSmallNotRecent_Some firstMainNotRecent_Some split: option.split)

lemma s3_fallback_inv:
  assumes "s3_inv {} p"
  shows "s3_pull_spec p (s3_fallback p)"
proof -
  have "s3_pull_spec p (Some n, s3_unlinkMain n p)" if "firstMainNotRecent p = Some n" for n
    using assms firstMainNotRecent_Some[OF that] s3_linked_tracked[OF assms]
    by (simp add: s3_pull_spec_def s3_inv_pull_main)
  then show ?thesis
    using s3_oldest_inv[OF assms] by (simp add: s3_fallback_def split: option.split)
qed

lemma s3_victim_inv:
  assumes "s3_inv {} p" and "s3_victim p = (r, p')"
  shows "s3_frame p p' \<and>
    (case r of
       None \<Rightarrow> s3_inv {} p' \<and> ((\<forall>n \<in> s3_tracked p. recentInsert p = Some n) \<or>
                 qsize (s3_small p') \<le> smallBudget p \<and> qsize (s3_main p') \<le> mainBudget p)
     | Some n \<Rightarrow> n \<in> s3_tracked p \<and> s3_inv {n} p' \<and> recentInsert p \<noteq> Some n)"
proof -
  obtain r1 p1 where l: "s3_loop (nat (s3_maxRotations p)) p = (r1, p1)" by force
  note one = s3_loop_inv[OF assms(1) l]
  show ?thesis
  proof (cases r1)
    case None
    then have "s3_fallback p1 = (r, p')" and "s3_inv {} p1"
      using assms(2) l one by (simp_all add: s3_victim_def)
    then show ?thesis
      using one s3_fallback_inv[of p1]
      by (auto simp: s3_pull_spec_def s3_frame_def split: option.splits)
  next
    case (Some v)
    then show ?thesis
      using assms(2) l one by (auto simp: s3_victim_def split: option.splits)
  qed
qed

lemma s3_shed_inv:
  assumes "s3_inv {} p" and "s3_shed keep p = (r, p')"
  shows "s3_frame p p' \<and>
    (case r of
       None \<Rightarrow> p' = p \<and> (if keep then \<forall>n \<in> s3_tracked p. recentInsert p = Some n
                          else s3_tracked p = {})
     | Some n \<Rightarrow> n \<in> s3_tracked p \<and> s3_inv {n} p' \<and> (keep \<longrightarrow> recentInsert p \<noteq> Some n))"
proof -
  obtain r1 p1 where o: "s3_oldestNotRecent p = (r1, p1)" by force
  note old = s3_oldest_inv[OF assms(1), unfolded o s3_pull_spec_def, simplified]
  show ?thesis
  proof (cases "r1 = None \<and> \<not> keep \<and> recentInsert p \<noteq> None")
    case False
    then show ?thesis
      using assms(2) o old by (auto simp: s3_shed_def split: option.splits if_splits)
  next
    case True
    then obtain k where k: "recentInsert p = Some k" by auto
    then have kt: "k \<in> s3_tracked p"
      using assms(1) by (auto simp: s3_inv_defs)
    then obtain d where "s3_node p k = Some d"
      by (auto simp: s3_tracked_def s3_keys_def)
    then have "k \<in> q_set (s3_main p) \<and> inMain d \<or> k \<in> q_set (s3_small p) \<and> \<not> inMain d"
      using assms(1) kt by (auto simp: s3_inv_defs)
    then show ?thesis
      using assms True k kt o \<open>s3_node p k = Some d\<close>
      by (auto simp: s3_shed_def s3_inv_pull_small s3_inv_pull_main split: if_splits option.splits)
  qed
qed

section \<open>The policy contract\<close>

lemma s3_len_card:
  assumes "s3_ok p"
  shows "s3_len p = int (card (s3_tracked p))"
proof -
  have "q_inv (s3_small p)" "q_inv (s3_main p)" "q_set (s3_small p) \<inter> q_set (s3_main p) = {}"
    using assms by (simp_all add: s3_ok_def s3_inv_defs)
  then show ?thesis
    using s3_linked_tracked[of p] assms
    by (simp add: s3_len_def q_size_card card_Un_disjoint s3_ok_def)
qed

definition s3_budget :: "'k s3fifo \<Rightarrow> int" where
  "s3_budget p = smallBudget p + mainBudget p"

lemma s3_victim_live:
  assumes "s3_ok p" and "0 < s3_budget p" and "s3_budget p < s3_len p"
  shows "\<exists>k. fst (s3_victim p) = Some k"
proof (rule ccontr)
  assume "\<not> ?thesis"
  then obtain p' where v: "s3_victim p = (None, p')"
    by (metis option.exhaust prod.collapse)
  have inv: "s3_inv {} p" using assms(1) by (simp add: s3_ok_def)
  note none = s3_victim_inv[OF inv v]
  have len': "s3_len p' = s3_len p"
    using none assms(1) s3_len_card[of p] s3_len_card[of p'] by (simp add: s3_ok_def s3_frame_def)
  have "\<forall>n \<in> s3_tracked p. recentInsert p = Some n"
    using none len' assms(3) by (auto simp: s3_budget_def s3_len_def)
  then have "s3_tracked p \<subseteq> set_option (recentInsert p)" by auto
  then have "card (s3_tracked p) \<le> 1"
    using card_mono[of "set_option (recentInsert p)"] by (cases "recentInsert p") auto
  then show False
    using assms s3_len_card[of p] by simp
qed

interpretation s3: budgeted_policy s3_tracked s3_ok s3_onInsert s3_onAccess s3_onUpdate
  s3_onRemove s3_victim s3_len s3_budget
proof
  fix p :: "'a s3fifo" and p' k
  assume ok: "s3_ok p"
  then have inv: "s3_inv {} p" by (simp add: s3_ok_def)
  show "finite (s3_tracked p)" using inv by (simp add: s3_linked_tracked)
  show "s3_len p = int (card (s3_tracked p))" using ok by (rule s3_len_card)
  show "s3_ok (s3_onAccess k p)" "s3_ok (s3_onUpdate k p)" "s3_ok (s3_onRemove k p)"
    using s3_onAccess_inv[OF inv] s3_onRemove_inv[OF inv, of k]
    by (simp_all add: s3_ok_def s3_onUpdate_def)
  show "k \<in> s3_tracked p" "s3_ok (s3_onRemove k p')" "s3_tracked (s3_onRemove k p') = s3_tracked p - {k}"
    if "s3_victim p = (Some k, p')"
    using s3_victim_inv[OF inv that] s3_onRemove_inv[of "{k}" p' k]
    by (simp_all add: s3_ok_def s3_onRemove_tracked s3_frame_def)
  show "s3_ok p' \<and> s3_tracked p' = s3_tracked p" if "s3_victim p = (None, p')"
    using s3_victim_inv[OF inv that] by (simp add: s3_ok_def s3_frame_def)
qed (simp_all add: s3_onInsert_ok s3_onInsert_tracked s3_onAccess_tracked s3_onUpdate_def
    s3_onRemove_tracked s3_victim_live)

section \<open>The rotation bound is enough\<close>

definition s3_returns :: "nat \<Rightarrow> 'k s3fifo \<Rightarrow> bool" where
  "s3_returns i p \<longleftrightarrow> fst (s3_loop i p) \<noteq> None"

lemma s3_returns_Suc:
  "s3_returns (Suc i) p \<longleftrightarrow> fst (s3_iter p) \<noteq> None \<or> s3_returns i (snd (s3_iter p))"
  by (simp add: s3_returns_def split: prod.split option.split)

lemma s3_iter_main:
  assumes "qsize (s3_small p) \<le> smallBudget p" and "qitems (s3_main p) = h # hs"
    and "qsize (s3_main p) > mainBudget p"
  shows "s3_iter p = s3_mainIter h p"
  using assms by (simp add: s3_iter_def q_head_def)

lemma s3_iter_small:
  assumes "qsize (s3_small p) > smallBudget p" and "qitems (s3_small p) = h # hs"
  shows "s3_iter p = s3_smallIter h p"
  using assms by (simp add: s3_iter_def q_head_def)

lemma s3_iter_within:
  "qsize (s3_small p) \<le> smallBudget p \<Longrightarrow> qsize (s3_main p) \<le> mainBudget p \<Longrightarrow>
   s3_iter p = (Some None, p)"
  by (simp add: s3_iter_def)

lemma s3_mainIter_continues:
  assumes "fst (s3_mainIter h p) = None" and "qitems (s3_main p) = h # hs"
  shows "s3_small (snd (s3_mainIter h p)) = s3_small p"
    and "qitems (s3_main (snd (s3_mainIter h p))) = hs @ [h]"
    and "s3_freqOf k (snd (s3_mainIter h p)) =
      (if k = h \<and> recentInsert p \<noteq> Some h then s3_freqOf h p + NOT 0 else s3_freqOf k p)"
    and "recentInsert p \<noteq> Some h \<Longrightarrow> 1 \<le> s3_freqOf h p"
  using assms
  by (auto simp: s3_mainIter_def Let_def s3_freqOf_def split: if_splits option.split)

text \<open>Main alone: a node that is not the recent one is reached after its position plus one
  full turn for each point of its counter.\<close>

lemma s3_main_returns:
  assumes "s3_inv {} p" and "qsize (s3_small p) \<le> smallBudget p"
    and "qitems (s3_main p) = as @ n # bs" and "recentInsert p \<noteq> Some n"
    and "length as + unat (s3_freqOf n p) * length (qitems (s3_main p)) < i"
  shows "s3_returns i p"
  using assms
proof (induction i arbitrary: p as bs)
  case (Suc i)
  show ?case
  proof (cases "fst (s3_iter p) = None")
    case True
    then have over: "qsize (s3_main p) > mainBudget p"
      using Suc.prems(2) s3_iter_within[of p] by (metis fst_conv not_less option.distinct(1))
    obtain h hs where h: "qitems (s3_main p) = h # hs"
      using Suc.prems(3) by (cases as) auto
    let ?p = "snd (s3_iter p)"
    have it: "s3_iter p = s3_mainIter h p"
      using Suc.prems(2) h over by (rule s3_iter_main)
    note step = s3_mainIter_continues[OF True[unfolded it] h, folded it]
    have inv: "s3_inv {} ?p" "recentInsert ?p = recentInsert p" "smallBudget ?p = smallBudget p"
      using s3_iter_continues[OF Suc.prems(1) True] by (simp_all add: s3_frame_def)
    have dist: "distinct (qitems (s3_main p))"
      using Suc.prems(1) by (simp add: s3_inv_defs q_inv_def)
    have small: "qsize (s3_small ?p) \<le> smallBudget ?p"
      using Suc.prems(2) inv(3) step(1) by simp
    have "s3_returns i ?p"
    proof (cases as)
      case Nil
      then have hn: "h = n" "hs = bs" using h Suc.prems(3) by auto
      have "unat (s3_freqOf n ?p) = unat (s3_freqOf n p) - 1" and "0 < unat (s3_freqOf n p)"
        using step(3,4) hn Suc.prems(4) s3_freq_drop(1) by (auto simp: word_le_nat_alt)
      then have "length bs + unat (s3_freqOf n ?p) * length (qitems (s3_main ?p)) < i"
        using Suc.prems(3,5) Nil step(2) hn by (cases "unat (s3_freqOf n p)") auto
      then show ?thesis
        using Suc.IH[of ?p bs "[]"] inv small step(2) hn Suc.prems(4) by simp
    next
      case (Cons a as')
      then have "h = a" "hs = as' @ n # bs" "n \<noteq> h" using h Suc.prems(3) dist by auto
      then show ?thesis
        using Suc.IH[of ?p as' "bs @ [h]"] inv small step(2) step(3)[of n] Suc.prems(3,4,5) Cons
        by simp
    qed
    then show ?thesis by (simp add: s3_returns_Suc)
  qed (simp add: s3_returns_Suc)
qed simp

lemma s3_smallIter_continues:
  assumes "fst (s3_smallIter h p) = None" and "qitems (s3_small p) = h # hs"
  shows "recentInsert p = Some h \<Longrightarrow> qitems (s3_small (snd (s3_smallIter h p))) = hs @ [h] \<and>
      s3_main (snd (s3_smallIter h p)) = s3_main p"
    and "recentInsert p \<noteq> Some h \<Longrightarrow> qitems (s3_small (snd (s3_smallIter h p))) = hs \<and>
      qitems (s3_main (snd (s3_smallIter h p))) = qitems (s3_main p) @ [h]"
    and "s3_freqOf k (snd (s3_smallIter h p)) =
      (if k = h \<and> recentInsert p \<noteq> Some h then 0 else s3_freqOf k p)"
  using assms
  by (auto simp: s3_smallIter_def Let_def s3_freqOf_def split: if_splits option.split)

definition s3_recentHead :: "'k s3fifo \<Rightarrow> nat" where
  "s3_recentHead p = (if q_head (s3_small p) \<noteq> None \<and> q_head (s3_small p) = recentInsert p then 1 else 0)"

lemma s3_recentHead_le: "s3_recentHead p \<le> 1"
  by (simp add: s3_recentHead_def)

text \<open>What an iteration on Small that continues leaves behind: either the recent node went
  from the head to the tail, or a node was promoted with a zero counter.\<close>

lemma s3_iter_small_continues:
  assumes "s3_inv {} p" and "smallBudget p < qsize (s3_small p)" and "0 < smallBudget p"
    and "fst (s3_iter p) = None"
  obtains h hs where "qitems (s3_small p) = h # hs"
    and "s3_inv {} (snd (s3_iter p))" and "s3_frame p (snd (s3_iter p))"
    and "recentInsert p = Some h \<and> s3_recentHead p = 1 \<and> s3_recentHead (snd (s3_iter p)) = 0 \<and>
           qitems (s3_small (snd (s3_iter p))) = hs @ [h] \<and> s3_main (snd (s3_iter p)) = s3_main p \<and>
           (\<forall>k. s3_freqOf k (snd (s3_iter p)) = s3_freqOf k p)
         \<or> recentInsert p \<noteq> Some h \<and> qitems (s3_small (snd (s3_iter p))) = hs \<and>
           qitems (s3_main (snd (s3_iter p))) = qitems (s3_main p) @ [h] \<and>
           s3_freqOf h (snd (s3_iter p)) = 0 \<and>
           (\<forall>k. k \<noteq> h \<longrightarrow> s3_freqOf k (snd (s3_iter p)) = s3_freqOf k p)"
proof -
  have q: "q_inv (s3_small p)" using assms(1) by (simp add: s3_inv_defs)
  then obtain h1 h2 hs where h: "qitems (s3_small p) = h1 # h2 # hs"
    using assms(2,3)
    by (cases "qitems (s3_small p)"; cases "tl (qitems (s3_small p))") (auto simp: q_inv_def)
  have it: "s3_iter p = s3_smallIter h1 p"
    using assms(2) h by (rule s3_iter_small)
  note step = s3_smallIter_continues[OF assms(4)[unfolded it] h, folded it]
  have inv: "s3_inv {} (snd (s3_iter p))" "s3_frame p (snd (s3_iter p))"
    using s3_iter_continues[OF assms(1,4)] by simp_all
  show ?thesis
  proof (rule that[OF h inv])
    show "recentInsert p = Some h1 \<and> s3_recentHead p = 1 \<and> s3_recentHead (snd (s3_iter p)) = 0 \<and>
           qitems (s3_small (snd (s3_iter p))) = (h2 # hs) @ [h1] \<and>
           s3_main (snd (s3_iter p)) = s3_main p \<and>
           (\<forall>k. s3_freqOf k (snd (s3_iter p)) = s3_freqOf k p)
         \<or> recentInsert p \<noteq> Some h1 \<and> qitems (s3_small (snd (s3_iter p))) = h2 # hs \<and>
           qitems (s3_main (snd (s3_iter p))) = qitems (s3_main p) @ [h1] \<and>
           s3_freqOf h1 (snd (s3_iter p)) = 0 \<and>
           (\<forall>k. k \<noteq> h1 \<longrightarrow> s3_freqOf k (snd (s3_iter p)) = s3_freqOf k p)"
      using step inv(2) q h
      by (cases "recentInsert p = Some h1") (auto simp: s3_recentHead_def s3_frame_def q_head_def q_inv_def)
  qed
qed

text \<open>Once some node of Main has a zero counter, the rest is short.\<close>

lemma s3_small_returns:
  assumes "s3_inv {} p" and "0 < smallBudget p"
    and "n \<in> q_set (s3_main p)" and "recentInsert p \<noteq> Some n" and "s3_freqOf n p = 0"
    and "3 * length (qitems (s3_small p)) + s3_recentHead p + length (qitems (s3_main p)) < i"
  shows "s3_returns i p"
  using assms
proof (induction i arbitrary: p)
  case (Suc i)
  consider (within) "qsize (s3_small p) \<le> smallBudget p" | (stop) "fst (s3_iter p) \<noteq> None"
    | (over) "smallBudget p < qsize (s3_small p)" "fst (s3_iter p) = None"
    by linarith
  then show ?case
  proof cases
    case within
    obtain as bs where "qitems (s3_main p) = as @ n # bs"
      using Suc.prems(3) by (auto simp: q_set_def dest: split_list)
    then show ?thesis
      using s3_main_returns[OF Suc.prems(1) within, of as n bs] Suc.prems by auto
  next
    case stop
    then show ?thesis by (simp add: s3_returns_Suc)
  next
    case over
    from s3_iter_small_continues[OF Suc.prems(1) over(1) Suc.prems(2) over(2)]
    obtain h hs where h: "qitems (s3_small p) = h # hs" "s3_inv {} (snd (s3_iter p))"
      "s3_frame p (snd (s3_iter p))"
      and st: "recentInsert p = Some h \<and> s3_recentHead p = 1 \<and> s3_recentHead (snd (s3_iter p)) = 0 \<and>
           qitems (s3_small (snd (s3_iter p))) = hs @ [h] \<and> s3_main (snd (s3_iter p)) = s3_main p \<and>
           (\<forall>k. s3_freqOf k (snd (s3_iter p)) = s3_freqOf k p)
         \<or> recentInsert p \<noteq> Some h \<and> qitems (s3_small (snd (s3_iter p))) = hs \<and>
           qitems (s3_main (snd (s3_iter p))) = qitems (s3_main p) @ [h] \<and>
           s3_freqOf h (snd (s3_iter p)) = 0 \<and>
           (\<forall>k. k \<noteq> h \<longrightarrow> s3_freqOf k (snd (s3_iter p)) = s3_freqOf k p)"
      by blast
    have "n \<noteq> h"
      using Suc.prems(1,3) h(1) by (auto simp: s3_inv_defs q_set_def)
    then have "s3_returns i (snd (s3_iter p))"
      using st h Suc.prems s3_recentHead_le[of "snd (s3_iter p)"]
      by (intro Suc.IH) (auto simp: s3_frame_def q_set_def)
    then show ?thesis by (simp add: s3_returns_Suc)
  qed
qed simp

lemma s3_over_small_returns:
  assumes "s3_inv {} p" and "0 < smallBudget p" and "smallBudget p < qsize (s3_small p)"
    and "3 * length (qitems (s3_small p)) + s3_recentHead p + length (qitems (s3_main p)) < i"
  shows "s3_returns i p"
  using assms
proof (induction i arbitrary: p)
  case (Suc i)
  show ?case
  proof (cases "fst (s3_iter p) = None")
    case True
    obtain h hs where h: "qitems (s3_small p) = h # hs" "s3_inv {} (snd (s3_iter p))"
      "s3_frame p (snd (s3_iter p))"
      and st: "recentInsert p = Some h \<and> s3_recentHead p = 1 \<and> s3_recentHead (snd (s3_iter p)) = 0 \<and>
           qitems (s3_small (snd (s3_iter p))) = hs @ [h] \<and> s3_main (snd (s3_iter p)) = s3_main p \<and>
           (\<forall>k. s3_freqOf k (snd (s3_iter p)) = s3_freqOf k p)
         \<or> recentInsert p \<noteq> Some h \<and> qitems (s3_small (snd (s3_iter p))) = hs \<and>
           qitems (s3_main (snd (s3_iter p))) = qitems (s3_main p) @ [h] \<and>
           s3_freqOf h (snd (s3_iter p)) = 0 \<and>
           (\<forall>k. k \<noteq> h \<longrightarrow> s3_freqOf k (snd (s3_iter p)) = s3_freqOf k p)"
      using s3_iter_small_continues[OF Suc.prems(1,3,2) True] by blast
    have sz: "q_inv (s3_small p)" "q_inv (s3_small (snd (s3_iter p)))"
      using Suc.prems(1) h(2) by (simp_all add: s3_inv_defs)
    have "s3_returns i (snd (s3_iter p))"
    proof (cases "recentInsert p = Some h")
      case True
      then show ?thesis
        using st h Suc.prems sz by (intro Suc.IH) (auto simp: s3_frame_def q_inv_def)
    next
      case False
      then show ?thesis
        using st h Suc.prems s3_recentHead_le[of "snd (s3_iter p)"]
        by (intro s3_small_returns[of _ h]) (auto simp: s3_frame_def q_set_def)
    qed
    then show ?thesis by (simp add: s3_returns_Suc)
  qed (simp add: s3_returns_Suc)
qed simp

lemma s3_over_main_returns:
  assumes "s3_inv {} p" and "0 < mainBudget p" and "qsize (s3_small p) \<le> smallBudget p"
    and "4 * length (qitems (s3_main p)) \<le> i" and "0 < i"
  shows "s3_returns i p"
proof (cases "qsize (s3_main p) \<le> mainBudget p")
  case True
  then show ?thesis
    using assms(3,5) s3_iter_within[of p] by (cases i) (simp_all add: s3_returns_Suc)
next
  case False
  have q: "q_inv (s3_main p)" using assms(1) by (simp add: s3_inv_defs)
  then obtain h1 h2 hs where h: "qitems (s3_main p) = h1 # h2 # hs"
    using assms(2) False
    by (cases "qitems (s3_main p)"; cases "tl (qitems (s3_main p))") (auto simp: q_inv_def)
  have "unat (s3_freqOf n p) \<le> 3" for n
    using assms(1) by (auto simp: s3_freqOf_def s3_inv_defs s3FreqMax_def word_le_nat_alt split: option.split)
  then have turns: "unat (s3_freqOf n p) * length (qitems (s3_main p)) \<le> 3 * length (qitems (s3_main p))" for n
    by (rule mult_le_mono1)
  show ?thesis
  proof (cases "recentInsert p = Some h1")
    case True
    then have "recentInsert p \<noteq> Some h2" using q h by (auto simp: q_inv_def)
    then show ?thesis
      using s3_main_returns[OF assms(1,3), of "[h1]" h2 hs i] turns[of h2] h assms(4) by simp
  next
    case False
    then show ?thesis
      using s3_main_returns[OF assms(1,3), of "[]" h1 "h2 # hs" i] turns[of h1] h assms(4) by simp
  qed
qed


lemma s3_budgets_of [simp]:
  "smallBudget (s3_onInsert k p) = smallBudget p" "mainBudget (s3_onInsert k p) = mainBudget p"
  "smallBudget (newS3FIFO b) = fst (s3SplitBudget b)" "mainBudget (newS3FIFO b) = snd (s3SplitBudget b)"
  by (simp_all add: s3_onInsert_def Let_def newS3FIFO_def split: prod.split)


section \<open>Runs of the policy\<close>

text \<open>The calls a shard makes: an eviction is \<open>Victim\<close> followed by \<open>OnRemove\<close> of the entry it
  names; \<open>S3Shed\<close> is the same with \<open>shed\<close>.\<close>

datatype 'k s3op =
  S3Insert 'k | S3Access 'k | S3Update 'k | S3Remove 'k | S3Evict | S3Shed bool | S3SetBudget int
  | S3Reset

definition s3_finish :: "'k option \<times> 'k s3fifo \<Rightarrow> 'k s3fifo" where
  "s3_finish res = (case res of (None, p) \<Rightarrow> p | (Some k, p) \<Rightarrow> s3_onRemove k p)"

fun s3_step :: "'k s3op \<Rightarrow> 'k s3fifo \<Rightarrow> 'k s3fifo" where
  "s3_step (S3Insert k) p = (if k \<in> s3_tracked p then s3_onUpdate k p else s3_onInsert k p)"
| "s3_step (S3Access k) p = s3_onAccess k p"
| "s3_step (S3Update k) p = s3_onUpdate k p"
| "s3_step (S3Remove k) p = s3_onRemove k p"
| "s3_step S3Evict p = s3_finish (s3_victim p)"
| "s3_step (S3Shed keep) p = s3_finish (s3_shed keep p)"
| "s3_step (S3SetBudget b) p = s3_setBudget b p"
| "s3_step S3Reset p = s3_reset p"

lemma s3_finish_ok:
  assumes "fst res = None \<Longrightarrow> s3_inv {} (snd res)"
    and "\<And>k. fst res = Some k \<Longrightarrow> s3_inv {k} (snd res)"
  shows "s3_ok (s3_finish res)"
  using assms s3_onRemove_inv[of "{k}" "snd res" k for k]
  by (cases "fst res") (auto simp: s3_finish_def s3_ok_def split: prod.splits)

lemma s3_reset_ok:
  assumes "s3_ok p"
  shows "s3_ok (s3_reset p)" and "s3_tracked (s3_reset p) = {}"
proof -
  let ?L = "q_set (s3_small p) \<union> q_set (s3_main p)"
  have "s3_keys (s3_node p) = ?L"
    using assms by (simp add: s3_ok_def s3_inv_defs)
  then show t: "s3_tracked (s3_reset p) = {}"
    by (auto simp: s3_reset_def s3_tracked_def s3_keys_def split: if_splits)
  have "s3_node (s3_reset p) k = Some n \<Longrightarrow> freq n \<le> s3FreqMax" for k n
    using assms by (auto simp: s3_reset_def s3_ok_def s3_inv_defs split: if_splits)
  moreover have "s3_small (s3_reset p) = q_empty" "s3_main (s3_reset p) = q_empty"
    "s3_ghost (s3_reset p) = q_empty" "ghostSet (s3_reset p) = {}" "recentInsert (s3_reset p) = None"
    "smallBudget (s3_reset p) = smallBudget p" "mainBudget (s3_reset p) = mainBudget p"
    "ghostBudget (s3_reset p) = ghostBudget p"
    by (simp_all add: s3_reset_def)
  ultimately show "s3_ok (s3_reset p)"
    using t assms
    by (simp add: s3_ok_def s3_inv_def s3_live_def s3_linked_def s3_ghosts_def s3_budgets_def)
qed

lemma s3_step_ok:
  assumes "s3_ok p"
  shows "s3_ok (s3_step op p)"
proof -
  have inv: "s3_inv {} p" using assms by (simp add: s3_ok_def)
  show ?thesis
  proof (cases op)
    case S3Evict
    then show ?thesis
      using s3_victim_inv[OF inv prod.collapse[symmetric]] by (auto intro!: s3_finish_ok)
  next
    case (S3Shed keep)
    then show ?thesis
      using s3_shed_inv[OF inv prod.collapse[symmetric], of keep] inv
      by (auto intro!: s3_finish_ok)
  next
    case (S3SetBudget b)
    then show ?thesis using s3_setBudget_inv[OF inv] by (simp add: s3_ok_def)
  qed (simp_all add: assms s3.ok_insert s3.ok_access s3.ok_update s3.ok_remove s3_reset_ok)
qed

lemma s3_run_ok: "s3_ok p \<Longrightarrow> s3_ok (fold s3_step ops p)"
  by (induction ops arbitrary: p) (simp_all add: s3_step_ok)

definition s3_shape :: "'k s3fifo \<Rightarrow> bool" where
  "s3_shape p \<longleftrightarrow>
    qsize (s3_small p) = int (length (qitems (s3_small p))) \<and>
    qsize (s3_main p) = int (length (qitems (s3_main p))) \<and>
    distinct (qitems (s3_small p) @ qitems (s3_main p) @ qitems (s3_ghost p)) \<and>
    s3_tracked p = set (qitems (s3_small p)) \<union> set (qitems (s3_main p)) \<and>
    list_all (\<lambda>k. \<exists>n. s3_node p k = Some n \<and> freq n \<le> 3 \<and> \<not> inMain n) (qitems (s3_small p)) \<and>
    list_all (\<lambda>k. \<exists>n. s3_node p k = Some n \<and> freq n \<le> 3 \<and> inMain n) (qitems (s3_main p)) \<and>
    ghostSet p = set (qitems (s3_ghost p)) \<and> int (length (qitems (s3_ghost p))) \<le> mainBudget p"

lemma s3_ok_shape:
  assumes "s3_ok p"
  shows "s3_shape p"
proof -
  have inv: "s3_live {} p" "s3_ghosts p" "s3_budgets p"
    using assms by (simp_all add: s3_ok_def s3_inv_def)
  have node: "\<exists>n. s3_node p k = Some n \<and> freq n \<le> 3"
    if "k \<in> set (qitems (s3_small p)) \<union> set (qitems (s3_main p))" for k
  proof -
    have "k \<in> s3_keys (s3_node p)" using inv(1) that by (simp add: s3_live_defs q_set_def)
    then show ?thesis using inv(1) by (auto simp: s3_keys_def s3_live_defs s3FreqMax_def)
  qed
  have main: "list_all (\<lambda>k. \<exists>n. s3_node p k = Some n \<and> freq n \<le> 3 \<and> inMain n) (qitems (s3_main p))"
    using inv(1) node by (fastforce simp: list_all_iff s3_live_defs q_set_def)
  have small: "list_all (\<lambda>k. \<exists>n. s3_node p k = Some n \<and> freq n \<le> 3 \<and> \<not> inMain n) (qitems (s3_small p))"
    using inv(1) node by (fastforce simp: list_all_iff s3_live_defs q_set_def)
  show ?thesis
    using inv main small
    by (auto simp: s3_shape_def s3_live_defs s3_ghosts_def s3_budgets_def q_inv_def q_set_def)
qed


text \<open>C2: S3-FIFO's \<open>Victim\<close> on a policy over its budget. If the policy holds more entries than
  the positive sum of its sub-budgets, \<open>Victim\<close> returns an entry; it is a tracked one, it is not
  the entry inserted last, and completing the eviction with \<open>OnRemove\<close> leaves a well-formed
  policy that tracks exactly the other entries.\<close>

theorem s3_victim_over_budget:
  assumes "s3_ok p" and "0 < s3_budget p" and "s3_budget p < s3_len p"
  shows "\<exists>k p'. s3_victim p = (Some k, p') \<and> k \<in> s3_tracked p \<and> recentInsert p \<noteq> Some k \<and>
     s3_ok (s3_onRemove k p') \<and> s3_tracked (s3_onRemove k p') = s3_tracked p - {k} \<and>
     s3_len (s3_onRemove k p') = s3_len p - 1"
proof -
  obtain k p' where v: "s3_victim p = (Some k, p')"
    using s3.victim_over_budget[OF assms] by (metis prod.collapse)
  moreover have "recentInsert p \<noteq> Some k"
    using s3_victim_inv[OF _ v] assms(1) by (simp add: s3_ok_def)
  ultimately show ?thesis
    using s3.victim_tracked[OF assms(1) v] s3.victim_ok[OF assms(1) v]
      s3.victim_evicts[OF assms(1) v] s3.evict_shrinks[OF assms(1) v] by blast
qed

theorem s3_victim_over_budget_witness:
  "\<exists>k p'. s3_victim (s3_onInsert (2::nat) (s3_onInsert 1 (newS3FIFO 1))) = (Some k, p') \<and> k \<noteq> 2"
proof -
  let ?p = "s3_onInsert (2::nat) (s3_onInsert 1 (newS3FIFO 1))"
  have "s3_ok ?p"
    by (intro s3.ok_insert s3_new_ok) (simp_all add: s3_onInsert_tracked s3_new_ok)
  moreover have "s3_len ?p = 2" "s3_budget ?p = 1" "recentInsert ?p = Some 2"
    by (simp_all add: s3_len_def s3_budget_def s3_onInsert_def Let_def newS3FIFO_def s3SplitBudget_def)
  ultimately show ?thesis
    using s3_victim_over_budget[of ?p] by force
qed

lemma s3_trimGhost_keeps_newest:
  assumes "q_inv (s3_ghost p)" and "qitems (s3_ghost p) = gs @ [k]" and "0 < ghostBudget p"
    and "k \<in> ghostSet p"
  shows "k \<in> ghostSet (s3_trimGhost p)"
  using assms
proof (induction p arbitrary: gs rule: s3_trimGhost_cases)
  case (Next p g)
  obtain gs' where gs: "gs = g # gs'"
    using Next.hyps Next.prems
    by (cases gs) (auto simp: q_head_def q_inv_def)
  show ?case
  proof (rule Next.IH)
    show "qitems (s3_ghost (s3_unlinkGhost g p)) = gs' @ [k]" "k \<in> ghostSet (s3_unlinkGhost g p)"
      using Next.prems gs by (auto simp: q_inv_def)
  qed (use Next.prems in simp_all)
qed simp

lemma s3_recordGhost_records:
  assumes "s3_ghosts p" and "0 < ghostBudget p"
  shows "k \<in> ghostSet (s3_recordGhost k p)"
proof (cases "k \<in> ghostSet p")
  case True
  then show ?thesis by (simp add: s3_recordGhost_def)
next
  case False
  then show ?thesis
    using assms
    by (auto simp: s3_recordGhost_def s3_ghosts_def
        intro!: s3_trimGhost_keeps_newest[of _ "qitems (s3_ghost p)"])
qed

section \<open>Rebirth from the Ghost queue\<close>

text \<open>\<open>s3_remembers n p\<close>: the evicted key \<open>n\<close> either left Main or has a Ghost record.\<close>

definition s3_remembers :: "'k \<Rightarrow> 'k s3fifo \<Rightarrow> bool" where
  "s3_remembers n p \<longleftrightarrow> n \<in> ghostSet p \<or> (\<exists>d. s3_node p n = Some d \<and> inMain d)"

lemma s3_pull_main_remembers:
  assumes "s3_inv {} p" and "n \<in> q_set (s3_main p)"
  shows "s3_remembers n (s3_unlinkMain n p)"
proof -
  have "n \<in> s3_keys (s3_node p)" using assms by (simp add: s3_inv_defs)
  then show ?thesis using assms by (auto simp: s3_remembers_def s3_keys_def s3_inv_defs)
qed

lemma s3_pull_small_remembers:
  assumes "s3_inv {} p" and "0 < mainBudget p"
  shows "s3_remembers n (s3_recordGhost n (s3_unlinkSmall n p))"
proof -
  have "s3_ghosts (s3_unlinkSmall n p)" "0 < ghostBudget (s3_unlinkSmall n p)"
    using assms by (auto simp: s3_inv_defs)
  then show ?thesis by (simp add: s3_remembers_def s3_recordGhost_records)
qed

lemma s3_iter_remembers:
  assumes "s3_inv {} p" and "0 < mainBudget p" and "s3_iter p = (Some (Some n), p')"
  shows "s3_remembers n p'"
proof -
  have heads: "the (q_head (s3_main p)) \<in> q_set (s3_main p)" if "q_head (s3_main p) \<noteq> None"
    using that by (auto intro: q_head_in_set)
  show ?thesis
    using assms heads s3_pull_small_remembers[OF assms(1,2)] s3_pull_main_remembers[OF assms(1)]
    by (auto simp: s3_iter_def s3_smallIter_def s3_mainIter_def Let_def split: if_splits)
qed

lemma s3_loop_remembers:
  assumes "s3_inv {} p" and "0 < mainBudget p" and "s3_loop i p = (Some (Some n), p')"
  shows "s3_remembers n p'"
  using assms
proof (induction i arbitrary: p)
  case (Suc i)
  show ?case
  proof (cases "fst (s3_iter p) = None")
    case True
    then have "s3_loop i (snd (s3_iter p)) = (Some (Some n), p')"
      using Suc.prems(3) by (simp split: prod.splits)
    then show ?thesis
      using Suc.IH Suc.prems(2) s3_iter_continues[OF Suc.prems(1) True] by (simp add: s3_frame_def)
  next
    case False
    then show ?thesis
      using Suc.prems s3_iter_remembers by (auto split: prod.splits option.splits)
  qed
qed simp

lemma s3_fallback_remembers:
  assumes "s3_inv {} p" and "0 < mainBudget p" and "fst (s3_fallback p) = Some n"
  shows "s3_remembers n (snd (s3_fallback p))"
  using assms(3) s3_pull_small_remembers[OF assms(1,2)] s3_pull_main_remembers[OF assms(1)]
  by (auto simp: s3_fallback_def s3_oldestNotRecent_def dest: firstMainNotRecent_Some
      split: if_splits option.splits)

lemma s3_victim_remembers:
  assumes "s3_inv {} p" and "0 < mainBudget p" and "s3_victim p = (Some n, p')"
  shows "s3_remembers n p'"
proof (cases "s3_loop (nat (s3_maxRotations p)) p")
  case (Pair r q)
  then have q: "s3_inv {} q \<and> 0 < mainBudget q" if "r = None"
    using s3_loop_inv[OF assms(1) Pair] assms(2) that by (simp add: s3_frame_def)
  show ?thesis
  proof (cases r)
    case None
    then show ?thesis
      using q s3_fallback_remembers[of q n] assms(3) Pair by (simp add: s3_victim_def)
  next
    case (Some v)
    then show ?thesis
      using s3_loop_remembers[OF assms(1,2)] assms(3) Pair by (simp add: s3_victim_def)
  qed
qed

lemma s3_onRemove_ghostSet: "ghostSet (s3_onRemove k p) = ghostSet p"
  by (simp add: s3_onRemove_def Let_def split: option.split)

text \<open>C4: A key evicted from Small and inserted again is reborn in Main. When \<open>Victim\<close> takes an
  entry out of the Small queue of a policy with a positive Main budget, inserting its key again
  right after the eviction places it at the tail of Main with frequency 1 and drops its Ghost
  record.\<close>

theorem s3_ghost_rebirth:
  assumes "s3_ok p" and "0 < mainBudget p" and "s3_victim p = (Some k, p')"
    and "s3_node p' k = Some d" and "\<not> inMain d"
    and "q = s3_onInsert k (s3_onRemove k p')"
  shows "s3_node q k = Some \<lparr>freq = 1, inMain = True, hasEntry = True\<rparr> \<and>
     q_tail (s3_main q) = Some k \<and> k \<notin> ghostSet q \<and> s3_ok q"
proof -
  have g: "k \<in> ghostSet (s3_onRemove k p')"
    using s3_victim_remembers[OF _ assms(2,3)] assms(1,4,5)
    by (simp add: s3_ok_def s3_remembers_def s3_onRemove_ghostSet)
  have "s3_ok q"
    using s3.victim_ok[OF assms(1,3)] assms(6) by (simp add: s3_onInsert_ok s3_onRemove_tracked)
  then show ?thesis
    using g assms(6) by (simp add: s3_onInsert_def Let_def q_tail_def)
qed

definition s3_example :: "nat s3fifo" where
  "s3_example = s3_onInsert 2 (s3_onInsert 1 (newS3FIFO 2))"

theorem s3_ghost_rebirth_witness:
  "q_tail (s3_main (s3_onInsert 1 (s3_onRemove 1 (snd (s3_victim s3_example))))) = Some 1"
proof -
  have ok: "s3_ok s3_example"
    unfolding s3_example_def
    by (intro s3.ok_insert s3_new_ok) (simp_all add: s3_onInsert_tracked s3_new_ok)
  have it: "fst (s3_iter s3_example) = Some (Some 1)"
    and node: "\<exists>d. s3_node (snd (s3_iter s3_example)) 1 = Some d \<and> \<not> inMain d"
    by (simp_all add: s3_iter_def s3_smallIter_def s3_example_def s3_onInsert_def Let_def
        newS3FIFO_def s3SplitBudget_def q_head_def s3_freqOf_def)
  have "0 < nat (s3_maxRotations s3_example)"
    by (simp add: s3_maxRotations_def s3_example_def s3_onInsert_def Let_def newS3FIFO_def
        s3SplitBudget_def s3FreqMax_def)
  then obtain i where "nat (s3_maxRotations s3_example) = Suc i"
    using gr0_implies_Suc by blast
  then have v: "s3_victim s3_example = (Some 1, snd (s3_iter s3_example))"
    using it by (auto simp: s3_victim_def split: prod.splits)
  obtain d where "s3_node (snd (s3_iter s3_example)) 1 = Some d" "\<not> inMain d"
    using node by blast
  then show ?thesis
    using s3_ghost_rebirth[OF ok _ v _ _ refl] v by (simp add: s3_example_def s3SplitBudget_def)
qed

end
