(* ===== verification/Policy_LFU.thy ===== *)
theory Policy_LFU
  imports Policy_Interface "HOL-Library.AList"
begin

text \<open>
  The LFU policy (lfu.go): a map from access counts to lists of entries, the cached least count
  \<open>minFreq\<close>, the size and the node inserted last. The Go map of buckets is an association list
  whose order carries no meaning; iterating over it is folding over its keys. Access counts are
  natural numbers (a 64-bit counter does not wrap in practice).

  The lemmas show that \<open>minFreq\<close> never exceeds the count of a non-empty bucket, which makes the
  constant-time \<open>Victim\<close> equal to its specification: an entry with the fewest visits, passing over
  the one inserted last while there is another.
\<close>

record 'k lfu =
  lfu_buckets :: "(nat \<times> 'k list) list"
  minFreq :: nat
  lfu_size :: int
  lfu_recent :: "'k option"
  lfu_node :: "'k \<Rightarrow> nat option"

definition newLFU :: "'k lfu" where
  "newLFU = \<lparr>lfu_buckets = [], minFreq = 0, lfu_size = 0, lfu_recent = None, lfu_node = Map.empty\<rparr>"

definition lfu_bucket :: "nat \<Rightarrow> 'k lfu \<Rightarrow> 'k list" where
  "lfu_bucket f p = (case map_of (lfu_buckets p) f of None \<Rightarrow> [] | Some l \<Rightarrow> l)"

definition lfu_bucketEmpty :: "nat \<Rightarrow> 'k lfu \<Rightarrow> bool" where
  "lfu_bucketEmpty f p = (lfu_bucket f p = [])"

definition lfu_setBucket :: "nat \<Rightarrow> 'k list \<Rightarrow> 'k lfu \<Rightarrow> 'k lfu" where
  "lfu_setBucket f l p = p\<lparr>lfu_buckets := AList.update f l (lfu_buckets p)\<rparr>"

definition lfu_dropBucket :: "nat \<Rightarrow> 'k lfu \<Rightarrow> 'k lfu" where
  "lfu_dropBucket f p = p\<lparr>lfu_buckets := AList.delete f (lfu_buckets p)\<rparr>"

definition lfu_listPushTail :: "'k \<Rightarrow> nat \<Rightarrow> 'k lfu \<Rightarrow> 'k lfu" where
  "lfu_listPushTail k f p = lfu_setBucket f (lfu_bucket f p @ [k]) p"

definition lfu_listRemove :: "'k \<Rightarrow> nat \<Rightarrow> 'k lfu \<Rightarrow> 'k lfu" where
  "lfu_listRemove k f p = lfu_setBucket f (remove1 k (lfu_bucket f p)) p"

definition lfu_onInsert :: "'k \<Rightarrow> 'k lfu \<Rightarrow> 'k lfu" where
  "lfu_onInsert k p =
     (let p = p\<lparr>lfu_node := (lfu_node p)(k \<mapsto> 1)\<rparr>;
          p = lfu_listPushTail k 1 p
      in p\<lparr>minFreq := 1, lfu_size := lfu_size p + 1, lfu_recent := Some k\<rparr>)"

definition lfu_onAccess :: "'k \<Rightarrow> 'k lfu \<Rightarrow> 'k lfu" where
  "lfu_onAccess k p =
     (case lfu_node p k of
        None \<Rightarrow> p
      | Some old \<Rightarrow>
          (let p = lfu_listRemove k old p;
               p = (if lfu_bucketEmpty old p
                    then let p = lfu_dropBucket old p
                         in if minFreq p = old then p\<lparr>minFreq := old + 1\<rparr> else p
                    else p);
               p = p\<lparr>lfu_node := (lfu_node p)(k \<mapsto> old + 1)\<rparr>
           in lfu_listPushTail k (old + 1) p))"

definition lfu_onUpdate :: "'k \<Rightarrow> 'k lfu \<Rightarrow> 'k lfu" where
  "lfu_onUpdate k p = lfu_onAccess k p"

definition lfu_onRemove :: "'k \<Rightarrow> 'k lfu \<Rightarrow> 'k lfu" where
  "lfu_onRemove k p =
     (case lfu_node p k of
        None \<Rightarrow> p
      | Some f \<Rightarrow>
          (let p = (if k \<in> set (lfu_bucket f p)
                    then let p = lfu_listRemove k f p
                         in if lfu_bucketEmpty f p then lfu_dropBucket f p else p
                    else p);
               p = (if lfu_recent p = Some k then p\<lparr>lfu_recent := None\<rparr> else p)
           in p\<lparr>lfu_node := (lfu_node p)(k := None), lfu_size := lfu_size p - 1\<rparr>))"

definition lfu_nextNonEmpty :: "nat \<Rightarrow> 'k lfu \<Rightarrow> nat option" where
  "lfu_nextNonEmpty lo p =
     fold (\<lambda>f best.
             if f \<le> lo then best
             else if lfu_bucket f p = [] then best
             else case best of None \<Rightarrow> Some f | Some b \<Rightarrow> if f < b then Some f else best)
       (map fst (lfu_buckets p)) None"

text \<open>The loop of \<open>pick\<close> runs again only after moving \<open>minFreq\<close> to a non-empty bucket.\<close>

definition nextBest :: "nat \<Rightarrow> 'k lfu \<Rightarrow> nat \<Rightarrow> nat option \<Rightarrow> nat option" where
  "nextBest lo p f best =
     (if f \<le> lo then best
      else if lfu_bucket f p = [] then best
      else case best of None \<Rightarrow> Some f | Some b \<Rightarrow> if f < b then Some f else best)"

lemma nextBest_fold:
  "fold (nextBest lo p) fs best = Some m \<Longrightarrow>
     (m \<in> set fs \<and> lo < m \<and> lfu_bucket m p \<noteq> [] \<or> best = Some m) \<and>
     (\<forall>f \<in> set fs. lo < f \<and> lfu_bucket f p \<noteq> [] \<longrightarrow> m \<le> f) \<and> (\<forall>b. best = Some b \<longrightarrow> m \<le> b)"
  "fold (nextBest lo p) fs best = None \<Longrightarrow>
     best = None \<and> (\<forall>f \<in> set fs. lo < f \<longrightarrow> lfu_bucket f p = [])"
proof (induction fs arbitrary: best)
  case (Cons f fs)
  { case 1
    with Cons.IH(1)[of "nextBest lo p f best"] show ?case
      by (auto simp: nextBest_def split: if_splits option.splits) }
  { case 2
    with Cons.IH(2)[of "nextBest lo p f best"] show ?case
      by (auto simp: nextBest_def split: if_splits option.splits) }
qed simp_all

lemma lfu_next_fold: "lfu_nextNonEmpty lo p = fold (nextBest lo p) (map fst (lfu_buckets p)) None"
  by (simp add: lfu_nextNonEmpty_def nextBest_def[abs_def])

lemma lfu_bucket_key: "lfu_bucket f p \<noteq> [] \<Longrightarrow> f \<in> set (map fst (lfu_buckets p))"
  by (auto simp: lfu_bucket_def split: option.splits dest: map_of_SomeD intro: rev_image_eqI)

text \<open>\<open>nextNonEmpty\<close> is the least count above \<open>lo\<close> with a non-empty bucket.\<close>

lemma lfu_next_Some:
  assumes "lfu_nextNonEmpty lo p = Some m"
  shows "lo < m" and "lfu_bucket m p \<noteq> []"
    and "\<And>f. lo < f \<Longrightarrow> lfu_bucket f p \<noteq> [] \<Longrightarrow> m \<le> f"
  using nextBest_fold(1)[OF assms[unfolded lfu_next_fold]] lfu_bucket_key by auto

lemma lfu_next_None: "lfu_nextNonEmpty lo p = None \<Longrightarrow> lo < f \<Longrightarrow> lfu_bucket f p = []"
  using nextBest_fold(2)[of lo p "map fst (lfu_buckets p)" None] lfu_bucket_key
  by (auto simp: lfu_next_fold)

function lfu_pick :: "'k lfu \<Rightarrow> 'k option \<times> 'k lfu" where
  "lfu_pick p =
     (if lfu_size p > 0 then
        (case lfu_bucket (minFreq p) p of
           [] \<Rightarrow>
             (case lfu_nextNonEmpty (minFreq p) p of
                None \<Rightarrow> (None, p)
              | Some nxt \<Rightarrow> lfu_pick (p\<lparr>minFreq := nxt\<rparr>))
         | n # rest \<Rightarrow>
             if Some n \<noteq> lfu_recent p then (Some n, p)
             else (case rest of
                     m # _ \<Rightarrow> (Some m, p)
                   | [] \<Rightarrow>
                       (case lfu_nextNonEmpty (minFreq p) p of
                          Some nxt \<Rightarrow> (first_of (lfu_bucket nxt p) None, p)
                        | None \<Rightarrow> (Some n, p))))
      else (None, p))"
  by pat_completeness auto
termination
proof (relation "measure (\<lambda>p. if lfu_bucket (minFreq p) p = [] then 1 else 0)")
  fix p :: "'k lfu" and nxt
  assume "lfu_bucket (minFreq p) p = []" and "lfu_nextNonEmpty (minFreq p) p = Some nxt"
  then show "(p\<lparr>minFreq := nxt\<rparr>, p) \<in> measure (\<lambda>p. if lfu_bucket (minFreq p) p = [] then 1 else 0)"
    using lfu_next_Some(2) by (auto simp: lfu_bucket_def)
qed simp

declare lfu_pick.simps [simp del]

definition lfu_victim :: "'k lfu \<Rightarrow> 'k option \<times> 'k lfu" where
  "lfu_victim p =
     (case lfu_pick p of
        (None, p) \<Rightarrow> (None, p)
      | (Some n, p) \<Rightarrow>
          (case lfu_node p n of
             None \<Rightarrow> (Some n, p)
           | Some f \<Rightarrow>
               (let p = (if f \<in> set (map fst (lfu_buckets p)) then lfu_listRemove n f p else p);
                    p = (if lfu_bucketEmpty f p then lfu_dropBucket f p else p)
                in (Some n, p))))"

definition lfu_len :: "'k lfu \<Rightarrow> int" where
  "lfu_len p = lfu_size p"

definition lfu_setBudget :: "int \<Rightarrow> 'k lfu \<Rightarrow> 'k lfu" where
  "lfu_setBudget b p = p"

definition lfu_reset :: "'k lfu \<Rightarrow> 'k lfu" where
  "lfu_reset p =
     \<lparr>lfu_buckets = [], minFreq = 0, lfu_size = 0, lfu_recent = None,
      lfu_node = (\<lambda>k. if \<exists>(f, l) \<in> set (lfu_buckets p). k \<in> set l then None else lfu_node p k)\<rparr>"

definition lfu_promotionNeeded :: "'k \<Rightarrow> 'k lfu \<Rightarrow> bool" where
  "lfu_promotionNeeded k p = True"

section \<open>The invariant\<close>

definition lfu_inv :: "'k set \<Rightarrow> 'k lfu \<Rightarrow> bool" where
  "lfu_inv X p \<longleftrightarrow>
     distinct (map fst (lfu_buckets p)) \<and>
     (\<forall>f. distinct (lfu_bucket f p)) \<and>
     (\<forall>k f. k \<in> set (lfu_bucket f p) \<longleftrightarrow> lfu_node p k = Some f \<and> k \<notin> X) \<and>
     X \<subseteq> dom (lfu_node p) \<and> finite (dom (lfu_node p)) \<and> (\<forall>k. lfu_node p k \<noteq> Some 0) \<and>
     lfu_size p = int (card (dom (lfu_node p))) \<and>
     (\<forall>f. lfu_bucket f p \<noteq> [] \<longrightarrow> minFreq p \<le> f) \<and>
     (\<forall>k. lfu_recent p = Some k \<longrightarrow> lfu_node p k \<noteq> None)"

definition lfu_ok :: "'k lfu \<Rightarrow> bool" where
  "lfu_ok p \<longleftrightarrow> lfu_inv {} p"

definition lfu_tracked :: "'k lfu \<Rightarrow> 'k set" where
  "lfu_tracked p = dom (lfu_node p)"

lemma lfu_bucket_simps [simp]:
  "lfu_bucket f (lfu_setBucket g l p) = (if f = g then l else lfu_bucket f p)"
  "lfu_bucket f (lfu_dropBucket g p) = (if f = g then [] else lfu_bucket f p)"
  "lfu_bucket f (lfu_listPushTail k g p) = (if f = g then lfu_bucket f p @ [k] else lfu_bucket f p)"
  "lfu_bucket f (lfu_listRemove k g p) =
     (if f = g then remove1 k (lfu_bucket f p) else lfu_bucket f p)"
  by (simp_all add: lfu_bucket_def lfu_setBucket_def lfu_dropBucket_def lfu_listPushTail_def
      lfu_listRemove_def update_conv' delete_conv' split: option.split)

lemma lfu_bucket_frame [simp]:
  "lfu_bucket f (p\<lparr>lfu_node := m\<rparr>) = lfu_bucket f p"
  "lfu_bucket f (p\<lparr>minFreq := i\<rparr>) = lfu_bucket f p"
  "lfu_bucket f (p\<lparr>lfu_size := s\<rparr>) = lfu_bucket f p"
  "lfu_bucket f (p\<lparr>lfu_recent := r\<rparr>) = lfu_bucket f p"
  by (simp_all add: lfu_bucket_def)

lemma lfu_prims_frame [simp]:
  "lfu_node (lfu_setBucket f l p) = lfu_node p" "minFreq (lfu_setBucket f l p) = minFreq p"
  "lfu_size (lfu_setBucket f l p) = lfu_size p" "lfu_recent (lfu_setBucket f l p) = lfu_recent p"
  "lfu_node (lfu_dropBucket f p) = lfu_node p" "minFreq (lfu_dropBucket f p) = minFreq p"
  "lfu_size (lfu_dropBucket f p) = lfu_size p" "lfu_recent (lfu_dropBucket f p) = lfu_recent p"
  by (simp_all add: lfu_setBucket_def lfu_dropBucket_def)

lemma lfu_keys_distinct [simp]:
  "distinct (map fst (lfu_buckets p)) \<Longrightarrow> distinct (map fst (lfu_buckets (lfu_setBucket f l p)))"
  "distinct (map fst (lfu_buckets p)) \<Longrightarrow> distinct (map fst (lfu_buckets (lfu_dropBucket f p)))"
  by (simp_all add: lfu_setBucket_def lfu_dropBucket_def distinct_update distinct_delete)

lemmas lfu_list_ops = lfu_listPushTail_def lfu_listRemove_def

lemma lfu_new_ok: "lfu_ok newLFU" "lfu_tracked newLFU = {}"
  by (simp_all add: lfu_ok_def lfu_inv_def newLFU_def lfu_bucket_def lfu_tracked_def)

lemma lfu_onInsert_ok:
  assumes "lfu_ok p" and "k \<notin> lfu_tracked p"
  shows "lfu_ok (lfu_onInsert k p)"
proof -
  have "1 \<le> f" if ne: "lfu_bucket f p \<noteq> []" for f
  proof -
    obtain j where "j \<in> set (lfu_bucket f p)" using ne by (cases "lfu_bucket f p") auto
    then show ?thesis using assms(1) by (cases f) (auto simp: lfu_ok_def lfu_inv_def)
  qed
  then show ?thesis
    using assms
    by (auto simp: lfu_ok_def lfu_inv_def lfu_onInsert_def Let_def lfu_list_ops lfu_tracked_def)
qed

lemma lfu_onAccess_ok:
  assumes "lfu_ok p"
  shows "lfu_ok (lfu_onAccess k p)"
proof (cases "lfu_node p k")
  case None
  then show ?thesis using assms by (simp add: lfu_onAccess_def)
next
  case (Some old)
  have inv: "lfu_inv {} p" using assms by (simp add: lfu_ok_def)
  have nodes: "lfu_node (lfu_onAccess k p) = (lfu_node p)(k \<mapsto> Suc old)"
    "lfu_size (lfu_onAccess k p) = lfu_size p" "lfu_recent (lfu_onAccess k p) = lfu_recent p"
    using Some by (simp_all add: lfu_onAccess_def Let_def lfu_list_ops)
  have minf: "minFreq (lfu_onAccess k p) =
      (if remove1 k (lfu_bucket old p) = [] \<and> minFreq p = old then Suc old else minFreq p)"
    using Some by (simp add: lfu_onAccess_def Let_def lfu_list_ops lfu_bucketEmpty_def)
  have buckets: "lfu_bucket f (lfu_onAccess k p) =
      (if f = old then remove1 k (lfu_bucket old p)
       else if f = Suc old then lfu_bucket f p @ [k] else lfu_bucket f p)" for f
    using Some by (simp add: lfu_onAccess_def Let_def lfu_list_ops lfu_bucketEmpty_def)
  have keys: "distinct (map fst (lfu_buckets (lfu_onAccess k p)))"
    using Some inv by (simp add: lfu_onAccess_def Let_def lfu_list_ops lfu_inv_def) 
  have old: "k \<in> set (lfu_bucket old p)"
    using inv Some by (simp add: lfu_inv_def)
  then have "lfu_bucket old p \<noteq> []" by auto
  then have le: "minFreq p \<le> old"
    using inv by (simp add: lfu_inv_def)
  have min: "minFreq (lfu_onAccess k p) \<le> f" if "lfu_bucket f (lfu_onAccess k p) \<noteq> []" for f
    using that inv le by (auto simp: minf buckets lfu_inv_def le_Suc_eq split: if_splits)
  have dom: "dom (lfu_node (lfu_onAccess k p)) = dom (lfu_node p)"
    using Some by (auto simp: nodes)
  have mem: "j \<in> set (lfu_bucket f (lfu_onAccess k p)) \<longleftrightarrow> lfu_node (lfu_onAccess k p) j = Some f" for j f
    using inv Some by (auto simp: buckets nodes lfu_inv_def)
  have zero: "lfu_node (lfu_onAccess k p) j \<noteq> Some 0" for j
    using inv by (simp add: nodes lfu_inv_def)
  have dist: "distinct (lfu_bucket f (lfu_onAccess k p))" for f
    using inv Some by (auto simp: buckets lfu_inv_def)
  have recent: "lfu_recent p = Some j \<Longrightarrow> lfu_node (lfu_onAccess k p) j \<noteq> None" for j
    using inv by (auto simp: nodes lfu_inv_def)
  show ?thesis
    unfolding lfu_ok_def lfu_inv_def[of "{}" "lfu_onAccess k p"] dom nodes(2,3)
    using inv min keys mem zero dist recent by (simp add: lfu_inv_def)
qed

lemma lfu_onRemove_inv:
  assumes "lfu_inv X p"
  shows "lfu_inv (X - {k}) (lfu_onRemove k p)"
proof (cases "lfu_node p k")
  case None
  then have "k \<notin> X" using assms by (auto simp: lfu_inv_def)
  then show ?thesis using None assms by (simp add: lfu_onRemove_def)
next
  case (Some f)
  have nodes: "lfu_node (lfu_onRemove k p) = (lfu_node p)(k := None)"
    "lfu_size (lfu_onRemove k p) = lfu_size p - 1" "minFreq (lfu_onRemove k p) = minFreq p"
    "lfu_recent (lfu_onRemove k p) = (if lfu_recent p = Some k then None else lfu_recent p)"
    using Some by (simp_all add: lfu_onRemove_def Let_def lfu_list_ops)
  have buckets: "lfu_bucket g (lfu_onRemove k p) =
      (if g = f then remove1 k (lfu_bucket f p) else lfu_bucket g p)" for g
    using Some
    by (auto simp: lfu_onRemove_def Let_def lfu_list_ops lfu_bucketEmpty_def remove1_idem)
  have keys: "distinct (map fst (lfu_buckets (lfu_onRemove k p)))"
    using Some assms by (simp add: lfu_onRemove_def Let_def lfu_list_ops lfu_inv_def)
  have "remove1 k (lfu_bucket f p) \<noteq> [] \<Longrightarrow> lfu_bucket f p \<noteq> []" by auto
  moreover have "card (dom (lfu_node p)) > 0"
    using Some assms by (auto simp: lfu_inv_def card_gt_0_iff)
  ultimately show ?thesis
    using Some assms keys
    by (auto simp: lfu_inv_def nodes buckets card_Diff_singleton domI of_nat_diff Suc_leI
        split: if_splits)
qed

section \<open>The victim\<close>

text \<open>What \<open>pick\<close> returns in a well-formed policy: nothing only if nothing is tracked; otherwise a
  node with the least count among the others, the recent one only if it is alone. Apart from
  \<open>minFreq\<close> the policy is unchanged.\<close>

definition lfu_least :: "'k \<Rightarrow> 'k lfu \<Rightarrow> bool" where
  "lfu_least k p \<longleftrightarrow>
     (\<exists>f. lfu_node p k = Some f \<and> (lfu_recent p = Some k \<longrightarrow> dom (lfu_node p) = {k}) \<and>
       (\<forall>j g. lfu_node p j = Some g \<longrightarrow> lfu_recent p \<noteq> Some j \<longrightarrow> f \<le> g))"

lemma lfu_bucket_ne: "lfu_inv {} p \<Longrightarrow> lfu_node p k = Some f \<Longrightarrow> lfu_bucket f p \<noteq> []"
  by (metis empty_iff empty_set lfu_inv_def)

lemma lfu_pick_here:
  assumes inv: "lfu_inv {} p" and "0 < lfu_size p" and b: "lfu_bucket (minFreq p) p = n # rest"
  shows "\<exists>k. lfu_pick p = (Some k, p) \<and> lfu_least k p"
proof -
  have mem: "j \<in> set (lfu_bucket f p) \<longleftrightarrow> lfu_node p j = Some f" for j f
    using inv by (simp add: lfu_inv_def)
  have min: "minFreq p \<le> g" if "lfu_node p j = Some g" for j g
    using inv lfu_bucket_ne[OF inv that] by (simp add: lfu_inv_def)
  have n: "lfu_node p n = Some (minFreq p)" using b mem[of n "minFreq p"] by simp
  consider (plain) "lfu_recent p \<noteq> Some n" | (second) m ms where "lfu_recent p = Some n" "rest = m # ms"
    | (only) "lfu_recent p = Some n" "rest = []"
    by (cases rest) auto
  then show ?thesis
  proof cases
    case plain
    then have "lfu_pick p = (Some n, p)" using assms by (subst lfu_pick.simps) simp
    moreover have "lfu_least n p" unfolding lfu_least_def using plain n min by blast
    ultimately show ?thesis by blast
  next
    case second
    then have "m \<noteq> n" using inv b by (auto simp: lfu_inv_def dest: spec[of _ "minFreq p"])
    moreover have "lfu_node p m = Some (minFreq p)" using second b mem[of m "minFreq p"] by simp
    ultimately have "lfu_least m p" unfolding lfu_least_def using second(1) min by auto
    moreover have "lfu_pick p = (Some m, p)" using assms second by (subst lfu_pick.simps) simp
    ultimately show ?thesis by blast
  next
    case only
    have rest: "minFreq p < g" if "lfu_node p j = Some g" "j \<noteq> n" for j g
      using min[OF that(1)] mem[of j "minFreq p"] that b only by (auto simp: le_less)
    show ?thesis
    proof (cases "lfu_nextNonEmpty (minFreq p) p")
      case None
      have "j = n" if "lfu_node p j = Some g" for j g
        using lfu_next_None[OF None rest[OF that]] lfu_bucket_ne[OF inv that] by blast
      then have "dom (lfu_node p) = {n}" unfolding dom_def using n by blast
      then have "lfu_least n p" unfolding lfu_least_def using n min by blast
      moreover have "lfu_pick p = (Some n, p)"
        using assms only None by (subst lfu_pick.simps) simp
      ultimately show ?thesis by blast
    next
      case (Some nxt)
      note nx = lfu_next_Some[OF Some]
      obtain m ms where m: "lfu_bucket nxt p = m # ms" using nx(2) by (cases "lfu_bucket nxt p") auto
      then have "lfu_node p m = Some nxt" using mem[of m nxt] by simp
      moreover have "m \<noteq> n" using calculation n nx(1) by auto
      moreover have "nxt \<le> g" if "lfu_node p j = Some g" "lfu_recent p \<noteq> Some j" for j g
        using nx(3)[OF rest[OF that(1)] lfu_bucket_ne[OF inv that(1)]] that only(1) by blast
      ultimately have "lfu_least m p" unfolding lfu_least_def using only(1) by auto
      moreover have "lfu_pick p = (Some m, p)"
        using assms only Some m by (subst lfu_pick.simps) simp
      ultimately show ?thesis by blast
    qed
  qed
qed

lemma lfu_pick_spec:
  assumes inv: "lfu_inv {} p"
  shows "dom (lfu_node p) = {} \<and> fst (lfu_pick p) = None \<and> snd (lfu_pick p) = p \<or>
    (\<exists>k i. lfu_pick p = (Some k, p\<lparr>minFreq := i\<rparr>) \<and> lfu_least k p \<and> lfu_inv {} (p\<lparr>minFreq := i\<rparr>))"
proof (cases "lfu_size p > 0")
  case False
  then have "lfu_pick p = (None, p)" by (subst lfu_pick.simps) simp
  moreover have "dom (lfu_node p) = {}"
    using inv False by (simp add: lfu_inv_def)
  ultimately show ?thesis by simp
next
  case True
  then have "dom (lfu_node p) \<noteq> {}"
    using inv by (auto simp: lfu_inv_def)
  then obtain k g where k: "lfu_node p k = Some g" by blast
  show ?thesis
  proof (cases "lfu_bucket (minFreq p) p")
    case (Cons n rest)
    then obtain j where "lfu_pick p = (Some j, p\<lparr>minFreq := minFreq p\<rparr>)" "lfu_least j p"
      using lfu_pick_here[OF inv True Cons] by auto
    moreover have "lfu_inv {} (p\<lparr>minFreq := minFreq p\<rparr>)" using inv by simp
    ultimately show ?thesis by blast
  next
    case Nil
    have "minFreq p < g"
      using inv lfu_bucket_ne[OF inv k] Nil by (auto simp: lfu_inv_def le_less)
    then obtain nxt where Some: "lfu_nextNonEmpty (minFreq p) p = Some nxt"
      using lfu_next_None[of "minFreq p" p g] lfu_bucket_ne[OF inv k] by (cases "lfu_nextNonEmpty (minFreq p) p") auto
    note nx = lfu_next_Some[OF Some]
    let ?p = "p\<lparr>minFreq := nxt\<rparr>"
    have "nxt \<le> f" if "lfu_bucket f p \<noteq> []" for f
      using nx(3)[of f] inv that Nil by (auto simp: lfu_inv_def le_less)
    then have inv': "lfu_inv {} ?p" using inv by (simp add: lfu_inv_def)
    obtain n rest where "lfu_bucket (minFreq ?p) ?p = n # rest"
      using nx(2) by (cases "lfu_bucket nxt p") auto
    then obtain j where "lfu_pick ?p = (Some j, ?p)" "lfu_least j ?p"
      using lfu_pick_here[OF inv'] True by auto
    moreover from this have "lfu_pick p = (Some j, ?p)"
      using True Nil Some by (subst lfu_pick.simps) simp
    ultimately show ?thesis
      using inv' by (auto simp: lfu_least_def)
  qed
qed

lemma lfu_victim_inv:
  assumes inv: "lfu_inv {} p"
  shows "dom (lfu_node p) = {} \<and> lfu_victim p = (None, p) \<or>
    (\<exists>k p'. lfu_victim p = (Some k, p') \<and> lfu_least k p \<and> lfu_inv {k} p' \<and>
       lfu_node p' = lfu_node p)"
proof (cases "dom (lfu_node p) = {}")
  case True
  then have "\<not> lfu_least k p" for k by (auto simp: lfu_least_def)
  then have "fst (lfu_pick p) = None \<and> snd (lfu_pick p) = p"
    using lfu_pick_spec[OF inv] by blast
  then show ?thesis
    using True by (auto simp: lfu_victim_def split: prod.split)
next
  case False
  then obtain k i where pk: "lfu_pick p = (Some k, p\<lparr>minFreq := i\<rparr>)" "lfu_least k p"
    "lfu_inv {} (p\<lparr>minFreq := i\<rparr>)"
    using lfu_pick_spec[OF inv] by blast
  let ?p = "p\<lparr>minFreq := i\<rparr>"
  obtain f where f: "lfu_node p k = Some f" using pk(2) by (auto simp: lfu_least_def)
  then have kf: "k \<in> set (lfu_bucket f ?p)" using inv by (simp add: lfu_inv_def)
  then have key: "f \<in> set (map fst (lfu_buckets ?p))" by (intro lfu_bucket_key) auto
  let ?q = "lfu_listRemove k f ?p"
  let ?r = "if lfu_bucketEmpty f ?q then lfu_dropBucket f ?q else ?q"
  have v: "lfu_victim p = (Some k, ?r)"
    using pk(1) f key by (simp add: lfu_victim_def Let_def)
  have b: "lfu_bucket g ?r = (if g = f then remove1 k (lfu_bucket f ?p) else lfu_bucket g ?p)" for g
    by (simp add: lfu_bucketEmpty_def)
  have fr: "lfu_node ?r = lfu_node ?p" "minFreq ?r = minFreq ?p" "lfu_size ?r = lfu_size ?p"
    "lfu_recent ?r = lfu_recent ?p"
    by (simp_all add: lfu_list_ops)
  have keys: "distinct (map fst (lfu_buckets ?r))"
    using pk(3) by (simp add: lfu_list_ops lfu_inv_def)
  have dist: "distinct (lfu_bucket g ?r)" and mem: "j \<in> set (lfu_bucket g ?r) \<longleftrightarrow> lfu_node ?p j = Some g \<and> j \<noteq> k"
    for g j
    unfolding b using pk(3) f kf by (auto simp: lfu_inv_def)
  have "lfu_bucket g ?p \<noteq> []" if "lfu_bucket g ?r \<noteq> []" for g
    using that unfolding b by (auto split: if_splits)
  then have min: "lfu_bucket g ?r \<noteq> [] \<Longrightarrow> minFreq ?p \<le> g" for g
    using pk(3) unfolding lfu_inv_def by blast
  have "lfu_inv {k} ?r"
    unfolding lfu_inv_def[of "{k}"] fr using keys dist mem min pk(3) f
    by (auto simp: lfu_inv_def)
  then show ?thesis
    using v pk(2) fr(1) by auto
qed

interpretation lfu: eager_policy lfu_tracked lfu_ok lfu_onInsert lfu_onAccess lfu_onUpdate
  lfu_onRemove lfu_victim lfu_len
proof
  fix p :: "'a lfu" and p' k
  assume ok: "lfu_ok p"
  then have inv: "lfu_inv {} p" by (simp add: lfu_ok_def)
  show "finite (lfu_tracked p)" "lfu_len p = int (card (lfu_tracked p))"
    using inv by (simp_all add: lfu_inv_def lfu_tracked_def lfu_len_def)
  show "lfu_ok (lfu_onAccess k p)" "lfu_ok (lfu_onUpdate k p)"
    using lfu_onAccess_ok[OF ok] by (simp_all add: lfu_onUpdate_def)
  show "lfu_tracked (lfu_onAccess k p) = lfu_tracked p" "lfu_tracked (lfu_onUpdate k p) = lfu_tracked p"
    by (auto simp: lfu_onUpdate_def lfu_onAccess_def lfu_tracked_def Let_def lfu_list_ops
        split: option.split)
  show "lfu_ok (lfu_onInsert k p)" "lfu_tracked (lfu_onInsert k p) = insert k (lfu_tracked p)"
    if "k \<notin> lfu_tracked p"
    using lfu_onInsert_ok[OF ok that]
    by (simp_all add: lfu_onInsert_def lfu_tracked_def Let_def lfu_list_ops)
  have rm: "lfu_tracked (lfu_onRemove k q) = lfu_tracked q - {k}" for q k
    by (auto simp: lfu_onRemove_def lfu_tracked_def Let_def lfu_list_ops split: option.split)
  show "lfu_tracked (lfu_onRemove k p) = lfu_tracked p - {k}" by (rule rm)
  show "lfu_ok (lfu_onRemove k p)"
    using lfu_onRemove_inv[OF inv, of k] by (simp add: lfu_ok_def)
  show "\<exists>k. fst (lfu_victim p) = Some k" if "lfu_tracked p \<noteq> {}"
    using lfu_victim_inv[OF inv] that by (auto simp: lfu_tracked_def)
  show "k \<in> lfu_tracked p" "lfu_ok (lfu_onRemove k p')"
    "lfu_tracked (lfu_onRemove k p') = lfu_tracked p - {k}" if "lfu_victim p = (Some k, p')"
  proof -
    have "lfu_least k p" "lfu_inv {k} p'" "lfu_node p' = lfu_node p"
      using lfu_victim_inv[OF inv] that by auto
    then show "k \<in> lfu_tracked p" "lfu_ok (lfu_onRemove k p')"
      "lfu_tracked (lfu_onRemove k p') = lfu_tracked p - {k}"
      using lfu_onRemove_inv[of "{k}" p' k] rm[of k p']
      by (auto simp: lfu_least_def lfu_tracked_def lfu_ok_def)
  qed
  show "lfu_ok p' \<and> lfu_tracked p' = lfu_tracked p" if "lfu_victim p = (None, p')"
    using lfu_victim_inv[OF inv] that ok by auto
qed

lemma lfu_reset_new: "lfu_ok p \<Longrightarrow> lfu_reset p = newLFU"
proof -
  assume ok: "lfu_ok p"
  have "\<exists>(f, l) \<in> set (lfu_buckets p). k \<in> set l" if "lfu_node p k = Some f" for k f
  proof -
    have "k \<in> set (lfu_bucket f p)" using ok that by (simp add: lfu_ok_def lfu_inv_def)
    then obtain l where "map_of (lfu_buckets p) f = Some l" "k \<in> set l"
      by (cases "map_of (lfu_buckets p) f") (auto simp: lfu_bucket_def)
    then show ?thesis by (blast dest: map_of_SomeD)
  qed
  then have "(\<lambda>k. if \<exists>(f, l) \<in> set (lfu_buckets p). k \<in> set l then None else lfu_node p k) = Map.empty"
    by (intro ext) (metis not_None_eq)
  then show ?thesis by (simp add: lfu_reset_def newLFU_def)
qed

section \<open>Visit counts as the specification\<close>

text \<open>The number of visits of each tracked key, counting the insertion, and the key inserted
  last (unless it was removed since).\<close>

record 'k visits =
  visit_count :: "'k \<Rightarrow> nat option"
  newest :: "'k option"

definition visits_empty :: "'k visits" where
  "visits_empty = \<lparr>visit_count = Map.empty, newest = None\<rparr>"

fun visit_step :: "'k pevent \<Rightarrow> 'k visits \<Rightarrow> 'k visits" where
  "visit_step (EvInsert k) v = \<lparr>visit_count = (visit_count v)(k \<mapsto> 1), newest = Some k\<rparr>"
| "visit_step (EvAccess k) v =
     v\<lparr>visit_count := (visit_count v)(k := map_option Suc (visit_count v k))\<rparr>"
| "visit_step (EvUpdate k) v =
     v\<lparr>visit_count := (visit_count v)(k := map_option Suc (visit_count v k))\<rparr>"
| "visit_step (EvRemove k) v =
     \<lparr>visit_count = (visit_count v)(k := None),
      newest = (if newest v = Some k then None else newest v)\<rparr>"

fun lfu_step :: "'k pevent \<Rightarrow> 'k lfu \<Rightarrow> 'k lfu" where
  "lfu_step (EvInsert k) p = lfu_onInsert k p"
| "lfu_step (EvAccess k) p = lfu_onAccess k p"
| "lfu_step (EvUpdate k) p = lfu_onUpdate k p"
| "lfu_step (EvRemove k) p = lfu_onRemove k p"

definition lfu_sim :: "'k lfu \<Rightarrow> 'k visits \<Rightarrow> bool" where
  "lfu_sim p v \<longleftrightarrow> lfu_ok p \<and> lfu_node p = visit_count v \<and> lfu_recent p = newest v"

lemma lfu_access_sim:
  "lfu_sim p v \<Longrightarrow> lfu_sim (lfu_onAccess k p) (visit_step (EvAccess k) v)"
  by (cases "visit_count v k")
     (auto simp: lfu_sim_def lfu.ok_access, auto simp: lfu_onAccess_def Let_def lfu_list_ops)

lemma lfu_remove_sim:
  "lfu_sim p v \<Longrightarrow> lfu_sim (lfu_onRemove k p) (visit_step (EvRemove k) v)"
proof (cases "visit_count v k")
  case None
  moreover assume "lfu_sim p v"
  moreover have "newest v \<noteq> Some k" using calculation by (auto simp: lfu_sim_def lfu_ok_def lfu_inv_def)
  ultimately show ?thesis
    by (auto simp: lfu_sim_def lfu_onRemove_def fun_upd_idem)
next
  case (Some f)
  moreover assume "lfu_sim p v"
  ultimately show ?thesis
    by (auto simp: lfu_sim_def lfu.ok_remove) (auto simp: lfu_onRemove_def Let_def lfu_list_ops)
qed

lemma lfu_run_sim:
  assumes "lfu_sim p v" and "fresh_inserts es (lfu_tracked p)"
  shows "lfu_sim (fold lfu_step es p) (fold visit_step es v)"
  using assms
proof (induction es arbitrary: p v)
  case (Cons e es)
  have ok: "lfu_ok p" using Cons.prems by (simp add: lfu_sim_def)
  have ins: "lfu_sim (lfu_onInsert k p) (visit_step (EvInsert k) v)" if "k \<notin> lfu_tracked p" for k
    using Cons.prems(1) that
    by (simp add: lfu_sim_def lfu.ok_insert) (simp add: lfu_onInsert_def Let_def lfu_list_ops)
  have upd: "lfu_sim (lfu_onUpdate k p) (visit_step (EvUpdate k) v)" for k
    using lfu_access_sim[OF Cons.prems(1)] by (simp add: lfu_onUpdate_def)
  show ?case
    using Cons.prems ok lfu_access_sim[OF Cons.prems(1)] lfu_remove_sim[OF Cons.prems(1)] ins upd
    by (cases e)
       (auto intro!: Cons.IH simp: lfu.tracked_insert lfu.tracked_access lfu.tracked_update
         lfu.tracked_remove simp del: visit_step.simps)
qed simp

text \<open>C8: LFU evicts a least frequently used entry. After any sequence of insertions, reads,
  updates and removals starting from an empty policy, in which a key is inserted only while it is
  not tracked, and whenever some key is tracked, the victim is a tracked key whose number of
  visits is at most that of every tracked key other than the one inserted last, and it is that
  last inserted key only if no other key is tracked.\<close>

theorem lfu_victim_least_frequent:
  assumes "fresh_inserts es {}"
    and "p = fold lfu_step es newLFU" and "v = fold visit_step es visits_empty"
    and "visit_count v j = Some g"
  shows "\<exists>k f. fst (lfu_victim p) = Some k \<and> visit_count v k = Some f \<and>
     (newest v \<noteq> Some j \<longrightarrow> f \<le> g) \<and> (newest v = Some k \<longrightarrow> j = k)"
proof -
  have "lfu_sim newLFU visits_empty"
    using lfu_new_ok by (simp add: lfu_sim_def newLFU_def visits_empty_def)
  then have sim: "lfu_sim p v"
    using lfu_run_sim[of newLFU visits_empty es] assms by (simp add: lfu_new_ok)
  then obtain k where "fst (lfu_victim p) = Some k" "lfu_least k p"
    using lfu_victim_inv[of p] assms(4) by (auto simp: lfu_sim_def lfu_ok_def)
  then show ?thesis
    using sim assms(4) by (fastforce simp: lfu_least_def lfu_sim_def)
qed

theorem lfu_victim_least_frequent_witness:
  "fst (lfu_victim (fold lfu_step [EvInsert 1, EvInsert (2::nat), EvAccess 1, EvInsert 3] newLFU)) = Some 2"
  using lfu_victim_least_frequent[OF _ refl refl,
      of "[EvInsert 1, EvInsert (2::nat), EvAccess 1, EvInsert 3]" 2 1]
  by (auto simp: visits_empty_def split: if_splits)

end
