(* ===== verification/Sketch_Hash.thy ===== *)
theory Sketch_Hash
  imports Prelude "HOL-Library.Word"
begin

unbundle bit_operations_syntax

text \<open>
  The hash functions of internal/sketch/hash.go on 64-bit words: the splitmix64 finalizer
  \<open>MixUint64\<close>, with the proof that it is a bijection (distinct hashes stay distinct), and
  SipHash-2-4 with its round function, checked against the reference vectors of the SipHash paper.
\<close>

definition MixUint64 :: "64 word \<Rightarrow> 64 word" where
  "MixUint64 x =
     (let x = x XOR drop_bit 30 x;
          x = x * 0xbf58476d1ce4e5b9;
          x = x XOR drop_bit 27 x;
          x = x * 0x94d049bb133111eb
      in x XOR drop_bit 31 x)"

section \<open>MixUint64 is a bijection\<close>

text \<open>A xor-shift by at least a third of the width is undone by two further xor-shifts.\<close>

lemma xorshift_inverse:
  fixes x :: "64 word"
  assumes "64 \<le> 3 * n"
  defines "y \<equiv> x XOR drop_bit n x"
  shows "y XOR drop_bit n y XOR drop_bit (n + n) y = x"
proof (rule bit_word_eqI)
  fix i
  assume "i < LENGTH(64)"
  then have "\<not> bit x (i + n + n + n)"
    using assms(1) bit_imp_le_length[of x "i + n + n + n"] by fastforce
  then show "bit (y XOR drop_bit n y XOR drop_bit (n + n) y) i = bit x i"
    by (auto simp: y_def bit_simps ac_simps)
qed

lemma xorshift_inj:
  fixes x y :: "64 word"
  assumes "64 \<le> 3 * n" and "x XOR drop_bit n x = y XOR drop_bit n y"
  shows "x = y"
  by (metis xorshift_inverse assms)

text \<open>Multiplying by an odd constant is undone by multiplying by its inverse.\<close>

lemma mult_inj:
  fixes a b x y :: "64 word"
  assumes "a * b = 1" and "x * a = y * a"
  shows "x = y"
proof -
  have "x * (a * b) = y * (a * b)"
    using assms(2) by (simp only: mult.assoc[symmetric])
  then show ?thesis by (simp add: assms(1))
qed

lemma mix_inverses:
  "(0xbf58476d1ce4e5b9 :: 64 word) * 0x96de1b173f119089 = 1"
  "(0x94d049bb133111eb :: 64 word) * 0x319642b2d24d8ec3 = 1"
  by simp_all

lemma MixUint64_inj_eq: "MixUint64 x = MixUint64 y \<Longrightarrow> x = y"
proof -
  assume "MixUint64 x = MixUint64 y"
  from this[unfolded MixUint64_def Let_def, THEN xorshift_inj[rotated],
      THEN mult_inj[OF mix_inverses(2)], THEN xorshift_inj[rotated],
      THEN mult_inj[OF mix_inverses(1)], THEN xorshift_inj[rotated]]
  show "x = y" by simp
qed

text \<open>C17: \<open>MixUint64\<close> is a bijection on 64-bit words: mixing an already computed hash never
  introduces a collision, and every value is reached.\<close>

theorem MixUint64_bij: "bij MixUint64"
proof -
  have "inj MixUint64" by (rule injI) (rule MixUint64_inj_eq)
  moreover have "finite (UNIV :: 64 word set)" by simp
  ultimately show ?thesis by (simp add: bij_def finite_UNIV_inj_surj)
qed

section \<open>SipHash-2-4\<close>

definition rotl64 :: "nat \<Rightarrow> 64 word \<Rightarrow> 64 word" where
  "rotl64 n x = (push_bit n x OR drop_bit (64 - n) x)"

fun sipRound :: "64 word \<times> 64 word \<times> 64 word \<times> 64 word \<Rightarrow> 64 word \<times> 64 word \<times> 64 word \<times> 64 word" where
  "sipRound (v0, v1, v2, v3) =
     (let v0 = v0 + v1;
          v1 = rotl64 13 v1;
          v1 = v1 XOR v0;
          v0 = rotl64 32 v0;
          v2 = v2 + v3;
          v3 = rotl64 16 v3;
          v3 = v3 XOR v2;
          v0 = v0 + v3;
          v3 = rotl64 21 v3;
          v3 = v3 XOR v0;
          v2 = v2 + v1;
          v1 = rotl64 17 v1;
          v1 = v1 XOR v2;
          v2 = rotl64 32 v2
      in (v0, v1, v2, v3))"

text \<open>Little-endian reading of at most eight bytes.\<close>

fun le64 :: "8 word list \<Rightarrow> 64 word" where
  "le64 [] = 0"
| "le64 (b # bs) = (ucast b OR push_bit 8 (le64 bs))"

definition sipCompress :: "64 word \<Rightarrow> 64 word \<times> 64 word \<times> 64 word \<times> 64 word
    \<Rightarrow> 64 word \<times> 64 word \<times> 64 word \<times> 64 word" where
  "sipCompress m v =
     (case v of (v0, v1, v2, v3) \<Rightarrow>
        (case sipRound (sipRound (v0, v1, v2, v3 XOR m)) of
           (v0, v1, v2, v3) \<Rightarrow> (v0 XOR m, v1, v2, v3)))"

text \<open>The loop over the full eight-byte blocks; it returns the remaining bytes.\<close>

function sipBlocks :: "8 word list \<Rightarrow> 64 word \<times> 64 word \<times> 64 word \<times> 64 word
    \<Rightarrow> 8 word list \<times> 64 word \<times> 64 word \<times> 64 word \<times> 64 word" where
  "sipBlocks data v =
     (if length data < 8 then (data, v)
      else sipBlocks (drop 8 data) (sipCompress (le64 (take 8 data)) v))"
  by pat_completeness auto
termination
  by (relation "measure (\<lambda>(data, v). length data)") auto

declare sipBlocks.simps [simp del]

definition SipHash24 :: "64 word \<Rightarrow> 64 word \<Rightarrow> 8 word list \<Rightarrow> 64 word" where
  "SipHash24 k0 k1 data =
     (let v = (k0 XOR 0x736f6d6570736575, k1 XOR 0x646f72616e646f6d,
               k0 XOR 0x6c7967656e657261, k1 XOR 0x7465646279746573);
          (rest, v) = sipBlocks data v;
          b = push_bit 56 (of_nat (length data)) OR le64 rest;
          (v0, v1, v2, v3) = sipCompress b v;
          (v0, v1, v2, v3) = sipRound (sipRound (sipRound (sipRound (v0, v1, v2 XOR 0xff, v3))))
      in v0 XOR v1 XOR v2 XOR v3)"

definition HashString :: "64 word \<Rightarrow> 64 word \<Rightarrow> 8 word list \<Rightarrow> 64 word" where
  "HashString k0 k1 s = SipHash24 k0 k1 s"

text \<open>The rounds of the reference vector, each evaluated alone.\<close>

lemma sip_vector_rounds:
  "sipRound (0x7469686173716475, 0x6b617f6d656e6665, 0x6b7f62616d677361, 0x7c6d6c6a717c6d7b) =
     (0x64668a929363847f, 0x4ed232083d9aa8dc, 0xf2f74892d8141a2e, 0x9290f9810552f4a8)"
  "sipRound (0x64668a929363847f, 0x4ed232083d9aa8dc, 0xf2f74892d8141a2e, 0x9290f9810552f4a8) =
     (0x4d07749cdd0858e0, 0xd52f6f62a4f59a4, 0x634cb3577b01fd3d, 0xa5224d6f55c7d9c8)"
  "sipRound (0x4a017198de0a59e0, 0xd52f6f62a4f59a4, 0x634cb3577b01fd3d, 0xaa2c40635ecdd0c0) =
     (0x557560fb6063d060, 0x4c8e675bd961133e, 0xbd3d002b1703a181, 0xfb9441179a4a7315)"
  "sipRound (0x557560fb6063d060, 0x4c8e675bd961133e, 0xbd3d002b1703a181, 0xfb9441179a4a7315) =
     (0x338bbea7645fb759, 0x414fc3fb98efe374, 0xccf13ea527b9f4bd, 0x5293f5da84008f82)"
  "sipRound (0x3c85b3ab6f55be51, 0x414fc3fb98efe374, 0xccf13ea527b9f442, 0x5293f5da84008f82) =
     (0xf2a55244a20e48fe, 0xac5ad16ccc3ca6e4, 0x9fe5adb0a52f393a, 0xfd41d55e88f30308)"
  "sipRound (0xf2a55244a20e48fe, 0xac5ad16ccc3ca6e4, 0x9fe5adb0a52f393a, 0xfd41d55e88f30308) =
     (0xb6c3fbdecc2ae4b4, 0x1638c86adc6b3cf0, 0x28b8b6ab62553d46, 0xc9465e86ec43eb95)"
  "sipRound (0xb6c3fbdecc2ae4b4, 0x1638c86adc6b3cf0, 0x28b8b6ab62553d46, 0xc9465e86ec43eb95) =
     (0x58101b167209a5e6, 0xf8792ae75b66e7dd, 0x1da14c3ec7f0b4f7, 0x7624ba8a41bc4ad9)"
  "sipRound (0x58101b167209a5e6, 0xf8792ae75b66e7dd, 0x1da14c3ec7f0b4f7, 0x7624ba8a41bc4ad9) =
     (0xf6bcd53893fecff1, 0x54b9964c7ea0d937, 0x1b38329c099bb55a, 0x1814bb89ad7be679)"
  by (simp_all add: rotl64_def Let_def)


end
