(* ===== verification/Sketch_CMS.thy ===== *)
theory Sketch_CMS
  imports Sketch_Hash
begin

text \<open>
  The count-min sketch of internal/sketch/cms.go: rows of bytes, two 4-bit counters per byte, a
  power-of-two width, and conservative update. The byte-level \<open>read\<close> and \<open>write\<close> are shown to
  behave as a matrix of 4-bit counters, and the sketch is shown never to underestimate: the
  estimate of a hash is at least its number of increments, halved at each reset and capped at 15.
\<close>

unbundle bit_operations_syntax

record cms =
  cms_rows :: "8 word list list"
  cms_mask :: "64 word"
  cms_depth :: nat
  cms_seeds :: "64 word list"

text \<open>The loop \<open>for w < target { w <<= 1 }\<close>.\<close>

function grow :: "int \<Rightarrow> int \<Rightarrow> int" where
  "grow target w = (if 0 < w \<and> w < target then grow target (w * 2) else w)"
  by pat_completeness auto
termination
  by (relation "measure (\<lambda>(target, w). nat (target - w))") auto

declare grow.simps [simp del]

definition cms_defaultSeeds :: "64 word list" where
  "cms_defaultSeeds = map (\<lambda>i. MixUint64 (0xa3f7c1d2e8b95406 + of_nat i)) [0..<4]"

definition cms_New :: "int \<Rightarrow> 64 word list \<Rightarrow> cms" where
  "cms_New expected seeds =
     (let depth = 4;
          seeds = (if length seeds < depth then cms_defaultSeeds else seeds);
          w = grow (max (expected * 10) 64) 64
      in \<lparr>cms_rows = replicate depth (replicate (nat (w div 2)) 0),
          cms_mask = word_of_int (w - 1), cms_depth = depth, cms_seeds = take depth seeds\<rparr>)"

text \<open>The masking of \<open>read\<close> and \<open>write\<close>: a byte's low and high 4 bits.\<close>

definition cms_getLow :: "8 word \<Rightarrow> 8 word" where
  "cms_getLow b = b AND 0x0f"

definition cms_getHigh :: "8 word \<Rightarrow> 8 word" where
  "cms_getHigh b = drop_bit 4 b AND 0x0f"

definition cms_putLow :: "8 word \<Rightarrow> 8 word \<Rightarrow> 8 word" where
  "cms_putLow b v = (b AND 0xf0) OR v"

definition cms_putHigh :: "8 word \<Rightarrow> 8 word \<Rightarrow> 8 word" where
  "cms_putHigh b v = (b AND 0x0f) OR push_bit 4 v"

definition cms_read :: "nat \<Rightarrow> 64 word \<Rightarrow> cms \<Rightarrow> 8 word" where
  "cms_read row col c =
     (let b = cms_rows c ! row ! unat (col div 2)
      in if col AND 1 = 0 then cms_getLow b else cms_getHigh b)"

definition cms_write :: "nat \<Rightarrow> 64 word \<Rightarrow> 8 word \<Rightarrow> cms \<Rightarrow> cms" where
  "cms_write row col v c =
     (let v = v AND 0x0f;
          off = unat (col div 2);
          b = cms_rows c ! row ! off;
          b = (if col AND 1 = 0 then cms_putLow b v else cms_putHigh b v)
      in c\<lparr>cms_rows := (cms_rows c)[row := (cms_rows c ! row)[off := b]]\<rparr>)"

definition cms_col :: "64 word \<Rightarrow> nat \<Rightarrow> cms \<Rightarrow> 64 word" where
  "cms_col h i c = (MixUint64 (h XOR cms_seeds c ! i) AND cms_mask c)"

definition cms_Estimate :: "64 word \<Rightarrow> cms \<Rightarrow> 8 word" where
  "cms_Estimate h c =
     fold (\<lambda>i lowest. let v = cms_read i (cms_col h i c) c in if v < lowest then v else lowest)
       [0..<cms_depth c] 15"

text \<open>The body of the second loop of \<open>Increment\<close>.\<close>

definition cms_bump :: "8 word \<Rightarrow> 64 word list \<Rightarrow> nat \<Rightarrow> cms \<Rightarrow> cms" where
  "cms_bump lowest cols i c =
     (let v = cms_read i (cols ! i) c
      in if v = lowest then cms_write i (cols ! i) (v + 1) c else c)"

definition cms_Increment :: "64 word \<Rightarrow> cms \<Rightarrow> cms" where
  "cms_Increment h c =
     (let lowest = cms_Estimate h c;
          cols = map (\<lambda>i. cms_col h i c) [0..<cms_depth c]
      in if lowest \<ge> 15 then c
         else fold (cms_bump lowest cols) [0..<cms_depth c] c)"

definition cms_halve :: "8 word \<Rightarrow> 8 word" where
  "cms_halve b = (let low = drop_bit 1 (b AND 0x0f); high = drop_bit 1 (b AND 0xf0) AND 0xf0
                  in high OR low)"

definition cms_Reset :: "cms \<Rightarrow> cms" where
  "cms_Reset c = c\<lparr>cms_rows := map (map cms_halve) (cms_rows c)\<rparr>"

section \<open>The two counters of a byte\<close>

lemma nibble_masks: "(0x0f :: 8 word) = mask 4" "(0xf0 :: 8 word) = push_bit 4 (mask 4)"
  by (simp_all add: mask_eq_exp_minus_1)

lemmas nibble_defs = cms_getLow_def cms_getHigh_def cms_putLow_def cms_putHigh_def

lemma nibble_put:
  "cms_getLow (cms_putLow b (v AND 0x0f)) = v AND 0x0f"
  "cms_getHigh (cms_putLow b (v AND 0x0f)) = cms_getHigh b"
  "cms_getLow (cms_putHigh b (v AND 0x0f)) = cms_getLow b"
  "cms_getHigh (cms_putHigh b (v AND 0x0f)) = v AND 0x0f"
  unfolding nibble_defs nibble_masks by (rule bit_word_eqI; auto simp: bit_simps)+

lemma nibble_halve:
  "cms_getLow (cms_halve b) = drop_bit 1 (cms_getLow b)"
  "cms_getHigh (cms_halve b) = drop_bit 1 (cms_getHigh b)"
  unfolding cms_halve_def Let_def nibble_defs nibble_masks
  by (rule bit_word_eqI; auto simp: bit_simps)+

lemma nibble_le: "cms_getLow b \<le> 15" "cms_getHigh b \<le> 15"
  by (simp_all add: nibble_defs word_and_le1)

lemma nibble_id: "(v :: 8 word) \<le> 15 \<Longrightarrow> v AND 0x0f = v"
proof -
  assume "v \<le> 15"
  then have "unat v < 2 ^ 4" by (simp add: word_le_nat_alt)
  then have "take_bit 4 (unat v) = unat v" by (rule take_bit_nat_eq_self)
  then have "take_bit 4 v = v" by (metis unsigned_take_bit_eq word_unat_eq_iff)
  then show ?thesis by (simp add: take_bit_eq_mask mask_eq_exp_minus_1)
qed

section \<open>The matrix of counters\<close>

definition cms_ok :: "cms \<Rightarrow> bool" where
  "cms_ok c \<longleftrightarrow> length (cms_rows c) = cms_depth c \<and> length (cms_seeds c) = cms_depth c \<and>
     (\<forall>row \<in> set (cms_rows c). 2 * length row = unat (cms_mask c) + 1)"

definition cms_valid :: "nat \<Rightarrow> 64 word \<Rightarrow> cms \<Rightarrow> bool" where
  "cms_valid row col c \<longleftrightarrow> row < cms_depth c \<and> col \<le> cms_mask c"

lemma cms_col_valid: "row < cms_depth c \<Longrightarrow> cms_valid row (cms_col h row c) c"
  by (simp add: cms_valid_def cms_col_def word_and_le1)

lemma cms_valid_offset:
  assumes "cms_ok c" and "cms_valid row col c"
  shows "unat (col div 2) < length (cms_rows c ! row)" and "row < length (cms_rows c)"
proof -
  show r: "row < length (cms_rows c)" using assms by (simp add: cms_ok_def cms_valid_def)
  then have "2 * length (cms_rows c ! row) = unat (cms_mask c) + 1"
    using assms by (simp add: cms_ok_def)
  moreover have "unat col \<le> unat (cms_mask c)"
    using assms by (simp add: cms_valid_def word_le_nat_alt)
  ultimately show "unat (col div 2) < length (cms_rows c ! row)"
    by (simp add: unat_div)
qed

lemma col_split:
  fixes col col' :: "64 word"
  assumes "col div 2 = col' div 2" and "(col AND 1 = 0) = (col' AND 1 = 0)"
  shows "col = col'"
proof -
  have "col mod 2 = col' mod 2"
    using assms(2) by (simp add: and_one_eq mod_2_eq_odd)
  then show ?thesis
    using assms(1) by (metis div_mult_mod_eq)
qed

text \<open>Reading after writing: the sketch is a matrix of 4-bit counters.\<close>

lemma cms_read_write:
  assumes "cms_ok c" and "cms_valid row col c" and "cms_valid row' col' c"
  shows "cms_read row' col' (cms_write row col v c) =
     (if row' = row \<and> col' = col then v AND 0x0f else cms_read row' col' c)"
proof -
  note off = cms_valid_offset[OF assms(1,2)]
  consider (row) "row' \<noteq> row" | (off) "row' = row" "unat (col' div 2) \<noteq> unat (col div 2)"
    | (same) "row' = row" "col' div 2 = col div 2"
    using word_unat_eq_iff by blast
  then show ?thesis
  proof cases
    case same
    show ?thesis
    proof (cases "col' = col")
      case True
      then show ?thesis
        using same off by (simp add: cms_read_def cms_write_def Let_def nibble_put)
    next
      case False
      then have "(col' AND 1 = 0) \<noteq> (col AND 1 = 0)" using col_split same(2) by blast
      then show ?thesis
        using same off False by (auto simp: cms_read_def cms_write_def Let_def nibble_put)
    qed
  qed (use off in \<open>auto simp: cms_read_def cms_write_def Let_def\<close>)
qed

lemma cms_write_frame [simp]:
  "cms_mask (cms_write row col v c) = cms_mask c" "cms_depth (cms_write row col v c) = cms_depth c"
  "cms_seeds (cms_write row col v c) = cms_seeds c" "cms_col h i (cms_write row col v c) = cms_col h i c"
  "cms_valid row' col' (cms_write row col v c) = cms_valid row' col' c"
  by (simp_all add: cms_write_def Let_def cms_col_def cms_valid_def)

lemma cms_write_ok:
  assumes "cms_ok c"
  shows "cms_ok (cms_write row col v c)"
proof (cases "row < length (cms_rows c)")
  case True
  then have "2 * length (cms_rows c ! row) = unat (cms_mask c) + 1"
    using assms by (simp add: cms_ok_def)
  then show ?thesis
    using assms by (auto simp: cms_ok_def cms_write_def Let_def dest!: set_update_subset_insert[THEN subsetD])
next
  case False
  then show ?thesis
    using assms by (simp add: cms_ok_def cms_write_def Let_def list_update_beyond not_less)
qed

lemma cms_read_le: "cms_read row col c \<le> 15"
  by (simp add: cms_read_def Let_def nibble_le)

lemma cms_read_Reset:
  assumes "cms_ok c" and "cms_valid row col c"
  shows "cms_read row col (cms_Reset c) = drop_bit 1 (cms_read row col c)"
  using cms_valid_offset[OF assms] by (simp add: cms_read_def cms_Reset_def Let_def nibble_halve)

lemma cms_Reset_frame [simp]:
  "cms_mask (cms_Reset c) = cms_mask c" "cms_depth (cms_Reset c) = cms_depth c"
  "cms_seeds (cms_Reset c) = cms_seeds c" "cms_col h i (cms_Reset c) = cms_col h i c"
  by (simp_all add: cms_Reset_def cms_col_def)

lemma cms_Reset_ok: "cms_ok c \<Longrightarrow> cms_ok (cms_Reset c)"
  by (auto simp: cms_ok_def cms_Reset_def)

section \<open>Estimates\<close>

lemma fold_lowest:
  fixes f :: "nat \<Rightarrow> 8 word"
  shows "fold (\<lambda>i l. let v = f i in if v < l then v else l) is l0 = fold (\<lambda>i l. min (f i) l) is l0"
  by (intro fold_cong) (auto simp: Let_def min_def fun_eq_iff)

lemma fold_min_ge: "m \<le> fold (\<lambda>i l. min (f i) l) is l0 \<longleftrightarrow> m \<le> l0 \<and> (\<forall>i \<in> set is. m \<le> f i)"
  for f :: "nat \<Rightarrow> 8 word"
  by (induction "is" arbitrary: l0) auto

text \<open>The estimate is the least counter of the hash, and at most 15.\<close>

lemma cms_Estimate_ge:
  "m \<le> cms_Estimate h c \<longleftrightarrow> m \<le> 15 \<and> (\<forall>i < cms_depth c. m \<le> cms_read i (cms_col h i c) c)"
  by (auto simp: cms_Estimate_def fold_lowest fold_min_ge)

lemma cms_Estimate_le: "i < cms_depth c \<Longrightarrow> cms_Estimate h c \<le> cms_read i (cms_col h i c) c"
  using cms_Estimate_ge[of "cms_Estimate h c" h c] by simp

text \<open>What \<open>Increment\<close> writes: the counters of \<open>h\<close> that equal its estimate go up by one.\<close>

lemma cms_Increment_fold:
  assumes "cms_ok c" and "set is \<subseteq> {..<cms_depth c}" and "distinct is" and "lowest < 15"
    and "\<And>i. i < cms_depth c \<Longrightarrow> cols ! i = cms_col h i c"
  defines "c' \<equiv> fold (cms_bump lowest cols) is c"
  shows "cms_ok c' \<and> cms_mask c' = cms_mask c \<and> cms_depth c' = cms_depth c \<and> cms_seeds c' = cms_seeds c \<and>
     (\<forall>i col. cms_valid i col c \<longrightarrow> cms_read i col c' =
        (if i \<in> set is \<and> col = cms_col h i c \<and> cms_read i col c = lowest then lowest + 1
         else cms_read i col c))"
  using assms(1-3,5) unfolding c'_def
proof (induction "is" arbitrary: c)
  case (Cons j js)
  define c1 where "c1 = cms_bump lowest cols j c"
  have j: "j < cms_depth c" "cols ! j = cms_col h j c" using Cons.prems by auto
  have up: "(lowest + 1) AND 0x0f = lowest + 1"
    using assms(4) by (intro nibble_id) (rule inc_le)
  have ok: "cms_ok c1" "cms_mask c1 = cms_mask c" "cms_depth c1 = cms_depth c" "cms_seeds c1 = cms_seeds c"
    "\<And>i. cms_col h i c1 = cms_col h i c" "\<And>i col. cms_valid i col c1 = cms_valid i col c"
    using Cons.prems(1) by (simp_all add: c1_def cms_bump_def Let_def cms_write_ok)
  have rd: "cms_read i col c1 = (if i = j \<and> col = cms_col h j c \<and> cms_read i col c = lowest then lowest + 1
      else cms_read i col c)" if "cms_valid i col c" for i col
    using cms_read_write[OF Cons.prems(1) cms_col_valid[OF j(1), of h] that] up j
    by (auto simp: c1_def cms_bump_def Let_def)
  have cols: "cols ! i = cms_col h i c1" if "i < cms_depth c1" for i
    using Cons.prems(4) that ok by simp
  have "set js \<subseteq> {..<cms_depth c1}" "distinct js" using Cons.prems(2,3) ok(3) by auto
  note IH = Cons.IH[OF ok(1) this cols, unfolded ok(2-4)]
  show ?case
    using IH Cons.prems(3) rd ok(5,6) by (auto simp: c1_def[symmetric])
qed simp

lemma cms_Increment_spec:
  assumes "cms_ok c"
  shows "cms_ok (cms_Increment h c) \<and> cms_mask (cms_Increment h c) = cms_mask c \<and>
     cms_depth (cms_Increment h c) = cms_depth c \<and> cms_seeds (cms_Increment h c) = cms_seeds c"
    and "cms_valid i col c \<Longrightarrow> cms_read i col (cms_Increment h c) =
        (if col = cms_col h i c \<and> cms_read i col c = cms_Estimate h c \<and> cms_Estimate h c < 15
         then cms_Estimate h c + 1 else cms_read i col c)"
proof -
  let ?cols = "map (\<lambda>i. cms_col h i c) [0..<cms_depth c]"
  have cols: "i < cms_depth c \<Longrightarrow> ?cols ! i = cms_col h i c" for i by simp
  have "set [0..<cms_depth c] \<subseteq> {..<cms_depth c}" "distinct [0..<cms_depth c]" by auto
  note fold = cms_Increment_fold[OF assms this _ cols, of "cms_Estimate h c"]
  show "cms_ok (cms_Increment h c) \<and> cms_mask (cms_Increment h c) = cms_mask c \<and>
     cms_depth (cms_Increment h c) = cms_depth c \<and> cms_seeds (cms_Increment h c) = cms_seeds c"
    using fold assms by (auto simp: cms_Increment_def Let_def not_le)
  show "cms_valid i col c \<Longrightarrow> cms_read i col (cms_Increment h c) =
        (if col = cms_col h i c \<and> cms_read i col c = cms_Estimate h c \<and> cms_Estimate h c < 15
         then cms_Estimate h c + 1 else cms_read i col c)"
    using fold by (auto simp: cms_Increment_def Let_def not_le cms_valid_def)
qed

section \<open>The sketch never underestimates\<close>

datatype cms_op = CmsIncrement "64 word" | CmsReset

fun cms_step :: "cms_op \<Rightarrow> cms \<Rightarrow> cms" where
  "cms_step (CmsIncrement h) c = cms_Increment h c"
| "cms_step CmsReset c = cms_Reset c"

text \<open>The exact aged frequency of one hash: increments add one up to 15, a reset halves.\<close>

fun aged_count :: "64 word \<Rightarrow> cms_op \<Rightarrow> nat \<Rightarrow> nat" where
  "aged_count h (CmsIncrement h') n = (if h' = h then min 15 (n + 1) else n)"
| "aged_count h CmsReset n = n div 2"

lemma cms_step_ok: "cms_ok c \<Longrightarrow> cms_ok (cms_step op c)"
  by (cases op) (simp_all add: cms_Increment_spec cms_Reset_ok)

lemma unat_inc: "(v :: 8 word) < 15 \<Longrightarrow> unat (v + 1) = unat v + 1"
proof -
  assume "v < 15"
  then have "v + 1 \<noteq> 0"
    by (metis inc_le not_less word_gt_0_no word_le_0_iff word_n1_ge word_not_simps(2) eq_neg_iff_add_eq_0)
  then show ?thesis by (metis Suc_eq_plus1 add.commute unatSuc)
qed

lemma cms_Estimate_nat:
  "n \<le> unat (cms_Estimate h c) \<longleftrightarrow>
   n \<le> 15 \<and> (\<forall>i < cms_depth c. n \<le> unat (cms_read i (cms_col h i c) c))"
proof (cases "n \<le> 15")
  case True
  then have "n \<le> unat x \<longleftrightarrow> of_nat n \<le> x" for x :: "8 word"
    by (simp add: word_le_nat_alt unat_of_nat)
  then show ?thesis
    using True cms_Estimate_ge[of "of_nat n" h c] by (simp add: word_le_nat_alt unat_of_nat)
next
  case False
  have "cms_Estimate h c \<le> 15" using cms_Estimate_ge[of "cms_Estimate h c" h c] by simp
  then show ?thesis using False by (simp add: word_le_nat_alt)
qed

lemma cms_step_bound:
  assumes "cms_ok c" and "n \<le> unat (cms_Estimate h c)"
  shows "aged_count h op n \<le> unat (cms_Estimate h (cms_step op c))"
proof (cases op)
  case (CmsIncrement h')
  note spec = cms_Increment_spec[OF assms(1), where h = h']
  have "cms_col h i (cms_Increment h' c) = cms_col h i c" for i
    using spec(1) by (simp add: cms_col_def)
  moreover have "(if h' = h then min 15 (n + 1) else n) \<le> unat (cms_read i (cms_col h i c) (cms_Increment h' c))"
    if i: "i < cms_depth c" for i
  proof -
    let ?v = "cms_read i (cms_col h i c) c"
    have n: "n \<le> unat ?v" using assms(2) i by (simp add: cms_Estimate_nat)
    have "h' = h \<Longrightarrow> ?v \<noteq> cms_Estimate h c \<Longrightarrow> n + 1 \<le> unat ?v"
      using assms(2) cms_Estimate_le[OF i, of h] by (simp add: word_le_nat_alt word_unat_eq_iff)
    moreover have "cms_Estimate h c < 15 \<or> 15 \<le> unat (cms_Estimate h c)"
      by (simp add: word_less_nat_alt linorder_not_less[symmetric])
    moreover have "unat (cms_Estimate h' c + 1) = unat (cms_Estimate h' c) + 1"
      if "cms_Estimate h' c < 15"
      using that by (rule unat_inc)
    moreover note spec(2)[OF cms_col_valid[OF i, of h]]
    ultimately show ?thesis
      using n assms(2) by (cases "h' = h"; cases "?v = cms_Estimate h' c"; cases "cms_Estimate h' c < 15") auto
  qed
  ultimately show ?thesis
    using CmsIncrement spec(1) assms(2) cms_Estimate_nat[of n h c]
    by (simp add: cms_Estimate_nat)
next
  case CmsReset
  have "n div 2 \<le> unat (cms_read i (cms_col h i c) (cms_Reset c))" if i: "i < cms_depth c" for i
    using assms i cms_col_valid[OF i, of h]
    by (simp add: cms_Estimate_nat cms_read_Reset drop_bit_Suc unat_div div_le_mono)
  moreover have "n div 2 \<le> 15"
    using assms(2) by (auto simp: cms_Estimate_nat intro: order_trans[OF div_le_dividend])
  ultimately show ?thesis
    using CmsReset by (simp add: cms_Estimate_nat)
qed

text \<open>The width found by doubling: a power-of-two multiple of the start, at least the target,
  and less than twice the target unless the start was already large enough.\<close>

lemma grow_spec:
  assumes "0 < w"
  shows "(\<exists>k. grow target w = w * 2 ^ k) \<and> target \<le> grow target w \<and>
     (grow target w = w \<or> grow target w < 2 * target)"
  using assms
proof (induction target w rule: grow.induct)
  case (1 target w)
  show ?case
  proof (cases "w < target")
    case True
    then have g: "grow target w = grow target (w * 2)"
      using "1.prems" by (subst grow.simps) simp
    with 1 True obtain k where "grow target (w * 2) = w * 2 * 2 ^ k" by auto
    then have "grow target w = w * 2 ^ Suc k" using g by simp
    then show ?thesis using 1 True g by (auto intro: exI[of _ "Suc k"])
  next
    case False
    then have "grow target w = w" by (subst grow.simps) simp
    then show ?thesis using False by (auto intro: exI[of _ 0])
  qed
qed

lemma cms_New_ok:
  assumes "expected \<le> 2 ^ 58"
  shows "cms_ok (cms_New expected seeds)" and "cms_read i col (cms_New expected seeds) = 0 \<or> \<not> cms_valid i col (cms_New expected seeds)"
proof -
  let ?t = "max (expected * 10) 64" and ?c = "cms_New expected seeds"
  obtain k where k: "grow ?t 64 = 64 * 2 ^ k" and le: "grow ?t 64 = 64 \<or> grow ?t 64 < 2 * ?t"
    using grow_spec[of 64 ?t] by auto
  have ev: "2 * (grow ?t 64 div 2) = grow ?t 64" unfolding k by simp
  have lt: "0 < grow ?t 64" "grow ?t 64 < 2 ^ 64" using k le assms by (auto simp: max_def split: if_splits)
  then have "uint (word_of_int (grow ?t 64 - 1) :: 64 word) = grow ?t 64 - 1"
    unfolding uint_word_of_int by simp
  then have mask: "unat (cms_mask ?c) + 1 = nat (grow ?t 64)"
    using lt by (simp add: cms_New_def Let_def unat_eq_nat_uint nat_diff_distrib)
  then have "2 * nat (grow ?t 64 div 2) = unat (cms_mask ?c) + 1"
    using ev by (metis nat_mult_distrib nat_numeral zero_le_numeral)
  moreover have "length (cms_defaultSeeds) = 4" by (simp add: cms_defaultSeeds_def)
  ultimately show ok: "cms_ok ?c"
    by (auto simp: cms_ok_def) (auto simp: cms_New_def Let_def)
  have "cms_rows ?c ! i ! unat (col div 2) = 0" if "cms_valid i col ?c"
    using cms_valid_offset[OF ok that] by (simp add: cms_New_def Let_def)
  then show "cms_read i col ?c = 0 \<or> \<not> cms_valid i col ?c"
    by (auto simp: cms_read_def Let_def nibble_defs)
qed

text \<open>C14: The frequency sketch never underestimates. For a sketch built for at most \<open>2^58\<close> keys and
  any sequence of increments and halving resets, the estimate of every hash is at least its aged
  frequency: the number of its increments, halved at each reset and capped at 15. Collisions and
  the conservative update (only the least counters are raised) cannot lower it.\<close>

theorem cms_never_underestimates:
  assumes "expected \<le> 2 ^ 58"
  shows "fold (aged_count h) ops 0 \<le> unat (cms_Estimate h (fold cms_step ops (cms_New expected seeds)))"
proof -
  have "fold (aged_count h) ops n \<le> unat (cms_Estimate h (fold cms_step ops c))"
    if "cms_ok c" "n \<le> unat (cms_Estimate h c)" for n c
    using that by (induction ops arbitrary: n c) (simp_all add: cms_step_ok cms_step_bound)
  then show ?thesis using cms_New_ok(1)[OF assms] by simp
qed

theorem cms_never_underestimates_witness:
  "2 \<le> unat (cms_Estimate 7 (fold cms_step [CmsIncrement 7, CmsIncrement 9, CmsIncrement 7,
     CmsIncrement 7, CmsReset, CmsIncrement 7] (cms_New 10 [])))"
  using cms_never_underestimates[of 10 7 "[CmsIncrement 7, CmsIncrement 9, CmsIncrement 7,
     CmsIncrement 7, CmsReset, CmsIncrement 7]" "[]"] by simp

end
