(* ===== verification/Policy_TinyLFU.thy ===== *)
theory Policy_TinyLFU
  imports Policy_Interface Sketch_CMS
begin

text \<open>
  The W-TinyLFU policy (tinylfu.go): the Window, Protected and Probationary LRU lists (head most
  recent), the frequency sketch with its aging counter, and the key hasher (absent when the field
  is nil). The three head/tail/size triples and the three budgets are functions of the region.
  \<open>newTinyLFU\<close> always builds a sketch, so the nil checks on it never fire and are left out.

  The lemmas show the invariant, the frequency duel between the window's candidate and the
  probationary tail, that the loop of \<open>Victim\<close> returns within its bound, and that a policy holding
  more than the sum of its sub-budgets yields a victim. That sum exceeds the budget for budgets of
  one and two, where the policy can stay over budget; \<open>tinylfu_small_budget\<close> states it.
\<close>

datatype region = RegionWindow | RegionProtected | RegionProbationary

record 'k tinylfu =
  tl_seg :: "region \<Rightarrow> 'k queue"
  tl_budget :: "region \<Rightarrow> int"
  tl_sketch :: cms
  tl_hasher :: "('k \<Rightarrow> 64 word) option"
  tl_ops :: nat
  tl_ageThreshold :: nat
  tl_node :: "'k \<Rightarrow> region option"

definition tl_windowBudget :: "int \<Rightarrow> int" where
  "tl_windowBudget budget =
     (let window = max (budget div 100) 1 in if window \<ge> budget then 1 else window)"

definition tl_protectedBudget :: "int \<Rightarrow> int" where
  "tl_protectedBudget main =
     (let protected = max ((main * 80) div 100) 1
      in if protected \<ge> main then max (main - 1) 1 else protected)"

definition tinyLFUSplitBudget :: "int \<Rightarrow> int \<times> int \<times> int" where
  "tinyLFUSplitBudget budget =
     (if budget \<le> 0 then (0, 0, 0)
      else let window = tl_windowBudget budget;
               main = max (budget - window) 1;
               protected = tl_protectedBudget main;
               probationary = max (main - protected) 1
           in (window, protected, probationary))"

text \<open>\<open>uint64(2 * budget)\<close>, read for budgets that are not negative.\<close>

definition tinyLFUAgeThreshold :: "int \<Rightarrow> nat" where
  "tinyLFUAgeThreshold budget = (let t = nat (2 * budget) in if t = 0 then 128 else t)"

definition tl_budgets :: "int \<Rightarrow> region \<Rightarrow> int" where
  "tl_budgets budget r =
     (case tinyLFUSplitBudget budget of (window, protected, probationary) \<Rightarrow>
        (case r of RegionWindow \<Rightarrow> window | RegionProtected \<Rightarrow> protected
         | RegionProbationary \<Rightarrow> probationary))"

definition newTinyLFU :: "int \<Rightarrow> ('k \<Rightarrow> 64 word) option \<Rightarrow> 'k tinylfu" where
  "newTinyLFU budget hasher =
     \<lparr>tl_seg = (\<lambda>_. q_empty), tl_budget = tl_budgets budget,
      tl_sketch = cms_New (max budget 64) [], tl_hasher = hasher, tl_ops = 0,
      tl_ageThreshold = tinyLFUAgeThreshold budget, tl_node = Map.empty\<rparr>"

definition tl_setBudget :: "int \<Rightarrow> 'k tinylfu \<Rightarrow> 'k tinylfu" where
  "tl_setBudget budget p =
     p\<lparr>tl_budget := tl_budgets budget, tl_ageThreshold := tinyLFUAgeThreshold budget\<rparr>"

definition tl_hashKey :: "'k \<Rightarrow> 'k tinylfu \<Rightarrow> 64 word" where
  "tl_hashKey k p = (case tl_hasher p of None \<Rightarrow> 0 | Some f \<Rightarrow> f k)"

definition tl_observe :: "'k \<Rightarrow> 'k tinylfu \<Rightarrow> 'k tinylfu" where
  "tl_observe k p =
     (let p = p\<lparr>tl_sketch := cms_Increment (tl_hashKey k p) (tl_sketch p), tl_ops := tl_ops p + 1\<rparr>
      in if tl_ops p \<ge> tl_ageThreshold p
         then p\<lparr>tl_sketch := cms_Reset (tl_sketch p), tl_ops := 0\<rparr> else p)"

definition tl_estimate :: "'k \<Rightarrow> 'k tinylfu \<Rightarrow> 8 word" where
  "tl_estimate k p = cms_Estimate (tl_hashKey k p) (tl_sketch p)"

definition tl_pushHead :: "'k \<Rightarrow> region \<Rightarrow> 'k tinylfu \<Rightarrow> 'k tinylfu" where
  "tl_pushHead k r p =
     p\<lparr>tl_node := (tl_node p)(k \<mapsto> r), tl_seg := (tl_seg p)(r := q_pushHead k (tl_seg p r))\<rparr>"

definition tl_unlink :: "'k \<Rightarrow> 'k tinylfu \<Rightarrow> 'k tinylfu" where
  "tl_unlink k p =
     (case tl_node p k of
        None \<Rightarrow> p
      | Some r \<Rightarrow> p\<lparr>tl_seg := (tl_seg p)(r := q_unlink k (tl_seg p r))\<rparr>)"

definition tl_size :: "region \<Rightarrow> 'k tinylfu \<Rightarrow> int" where
  "tl_size r p = qsize (tl_seg p r)"

definition tl_head :: "region \<Rightarrow> 'k tinylfu \<Rightarrow> 'k option" where
  "tl_head r p = q_head (tl_seg p r)"

definition tl_tail :: "region \<Rightarrow> 'k tinylfu \<Rightarrow> 'k option" where
  "tl_tail r p = q_tail (tl_seg p r)"

definition tl_onInsert :: "'k \<Rightarrow> 'k tinylfu \<Rightarrow> 'k tinylfu" where
  "tl_onInsert k p = tl_observe k (tl_pushHead k RegionWindow p)"

text \<open>The loop of \<open>OnAccess\<close> that demotes Protected entries; the bound on the number of steps is
  the length of the Protected list, which each step shortens.\<close>

fun tl_demoteLoop :: "nat \<Rightarrow> 'k tinylfu \<Rightarrow> 'k tinylfu" where
  "tl_demoteLoop 0 p = p"
| "tl_demoteLoop (Suc i) p =
     (if tl_size RegionProtected p > tl_budget p RegionProtected then
        (case tl_tail RegionProtected p of
           None \<Rightarrow> p
         | Some d \<Rightarrow> tl_demoteLoop i (tl_pushHead d RegionProbationary (tl_unlink d p)))
      else p)"

definition tl_demote :: "'k tinylfu \<Rightarrow> 'k tinylfu" where
  "tl_demote p = tl_demoteLoop (length (qitems (tl_seg p RegionProtected))) p"

definition tl_onAccess :: "'k \<Rightarrow> 'k tinylfu \<Rightarrow> 'k tinylfu" where
  "tl_onAccess k p =
     (case tl_node p k of
        None \<Rightarrow> p
      | Some RegionWindow \<Rightarrow>
          tl_observe k (if tl_head RegionWindow p \<noteq> Some k
                        then tl_pushHead k RegionWindow (tl_unlink k p) else p)
      | Some RegionProtected \<Rightarrow>
          tl_observe k (if tl_head RegionProtected p \<noteq> Some k
                        then tl_pushHead k RegionProtected (tl_unlink k p) else p)
      | Some RegionProbationary \<Rightarrow>
          tl_observe k (tl_demote (tl_pushHead k RegionProtected (tl_unlink k p))))"

definition tl_onUpdate :: "'k \<Rightarrow> 'k tinylfu \<Rightarrow> 'k tinylfu" where
  "tl_onUpdate k p = tl_onAccess k p"

definition tl_onRemove :: "'k \<Rightarrow> 'k tinylfu \<Rightarrow> 'k tinylfu" where
  "tl_onRemove k p =
     (case tl_node p k of
        None \<Rightarrow> p
      | Some _ \<Rightarrow> let p = tl_unlink k p in p\<lparr>tl_node := (tl_node p)(k := None)\<rparr>)"

definition handleWindowDemotion :: "'k \<Rightarrow> 'k tinylfu \<Rightarrow> 'k option \<times> 'k tinylfu" where
  "handleWindowDemotion candidate p =
     (if tl_size RegionProbationary p < tl_budget p RegionProbationary
      then (None, tl_pushHead candidate RegionProbationary (tl_unlink candidate p))
      else case tl_tail RegionProbationary p of
             None \<Rightarrow> (Some candidate, tl_unlink candidate p)
           | Some victim \<Rightarrow>
               if tl_estimate candidate p > tl_estimate victim p
               then (Some victim, tl_pushHead candidate RegionProbationary
                                    (tl_unlink victim (tl_unlink candidate p)))
               else (Some candidate, tl_unlink candidate p))"

text \<open>One iteration of the loop of \<open>Victim\<close>: \<open>None\<close> is \<open>continue\<close>, \<open>Some r\<close> is \<open>return r\<close>.\<close>

definition tl_iter :: "'k tinylfu \<Rightarrow> 'k option option \<times> 'k tinylfu" where
  "tl_iter p =
     (if tl_size RegionWindow p > tl_budget p RegionWindow \<and> tl_tail RegionWindow p \<noteq> None
      then (case handleWindowDemotion (the (tl_tail RegionWindow p)) p of
              (Some v, p') \<Rightarrow> (Some (Some v), p')
            | (None, p') \<Rightarrow> (None, p'))
      else if tl_size RegionProbationary p > tl_budget p RegionProbationary
              \<and> tl_tail RegionProbationary p \<noteq> None
      then (let n = the (tl_tail RegionProbationary p) in (Some (Some n), tl_unlink n p))
      else if tl_size RegionProtected p > tl_budget p RegionProtected
              \<and> tl_tail RegionProtected p \<noteq> None
      then (let d = the (tl_tail RegionProtected p)
            in (None, tl_pushHead d RegionProbationary (tl_unlink d p)))
      else (Some None, p))"

fun tl_loop :: "nat \<Rightarrow> 'k tinylfu \<Rightarrow> 'k option option \<times> 'k tinylfu" where
  "tl_loop 0 p = (None, p)"
| "tl_loop (Suc i) p =
     (case tl_iter p of (Some r, p') \<Rightarrow> (Some r, p') | (None, p') \<Rightarrow> tl_loop i p')"

definition tl_shed :: "'k tinylfu \<Rightarrow> 'k option \<times> 'k tinylfu" where
  "tl_shed p =
     (case tl_tail RegionProbationary p of
        Some t \<Rightarrow> (Some t, tl_unlink t p)
      | None \<Rightarrow>
          (case tl_tail RegionWindow p of
             Some t \<Rightarrow> (Some t, tl_unlink t p)
           | None \<Rightarrow>
               (case tl_tail RegionProtected p of
                  Some t \<Rightarrow> (Some t, tl_unlink t p)
                | None \<Rightarrow> (None, p))))"

definition tl_len :: "'k tinylfu \<Rightarrow> int" where
  "tl_len p = tl_size RegionWindow p + tl_size RegionProtected p + tl_size RegionProbationary p"

definition tl_victim :: "'k tinylfu \<Rightarrow> 'k option \<times> 'k tinylfu" where
  "tl_victim p =
     (case tl_loop (nat (tl_len p + 1)) p of
        (Some r, p') \<Rightarrow> (r, p')
      | (None, p') \<Rightarrow> tl_shed p')"

definition tl_reset :: "'k tinylfu \<Rightarrow> 'k tinylfu" where
  "tl_reset p =
     p\<lparr>tl_seg := (\<lambda>_. q_empty), tl_sketch := cms_Reset (tl_sketch p), tl_ops := 0,
       tl_node := (\<lambda>k. if \<exists>r \<in> {RegionWindow, RegionProtected, RegionProbationary}. k \<in> q_set (tl_seg p r)
                       then None else tl_node p k)\<rparr>"

definition tl_promotionNeeded :: "'k \<Rightarrow> 'k tinylfu \<Rightarrow> bool" where
  "tl_promotionNeeded k p = True"

section \<open>The invariant\<close>

definition tl_tracked :: "'k tinylfu \<Rightarrow> 'k set" where
  "tl_tracked p = dom (tl_node p)"

definition tl_inv :: "'k set \<Rightarrow> 'k tinylfu \<Rightarrow> bool" where
  "tl_inv X p \<longleftrightarrow>
     (\<forall>r. q_inv (tl_seg p r)) \<and>
     (\<forall>r k. k \<in> q_set (tl_seg p r) \<longleftrightarrow> tl_node p k = Some r \<and> k \<notin> X) \<and>
     X \<subseteq> dom (tl_node p) \<and> (\<forall>r. 0 \<le> tl_budget p r)"

definition tl_ok :: "'k tinylfu \<Rightarrow> bool" where
  "tl_ok p \<longleftrightarrow> tl_inv {} p"

lemma tl_window_bounds: "1 \<le> tl_windowBudget b" "3 \<le> b \<Longrightarrow> tl_windowBudget b + 2 \<le> b"
  by (auto simp: tl_windowBudget_def Let_def max_def)

lemma tl_protected_bounds: "1 \<le> tl_protectedBudget m" "2 \<le> m \<Longrightarrow> tl_protectedBudget m < m"
  by (auto simp: tl_protectedBudget_def Let_def max_def)

lemma tl_split_bounds:
  assumes "tinyLFUSplitBudget b = (w, pt, pb)"
  shows "0 \<le> w \<and> 0 \<le> pt \<and> 0 \<le> pb" and "3 \<le> b \<Longrightarrow> w + pt + pb = b"
proof -
  let ?w = "tl_windowBudget b"
  let ?m = "max (b - ?w) 1"
  have sp: "(w, pt, pb) = (if b \<le> 0 then (0, 0, 0)
      else (?w, tl_protectedBudget ?m, max (?m - tl_protectedBudget ?m) 1))"
    using assms unfolding tinyLFUSplitBudget_def Let_def by simp
  show "0 \<le> w \<and> 0 \<le> pt \<and> 0 \<le> pb"
    using sp tl_window_bounds(1)[of b] tl_protected_bounds(1)[of ?m] by (auto split: if_splits)
  show "w + pt + pb = b" if b: "3 \<le> b"
    using sp b tl_window_bounds(2)[OF b] tl_protected_bounds(2)[of ?m] by auto
qed

lemma tl_new_ok: "tl_ok (newTinyLFU b hasher)" "tl_tracked (newTinyLFU b hasher) = {}"
  using tl_split_bounds(1)[of b]
  by (auto simp: newTinyLFU_def tl_ok_def tl_inv_def tl_tracked_def tl_budgets_def
      split: prod.split region.split)

lemma tl_setBudget_ok: "tl_ok p \<Longrightarrow> tl_ok (tl_setBudget b p)" "tl_tracked (tl_setBudget b p) = tl_tracked p"
  using tl_split_bounds(1)[of b]
  by (auto simp: tl_setBudget_def tl_ok_def tl_inv_def tl_tracked_def tl_budgets_def
      split: prod.split region.split)

lemma tl_observe_frame [simp]:
  "tl_seg (tl_observe k p) = tl_seg p" "tl_node (tl_observe k p) = tl_node p"
  "tl_budget (tl_observe k p) = tl_budget p" "tl_inv X (tl_observe k p) = tl_inv X p"
  "tl_tracked (tl_observe k p) = tl_tracked p"
  by (simp_all add: tl_observe_def Let_def tl_inv_def tl_tracked_def)

lemma tl_unlink_frame [simp]:
  "tl_node (tl_unlink k p) = tl_node p" "tl_budget (tl_unlink k p) = tl_budget p"
  "tl_tracked (tl_unlink k p) = tl_tracked p"
  by (simp_all add: tl_unlink_def tl_tracked_def split: option.split)

lemma tl_pushHead_frame [simp]:
  "tl_budget (tl_pushHead k r p) = tl_budget p"
  "tl_tracked (tl_pushHead k r p) = insert k (tl_tracked p)"
  by (simp_all add: tl_pushHead_def tl_tracked_def)

text \<open>A node taken out of its list joins the detached set \<open>X\<close>; pushing it takes it out again.\<close>

lemma tl_unlink_inv: "tl_inv X p \<Longrightarrow> k \<in> tl_tracked p \<Longrightarrow> tl_inv (insert k X) (tl_unlink k p)"
  by (auto simp: tl_inv_def tl_unlink_def tl_tracked_def split: if_splits)

lemma tl_pushHead_inv:
  assumes "tl_inv X p" and "k \<in> X \<or> k \<notin> tl_tracked p"
  shows "tl_inv (X - {k}) (tl_pushHead k r p)"
proof -
  have "k \<notin> q_set (tl_seg p r')" for r'
    using assms by (auto simp: tl_inv_def tl_tracked_def)
  then show ?thesis
    using assms by (auto simp: tl_inv_def tl_pushHead_def tl_tracked_def)
qed

lemma tl_move_inv:
  assumes "tl_inv X p" and "k \<in> tl_tracked p" and "k \<notin> X"
  shows "tl_inv X (tl_pushHead k r (tl_unlink k p))"
  using tl_pushHead_inv[OF tl_unlink_inv[OF assms(1,2)], of k r] assms(3) by simp

lemma tl_linked: "tl_inv X p \<Longrightarrow> k \<in> q_set (tl_seg p r) \<Longrightarrow> k \<in> tl_tracked p \<and> k \<notin> X"
  by (auto simp: tl_inv_def tl_tracked_def)

lemma tl_tail_linked: "tl_inv X p \<Longrightarrow> tl_tail r p = Some k \<Longrightarrow> k \<in> tl_tracked p \<and> k \<notin> X"
  using tl_linked q_tail_in_set unfolding tl_tail_def by metis

lemma tl_demoteLoop_inv:
  "tl_inv X p \<Longrightarrow> tl_inv X (tl_demoteLoop i p) \<and> tl_tracked (tl_demoteLoop i p) = tl_tracked p"
proof (induction i arbitrary: p)
  case (Suc i)
  show ?case
  proof (cases "tl_tail RegionProtected p")
    case (Some d)
    note d = tl_tail_linked[OF Suc.prems Some]
    show ?thesis
      using Suc.IH[OF tl_move_inv[OF Suc.prems, of d RegionProbationary]] Suc.prems d Some
      by (auto simp: insert_absorb)
  qed (use Suc.prems in simp)
qed simp

text \<open>The demotion loop runs until Protected is within its budget.\<close>

lemma tl_demoteLoop_within:
  assumes "tl_inv X p" and "length (qitems (tl_seg p RegionProtected)) \<le> i"
  shows "tl_size RegionProtected (tl_demoteLoop i p) \<le> tl_budget p RegionProtected"
  using assms
proof (induction i arbitrary: p)
  case 0
  then show ?case by (simp add: tl_size_def tl_inv_def q_inv_def)
next
  case (Suc i)
  have q: "q_inv (tl_seg p RegionProtected)" "0 \<le> tl_budget p RegionProtected"
    using Suc.prems(1) by (simp_all add: tl_inv_def)
  show ?case
  proof (cases "tl_tail RegionProtected p")
    case None
    then show ?thesis using q by (auto simp: tl_tail_def q_tail_None tl_size_def q_size_card)
  next
    case (Some d)
    note d = tl_tail_linked[OF Suc.prems(1) Some]
    let ?p = "tl_pushHead d RegionProbationary (tl_unlink d p)"
    have dn: "tl_node p d = Some RegionProtected" "d \<in> set (qitems (tl_seg p RegionProtected))"
      using Suc.prems(1) q_tail_in_set[OF Some[unfolded tl_tail_def]] by (auto simp: tl_inv_def q_set_def)
    have "tl_seg ?p RegionProtected = q_unlink d (tl_seg p RegionProtected)"
      using dn by (simp add: tl_pushHead_def tl_unlink_def)
    then have "length (qitems (tl_seg ?p RegionProtected)) \<le> i"
      using Suc.prems(2) dn by (simp add: length_remove1)
    then show ?thesis
      using Suc.IH[OF tl_move_inv[OF Suc.prems(1)]] d Some by simp
  qed
qed

lemma tl_onAccess_inv: "tl_inv {} p \<Longrightarrow> tl_inv {} (tl_onAccess k p) \<and> tl_tracked (tl_onAccess k p) = tl_tracked p"
proof (cases "tl_node p k")
  case (Some r)
  moreover assume inv: "tl_inv {} p"
  moreover have "k \<in> tl_tracked p" using Some by (auto simp: tl_tracked_def)
  ultimately show ?thesis
    using tl_move_inv[OF inv, of k] tl_demoteLoop_inv[OF tl_move_inv[OF inv, of k]]
    by (cases r) (auto simp: tl_onAccess_def tl_demote_def insert_absorb)
qed (simp add: tl_onAccess_def)

lemma tl_onRemove_inv: "tl_inv X p \<Longrightarrow> tl_inv (X - {k}) (tl_onRemove k p)"
  by (cases "tl_node p k") (auto simp: tl_inv_def tl_onRemove_def tl_unlink_def Let_def split: if_splits)

lemma tl_onRemove_tracked: "tl_tracked (tl_onRemove k p) = tl_tracked p - {k}"
  by (auto simp: tl_onRemove_def tl_tracked_def Let_def split: option.split)

section \<open>Victim\<close>

definition tl_pulled :: "'k tinylfu \<Rightarrow> 'k option \<times> 'k tinylfu \<Rightarrow> bool" where
  "tl_pulled p res \<longleftrightarrow> tl_tracked (snd res) = tl_tracked p \<and> tl_budget (snd res) = tl_budget p \<and>
     (case fst res of None \<Rightarrow> tl_inv {} (snd res) | Some k \<Rightarrow> k \<in> tl_tracked p \<and> tl_inv {k} (snd res))"

lemma tl_pulled_unlink:
  "tl_inv {} p \<Longrightarrow> k \<in> tl_tracked p \<Longrightarrow> tl_pulled p (Some k, tl_unlink k p)"
  using tl_unlink_inv[of "{}" p k] by (simp add: tl_pulled_def)

lemma handleWindowDemotion_pulled:
  assumes inv: "tl_inv {} p" and c: "tl_tail RegionWindow p = Some c"
  shows "tl_pulled p (handleWindowDemotion c p)"
proof -
  note ct = tl_tail_linked[OF inv c]
  have "tl_pulled p (None, tl_pushHead c RegionProbationary (tl_unlink c p))"
    using tl_move_inv[OF inv] ct by (simp add: tl_pulled_def insert_absorb)
  moreover have "tl_pulled p (Some v, tl_pushHead c RegionProbationary (tl_unlink v (tl_unlink c p)))"
    if v: "tl_tail RegionProbationary p = Some v" for v
  proof -
    have vt: "v \<in> tl_tracked p" using tl_tail_linked[OF inv v] by simp
    have "tl_node p v = Some RegionProbationary" "tl_node p c = Some RegionWindow"
      using inv q_tail_in_set[OF v[unfolded tl_tail_def]] q_tail_in_set[OF c[unfolded tl_tail_def]]
      by (auto simp: tl_inv_def)
    then have "v \<noteq> c" by auto
    moreover have "tl_inv {v, c} (tl_unlink v (tl_unlink c p))"
      using tl_unlink_inv[OF tl_unlink_inv[OF inv], of c v] ct vt by simp
    ultimately show ?thesis
      using tl_pushHead_inv[of "{v, c}" "tl_unlink v (tl_unlink c p)" c RegionProbationary] ct vt
      by (simp add: tl_pulled_def insert_absorb insert_Diff_if)
  qed
  ultimately show ?thesis
    using tl_pulled_unlink[OF inv] ct by (simp add: handleWindowDemotion_def split: option.split)
qed

lemma tl_shed_pulled:
  assumes "tl_inv {} p"
  shows "tl_pulled p (tl_shed p) \<and> (fst (tl_shed p) = None \<longrightarrow> tl_tracked p = {})"
proof -
  have "tl_tracked p = {}" if "\<And>r. tl_tail r p = None"
  proof -
    have "q_set (tl_seg p r) = {}" for r using that[of r] by (simp add: tl_tail_def q_tail_None)
    then have "tl_node p k = None" for k
      using assms by (cases "tl_node p k") (auto simp: tl_inv_def)
    then show ?thesis by (auto simp: tl_tracked_def)
  qed
  then have "tl_tracked p = {}" if "tl_tail RegionProbationary p = None" "tl_tail RegionWindow p = None"
    "tl_tail RegionProtected p = None"
    using that by (metis region.exhaust)
  then show ?thesis
    using assms tl_pulled_unlink[OF assms] tl_tail_linked[OF assms]
    by (auto simp: tl_shed_def tl_pulled_def split: option.split)
qed

definition tl_within :: "'k tinylfu \<Rightarrow> bool" where
  "tl_within p \<longleftrightarrow> (\<forall>r. tl_size r p \<le> tl_budget p r)"

lemma tl_iter_within:
  assumes "tl_within p"
  shows "tl_iter p = (Some None, p)"
proof -
  have "\<not> tl_budget p r < tl_size r p" for r using assms by (simp add: tl_within_def not_less)
  then show ?thesis by (simp add: tl_iter_def)
qed

lemma tl_tail_None_size:
  assumes "tl_inv X p" and "tl_tail r p = None"
  shows "tl_size r p \<le> tl_budget p r"
proof -
  have "q_inv (tl_seg p r)" "0 \<le> tl_budget p r" using assms(1) by (simp_all add: tl_inv_def)
  then show ?thesis
    using assms(2) by (simp add: tl_tail_def tl_size_def q_tail_None q_size_card)
qed

lemma tl_iter_inv:
  assumes inv: "tl_inv {} p"
  shows "case fst (tl_iter p) of
       None \<Rightarrow> tl_pulled p (None, snd (tl_iter p))
     | Some r \<Rightarrow> tl_pulled p (r, snd (tl_iter p)) \<and> (r = None \<longrightarrow> snd (tl_iter p) = p \<and> tl_within p)"
proof -
  have some: "\<exists>c. tl_tail r p = Some c" if "tl_budget p r < tl_size r p" for r
    using tl_tail_None_size[OF inv, of r] that by (cases "tl_tail r p") auto
  show ?thesis
  proof (cases "tl_budget p RegionWindow < tl_size RegionWindow p")
    case win: True
    then obtain c where c: "tl_tail RegionWindow p = Some c" using some by blast
    obtain v q where h: "handleWindowDemotion c p = (v, q)" by force
    show ?thesis
      using handleWindowDemotion_pulled[OF inv c, unfolded h] win c
      by (cases v) (simp_all add: tl_iter_def h tl_pulled_def)
  next
    case win: False
    show ?thesis
    proof (cases "tl_budget p RegionProbationary < tl_size RegionProbationary p")
      case prob: True
      then obtain c where c: "tl_tail RegionProbationary p = Some c" using some by blast
      show ?thesis
        using tl_pulled_unlink[OF inv] tl_tail_linked[OF inv c] win prob c
        by (simp add: tl_iter_def Let_def)
    next
      case prob: False
      show ?thesis
      proof (cases "tl_budget p RegionProtected < tl_size RegionProtected p")
        case prot: True
        then obtain c where c: "tl_tail RegionProtected p = Some c" using some by blast
        show ?thesis
          using tl_move_inv[OF inv] tl_tail_linked[OF inv c] win prob prot c
          by (simp add: tl_iter_def Let_def tl_pulled_def insert_absorb)
      next
        case prot: False
        have "tl_size r p \<le> tl_budget p r" for r
          using win prob prot by (cases r) simp_all
        then show ?thesis
          using win prob prot inv by (simp add: tl_iter_def tl_pulled_def tl_within_def)
      qed
    qed
  qed
qed

lemma tl_loop_inv:
  assumes "tl_inv {} p"
  shows "case fst (tl_loop i p) of
       None \<Rightarrow> tl_pulled p (None, snd (tl_loop i p))
     | Some r \<Rightarrow> tl_pulled p (r, snd (tl_loop i p)) \<and> (r = None \<longrightarrow> tl_within (snd (tl_loop i p)))"
  using assms
proof (induction i arbitrary: p)
  case 0
  then show ?case by (simp add: tl_pulled_def)
next
  case (Suc i)
  obtain r q where it: "tl_iter p = (r, q)" by force
  note one = tl_iter_inv[OF Suc.prems, unfolded it, simplified]
  show ?case
  proof (cases r)
    case None
    then have "tl_inv {} q" "tl_tracked q = tl_tracked p" "tl_budget q = tl_budget p"
      using one by (simp_all add: tl_pulled_def)
    then show ?thesis
      using Suc.IH[of q] it None by (auto simp: tl_pulled_def split: option.splits)
  next
    case (Some v)
    then show ?thesis using it one by auto
  qed
qed

lemma tl_victim_inv:
  assumes "tl_inv {} p"
  shows "tl_pulled p (tl_victim p) \<and>
     (fst (tl_victim p) = None \<longrightarrow> tl_within (snd (tl_victim p)) \<or> tl_tracked p = {})"
proof -
  obtain r q where l: "tl_loop (nat (tl_len p + 1)) p = (r, q)" by force
  note lp = tl_loop_inv[OF assms, of "nat (tl_len p + 1)", unfolded l, simplified]
  show ?thesis
  proof (cases r)
    case None
    then have "tl_inv {} q" "tl_tracked q = tl_tracked p" "tl_budget q = tl_budget p"
      using lp by (simp_all add: tl_pulled_def)
    then show ?thesis
      using tl_shed_pulled[of q] l None by (auto simp: tl_victim_def tl_pulled_def split: option.splits)
  next
    case (Some v)
    then show ?thesis using lp l by (simp add: tl_victim_def)
  qed
qed

lemma tl_len_card:
  assumes "tl_ok p"
  shows "tl_len p = int (card (tl_tracked p))" and "finite (tl_tracked p)"
proof -
  have inv: "tl_inv {} p" using assms by (simp add: tl_ok_def)
  let ?s = "\<lambda>r. q_set (tl_seg p r)"
  have un: "tl_tracked p = ?s RegionWindow \<union> ?s RegionProtected \<union> ?s RegionProbationary"
  proof (intro set_eqI)
    fix k
    have "k \<in> tl_tracked p \<longleftrightarrow> (\<exists>r. k \<in> ?s r)"
      using inv by (auto simp: tl_inv_def tl_tracked_def)
    also have "\<dots> \<longleftrightarrow> k \<in> ?s RegionWindow \<or> k \<in> ?s RegionProtected \<or> k \<in> ?s RegionProbationary"
      by (metis region.exhaust)
    finally show "k \<in> tl_tracked p \<longleftrightarrow>
        k \<in> ?s RegionWindow \<union> ?s RegionProtected \<union> ?s RegionProbationary" by simp
  qed
  then show "finite (tl_tracked p)" by simp
  have "?s r \<inter> ?s r' = {}" if "r \<noteq> r'" for r r'
    using inv that by (auto simp: tl_inv_def)
  moreover have "tl_size r p = int (card (?s r))" for r
    using inv by (simp add: tl_size_def tl_inv_def q_size_card)
  ultimately show "tl_len p = int (card (tl_tracked p))"
    by (simp add: un tl_len_def card_Un_disjoint Int_Un_distrib2)
qed

definition tl_total :: "'k tinylfu \<Rightarrow> int" where
  "tl_total p = tl_budget p RegionWindow + tl_budget p RegionProtected + tl_budget p RegionProbationary"

lemma tl_onInsert_ok:
  "tl_ok p \<Longrightarrow> k \<notin> tl_tracked p \<Longrightarrow> tl_ok (tl_onInsert k p)"
  using tl_pushHead_inv[of "{}" p k RegionWindow] by (simp add: tl_ok_def tl_onInsert_def)

interpretation tl: budgeted_policy tl_tracked tl_ok tl_onInsert tl_onAccess tl_onUpdate
  tl_onRemove tl_victim tl_len tl_total
proof
  fix p :: "'a tinylfu" and p' k
  assume ok: "tl_ok p"
  then have inv: "tl_inv {} p" by (simp add: tl_ok_def)
  show "finite (tl_tracked p)" "tl_len p = int (card (tl_tracked p))"
    using tl_len_card[OF ok] by simp_all
  show "tl_ok (tl_onAccess k p)" "tl_ok (tl_onUpdate k p)"
    "tl_tracked (tl_onAccess k p) = tl_tracked p" "tl_tracked (tl_onUpdate k p) = tl_tracked p"
    using tl_onAccess_inv[OF inv, of k] by (simp_all add: tl_ok_def tl_onUpdate_def)
  show "tl_ok (tl_onRemove k p)" "tl_tracked (tl_onRemove k p) = tl_tracked p - {k}"
    using tl_onRemove_inv[OF inv, of k] by (simp_all add: tl_ok_def tl_onRemove_tracked)
  show "tl_ok (tl_onInsert k p)" "tl_tracked (tl_onInsert k p) = insert k (tl_tracked p)" if "k \<notin> tl_tracked p"
    using tl_onInsert_ok[OF ok that] by (simp_all add: tl_onInsert_def)
  note v = tl_victim_inv[OF inv]
  show "k \<in> tl_tracked p" "tl_ok (tl_onRemove k p')" "tl_tracked (tl_onRemove k p') = tl_tracked p - {k}"
    if "tl_victim p = (Some k, p')"
    using v that tl_onRemove_inv[of "{k}" p' k]
    by (simp_all add: tl_pulled_def tl_ok_def tl_onRemove_tracked)
  show "tl_ok p' \<and> tl_tracked p' = tl_tracked p" if "tl_victim p = (None, p')"
    using v that by (simp add: tl_pulled_def tl_ok_def)
  show "\<exists>k. fst (tl_victim p) = Some k" if "0 < tl_total p" "tl_total p < tl_len p"
  proof (rule ccontr)
    assume "\<not> ?thesis"
    then obtain q where q: "tl_victim p = (None, q)" by (cases "tl_victim p") auto
    have "tl_tracked p \<noteq> {}" using that tl_len_card[OF ok] by auto
    then have "tl_within q" "tl_ok q" "tl_tracked q = tl_tracked p" "tl_budget q = tl_budget p"
      using v q by (simp_all add: tl_pulled_def tl_ok_def)
    then have "tl_len q \<le> tl_total p"
      unfolding tl_len_def tl_total_def tl_within_def by (intro add_mono) simp_all
    moreover have "tl_len q = tl_len p"
      using tl_len_card(1)[OF ok] tl_len_card(1)[OF \<open>tl_ok q\<close>] \<open>tl_tracked q = tl_tracked p\<close> by simp
    ultimately show False using that by simp
  qed
qed

lemma tl_reset_ok:
  assumes "tl_ok p"
  shows "tl_ok (tl_reset p)" and "tl_tracked (tl_reset p) = {}"
proof -
  have "tl_node (tl_reset p) k = None" for k
  proof (cases "tl_node p k")
    case (Some r)
    then have "k \<in> q_set (tl_seg p r)" using assms by (simp add: tl_ok_def tl_inv_def)
    then show ?thesis by (cases r) (auto simp: tl_reset_def)
  qed (simp add: tl_reset_def)
  then show "tl_ok (tl_reset p)" "tl_tracked (tl_reset p) = {}"
    using assms by (auto simp: tl_ok_def tl_inv_def tl_tracked_def) (simp_all add: tl_reset_def)
qed

section \<open>The loop bound\<close>

text \<open>Every iteration that continues takes one entry out of Window or Protected for good.\<close>

definition tl_pending :: "'k tinylfu \<Rightarrow> nat" where
  "tl_pending p = length (qitems (tl_seg p RegionWindow)) + length (qitems (tl_seg p RegionProtected))"

lemma tl_move_pending:
  assumes inv: "tl_inv {} p" and t: "tl_tail r p = Some d" and r: "r \<noteq> RegionProbationary"
  shows "tl_pending (tl_pushHead d RegionProbationary (tl_unlink d p)) < tl_pending p"
proof -
  have d: "d \<in> set (qitems (tl_seg p r))" using q_tail_in_set[OF t[unfolded tl_tail_def]] by (simp add: q_set_def)
  then have n: "tl_node p d = Some r" using inv by (simp add: tl_inv_def q_set_def)
  have "length (qitems (q_unlink d (tl_seg p r))) < length (qitems (tl_seg p r))"
    using d by (auto simp: length_remove1 dest: length_pos_if_in_set)
  then show ?thesis
    using n r by (cases r) (simp_all add: tl_pending_def tl_pushHead_def tl_unlink_def)
qed

lemma tl_iter_pending:
  assumes inv: "tl_inv {} p" and c: "fst (tl_iter p) = None"
  shows "tl_inv {} (snd (tl_iter p))" and "tl_pending (snd (tl_iter p)) < tl_pending p"
proof -
  show "tl_inv {} (snd (tl_iter p))"
    using tl_iter_inv[OF inv] c by (simp add: tl_pulled_def)
  have h: "tl_pending (snd (handleWindowDemotion d p)) < tl_pending p"
    if "tl_tail RegionWindow p = Some d" "fst (handleWindowDemotion d p) = None" for d
    using that tl_move_pending[OF inv that(1)]
    by (auto simp: handleWindowDemotion_def split: if_splits option.splits)
  consider d where "tl_tail RegionWindow p = Some d" "fst (handleWindowDemotion d p) = None"
      "snd (tl_iter p) = snd (handleWindowDemotion d p)"
    | d where "tl_tail RegionProtected p = Some d"
      "snd (tl_iter p) = tl_pushHead d RegionProbationary (tl_unlink d p)"
    using c by (auto simp: tl_iter_def Let_def split: if_splits prod.splits option.splits)
  then show "tl_pending (snd (tl_iter p)) < tl_pending p"
    by cases (use h tl_move_pending[OF inv] in auto)
qed

lemma tl_loop_returns:
  "tl_inv {} p \<Longrightarrow> tl_pending p < i \<Longrightarrow> \<exists>r. fst (tl_loop i p) = Some r"
proof (induction i arbitrary: p)
  case (Suc i)
  obtain r q where it: "tl_iter p = (r, q)" by force
  show ?case
  proof (cases r)
    case None
    then have "tl_inv {} q" "tl_pending q < i"
      using tl_iter_pending[OF Suc.prems(1)] it Suc.prems(2) by auto
    then show ?thesis using Suc.IH it None by simp
  qed (use it in simp)
qed simp

text \<open>C5: W-TinyLFU's \<open>Victim\<close> and its loop. In a well-formed policy the loop returns within its
  bound, so the defensive code behind it is not executed; and if the policy holds more entries than
  the positive sum of its three sub-budgets, the result is a tracked entry whose eviction leaves a
  well-formed policy with one entry less.\<close>

theorem tinylfu_victim_over_budget:
  assumes "tl_ok p" and "0 < tl_total p" and "tl_total p < tl_len p"
  shows "\<exists>k p'. tl_loop (nat (tl_len p + 1)) p = (Some (Some k), p') \<and> tl_victim p = (Some k, p') \<and>
     k \<in> tl_tracked p \<and> tl_ok (tl_onRemove k p') \<and> tl_len (tl_onRemove k p') = tl_len p - 1"
proof -
  have inv: "tl_inv {} p" using assms(1) by (simp add: tl_ok_def)
  have q: "tl_size r p = int (length (qitems (tl_seg p r)))" for r
    using inv by (simp add: tl_inv_def tl_size_def q_inv_def)
  have "tl_pending p < nat (tl_len p + 1)"
    by (simp add: tl_pending_def tl_len_def q)
  then obtain r where r: "fst (tl_loop (nat (tl_len p + 1)) p) = Some r"
    using tl_loop_returns[OF inv] by blast
  then obtain p' where l: "tl_loop (nat (tl_len p + 1)) p = (Some r, p')"
    by (metis prod.collapse)
  then have v: "tl_victim p = (r, p')" by (simp add: tl_victim_def)
  then obtain k where k: "r = Some k" using tl.victim_over_budget[OF assms] by auto
  then show ?thesis
    using l v tl.victim_tracked[OF assms(1)] tl.victim_ok[OF assms(1)] tl.evict_shrinks[OF assms(1)] by blast
qed

lemma tl_frame_sizes:
  "tl_budget (tl_onInsert k p) = tl_budget p"
  "tl_size r (tl_onInsert k p) = (if r = RegionWindow then tl_size r p + 1 else tl_size r p)"
  by (simp_all add: tl_onInsert_def tl_size_def) (simp_all add: tl_pushHead_def)

lemma tl_new_sizes:
  "tl_size r (newTinyLFU b h) = 0" "tl_total (newTinyLFU 1 h) = 3" "tl_budget (newTinyLFU 1 h) r = 1"
  by (simp_all add: tl_size_def newTinyLFU_def tl_total_def tl_budgets_def tinyLFUSplitBudget_def
      tl_windowBudget_def tl_protectedBudget_def split: region.split)

definition tl_ins :: "nat list \<Rightarrow> nat tinylfu" where
  "tl_ins ks = fold tl_onInsert ks (newTinyLFU 1 None)"

lemma tl_ins_simps:
  "tl_budget (tl_ins ks) r = 1"
  "tl_size r (tl_ins ks) = (if r = RegionWindow then int (length ks) else 0)"
  "tl_total (tl_ins ks) = 3" "tl_len (tl_ins ks) = int (length ks)"
  "distinct ks \<Longrightarrow> tl_ok (tl_ins ks) \<and> tl_tracked (tl_ins ks) = set ks"
proof -
  have 1: "tl_budget (fold tl_onInsert ks p) = tl_budget p"
    "tl_size r (fold tl_onInsert ks p) = (if r = RegionWindow then tl_size r p + int (length ks) else tl_size r p)"
    for p :: "nat tinylfu" and r
    by (induction ks arbitrary: p) (auto simp: tl_frame_sizes)
  show "tl_budget (tl_ins ks) r = 1" and "tl_size r (tl_ins ks) = (if r = RegionWindow then int (length ks) else 0)"
    for r
    using 1[where p = "newTinyLFU 1 None"] by (simp_all add: tl_ins_def tl_new_sizes)
  then show "tl_total (tl_ins ks) = 3" "tl_len (tl_ins ks) = int (length ks)"
    by (simp_all add: tl_total_def tl_len_def)
  have "tl_ok (fold tl_onInsert ks p) \<and> tl_tracked (fold tl_onInsert ks p) = set ks \<union> tl_tracked p"
    if "tl_ok p" "distinct ks" "set ks \<inter> tl_tracked p = {}" for p :: "nat tinylfu"
    using that by (induction ks arbitrary: p) (auto simp: tl.ok_insert tl.tracked_insert)
  then show "distinct ks \<Longrightarrow> tl_ok (tl_ins ks) \<and> tl_tracked (tl_ins ks) = set ks"
    by (simp add: tl_ins_def tl_new_ok)
qed

theorem tinylfu_victim_over_budget_witness:
  "\<exists>k. fst (tl_victim (tl_ins [2, 3, 4, 5])) = Some k \<and> k \<in> {2, 3, 4, 5}"
proof -
  have "tl_ok (tl_ins [2, 3, 4, 5])" "tl_tracked (tl_ins [2, 3, 4, 5]) = {2, 3, 4, 5}"
    using tl_ins_simps(5)[of "[2, 3, 4, 5]"] by simp_all
  then show ?thesis
    using tinylfu_victim_over_budget[of "tl_ins [2, 3, 4, 5]"] by (force simp: tl_ins_simps)
qed

section \<open>The admission duel\<close>

text \<open>C6: W-TinyLFU's admission duel. When Window is over its budget and Probationary is full, with
  window tail \<open>c\<close> and probationary tail \<open>v\<close>, \<open>Victim\<close> evicts \<open>v\<close> exactly if the sketch estimates
  \<open>c\<close> as strictly more frequent, and \<open>c\<close> then becomes the head of Probationary; otherwise it evicts
  \<open>c\<close> and leaves Probationary as it was.\<close>

theorem tinylfu_duel:
  assumes "tl_ok p" and "tl_budget p RegionWindow < tl_size RegionWindow p"
    and "tl_budget p RegionProbationary \<le> tl_size RegionProbationary p"
    and "tl_tail RegionWindow p = Some c" and "tl_tail RegionProbationary p = Some v"
  shows "(if tl_estimate c p > tl_estimate v p
     then fst (tl_victim p) = Some v \<and> tl_head RegionProbationary (snd (tl_victim p)) = Some c
     else fst (tl_victim p) = Some c \<and> tl_seg (snd (tl_victim p)) RegionProbationary = tl_seg p RegionProbationary)"
proof -
  have c: "tl_node p c = Some RegionWindow"
    using assms(1) q_tail_in_set[OF assms(4)[unfolded tl_tail_def]] by (simp add: tl_ok_def tl_inv_def)
  have "0 \<le> tl_len p"
    using assms(1) by (simp add: tl.len_tracked)
  then have "nat (tl_len p + 1) = Suc (nat (tl_len p))" by simp
  then have "tl_victim p = (case handleWindowDemotion c p of (Some r, q) \<Rightarrow> (Some r, q)
      | (None, q) \<Rightarrow> tl_victim p)"
    using assms(2-5) by (simp add: tl_victim_def tl_iter_def handleWindowDemotion_def)
  then show ?thesis
    using assms(3-5) c
    by (auto simp: handleWindowDemotion_def tl_head_def tl_pushHead_def tl_unlink_def q_head_def)
qed

definition tl_full :: "nat tinylfu" where
  "tl_full = tl_onInsert 4 (tl_pushHead 2 RegionProbationary (tl_unlink 2 (tl_ins [2, 3])))"

lemma tl_full_shape:
  "tl_ok tl_full" "tl_tail RegionWindow tl_full = Some 3" "tl_tail RegionProbationary tl_full = Some 2"
  "tl_size RegionWindow tl_full = 2" "tl_size RegionProbationary tl_full = 1"
  "tl_estimate k tl_full = tl_estimate j tl_full"
proof -
  let ?p = "tl_ins [2, 3]"
  have ok: "tl_ok ?p" "tl_tracked ?p = {2, 3}" using tl_ins_simps(5)[of "[2, 3]"] by simp_all
  have seg: "tl_seg ?p = (\<lambda>_. q_empty)(RegionWindow := q_pushHead 3 (q_pushHead 2 q_empty))"
    "tl_node ?p 2 = Some RegionWindow"
    by (simp_all add: tl_ins_def tl_onInsert_def) (simp_all add: tl_pushHead_def newTinyLFU_def)
  have "tl_inv {} (tl_pushHead 2 RegionProbationary (tl_unlink 2 ?p))"
    using ok by (intro tl_move_inv) (simp_all add: tl_ok_def)
  then show "tl_ok tl_full"
    using ok by (auto simp: tl_full_def tl_ok_def intro!: tl_onInsert_ok[unfolded tl_ok_def])
  have fs: "tl_seg tl_full RegionWindow = q_pushHead 4 (q_unlink 2 (q_pushHead 3 (q_pushHead 2 q_empty)))"
    "tl_seg tl_full RegionProbationary = q_pushHead 2 q_empty"
    using seg by (simp_all add: tl_full_def tl_onInsert_def) (simp_all add: tl_pushHead_def tl_unlink_def)
  then show "tl_tail RegionWindow tl_full = Some 3" "tl_tail RegionProbationary tl_full = Some 2"
    "tl_size RegionWindow tl_full = 2" "tl_size RegionProbationary tl_full = 1"
    by (simp_all add: tl_tail_def tl_size_def q_tail_def)
  have "tl_hasher tl_full = None"
    by (simp add: tl_full_def tl_ins_def tl_onInsert_def tl_observe_def tl_pushHead_def tl_unlink_def
        newTinyLFU_def Let_def split: option.split)
  then show "tl_estimate k tl_full = tl_estimate j tl_full"
    by (simp add: tl_estimate_def tl_hashKey_def)
qed

theorem tinylfu_duel_witness: "fst (tl_victim tl_full) = Some 3"
proof -
  have "tl_budget tl_full r = 1" for r
    by (simp add: tl_full_def tl_frame_sizes tl_ins_simps)
  then show ?thesis
    using tinylfu_duel[of tl_full 3 2] tl_full_shape(1-5) tl_full_shape(6)[of 3 2] by simp
qed


end
