(* ===== verification/Ghost.thy ===== *)
theory Ghost
  imports Queue
begin

text \<open>
  The key-only ghost queues of 2Q (\<open>A1out\<close>) and ARC (\<open>B1\<close>, \<open>B2\<close>): a queue of keys with its
  counter, and the map from keys to queue nodes, of which only the key set matters. 2Q records at
  the tail and drops from the head; ARC records at the head and drops from the tail. \<open>gh_trim\<close> is
  the loop that drops records while there are more than a limit.
\<close>

datatype gside = AtHead | AtTail

record 'k ghost =
  gh_queue :: "'k queue"
  gh_set :: "'k set"

definition gh_empty :: "'k ghost" where
  "gh_empty = \<lparr>gh_queue = q_empty, gh_set = {}\<rparr>"

definition gh_unlink :: "'k \<Rightarrow> 'k ghost \<Rightarrow> 'k ghost" where
  "gh_unlink k g = \<lparr>gh_queue = q_unlink k (gh_queue g), gh_set = gh_set g - {k}\<rparr>"

definition gh_size :: "'k ghost \<Rightarrow> int" where
  "gh_size g = qsize (gh_queue g)"

definition gh_end :: "gside \<Rightarrow> 'k ghost \<Rightarrow> 'k option" where
  "gh_end side g = (case side of AtHead \<Rightarrow> q_head (gh_queue g) | AtTail \<Rightarrow> q_tail (gh_queue g))"

lemma gh_end_in: "gh_end side g = Some k \<Longrightarrow> k \<in> q_set (gh_queue g)"
  by (cases side) (auto simp: gh_end_def dest: q_head_in_set q_tail_in_set)

lemma gh_end_None: "gh_end side g = None \<longleftrightarrow> q_set (gh_queue g) = {}"
  by (cases side) (simp_all add: gh_end_def q_head_None q_tail_None)

function gh_trim :: "gside \<Rightarrow> int \<Rightarrow> 'k ghost \<Rightarrow> 'k ghost" where
  "gh_trim side limit g =
     (case gh_end side g of
        None \<Rightarrow> g
      | Some k \<Rightarrow> if gh_size g > limit then gh_trim side limit (gh_unlink k g) else g)"
  by pat_completeness auto
termination
proof (relation "measure (\<lambda>(side, limit, g). length (qitems (gh_queue g)))")
  fix side limit and g :: "'k ghost" and k
  assume "gh_end side g = Some k"
  then have "k \<in> set (qitems (gh_queue g))" using gh_end_in by (force simp: q_set_def)
  then show "((side, limit, gh_unlink k g), side, limit, g)
      \<in> measure (\<lambda>(side, limit, g). length (qitems (gh_queue g)))"
    by (auto simp: gh_unlink_def length_remove1 dest: length_pos_if_in_set)
qed simp

declare gh_trim.simps [simp del]

definition gh_recordTail :: "int \<Rightarrow> 'k \<Rightarrow> 'k ghost \<Rightarrow> 'k ghost" where
  "gh_recordTail limit k g =
     (if k \<in> gh_set g then g
      else gh_trim AtHead limit
        \<lparr>gh_queue = q_pushTail k (gh_queue g), gh_set = insert k (gh_set g)\<rparr>)"

definition gh_recordHead :: "int \<Rightarrow> 'k \<Rightarrow> 'k ghost \<Rightarrow> 'k ghost" where
  "gh_recordHead limit k g =
     (if k \<in> gh_set g then g
      else gh_trim AtTail limit
        \<lparr>gh_queue = q_pushHead k (gh_queue g), gh_set = insert k (gh_set g)\<rparr>)"

definition gh_ok :: "'k ghost \<Rightarrow> bool" where
  "gh_ok g \<longleftrightarrow> q_inv (gh_queue g) \<and> gh_set g = q_set (gh_queue g)"

lemma gh_empty_simps [simp]: "gh_ok gh_empty" "gh_set gh_empty = {}" "gh_size gh_empty = 0"
  by (simp_all add: gh_ok_def gh_empty_def gh_size_def)

lemma gh_ok_unlink [simp]: "gh_ok g \<Longrightarrow> gh_ok (gh_unlink k g)"
  by (simp add: gh_ok_def gh_unlink_def)

lemma gh_set_unlink [simp]: "gh_set (gh_unlink k g) = gh_set g - {k}"
  by (simp add: gh_unlink_def)

lemma gh_size_unlink: "gh_size (gh_unlink k g) \<le> gh_size g"
  by (simp add: gh_size_def gh_unlink_def)

lemma gh_size_card: "gh_ok g \<Longrightarrow> gh_size g = int (card (gh_set g))"
  by (simp add: gh_ok_def gh_size_def q_size_card)

lemma gh_unlink_shorter:
  "gh_end side g = Some k \<Longrightarrow>
   length (qitems (gh_queue (gh_unlink k g))) < length (qitems (gh_queue g))"
  using gh_end_in[of side g k]
  by (auto simp: gh_unlink_def q_set_def length_remove1 dest: length_pos_if_in_set)

lemma gh_trim_stop: "gh_end side g = None \<or> gh_size g \<le> limit \<Longrightarrow> gh_trim side limit g = g"
  by (subst gh_trim.simps) (auto split: option.split)

lemma gh_trim_next:
  "gh_end side g = Some k \<Longrightarrow> gh_size g > limit \<Longrightarrow>
   gh_trim side limit g = gh_trim side limit (gh_unlink k g)"
  by (subst gh_trim.simps) simp

lemma gh_trim_cases [case_names Stop Next]:
  assumes stop: "\<And>g. gh_end side g = None \<or> gh_size g \<le> limit \<Longrightarrow> P g g"
    and nxt: "\<And>g k. gh_end side g = Some k \<Longrightarrow> gh_size g > limit \<Longrightarrow>
          P (gh_unlink k g) (gh_trim side limit (gh_unlink k g)) \<Longrightarrow>
          P g (gh_trim side limit (gh_unlink k g))"
  shows "P g (gh_trim side limit g)"
proof (induction "length (qitems (gh_queue g))" arbitrary: g rule: less_induct)
  case less
  show ?case
  proof (cases "gh_end side g = None \<or> gh_size g \<le> limit")
    case True
    then show ?thesis using stop by (simp add: gh_trim_stop)
  next
    case False
    then obtain k where "gh_end side g = Some k" "gh_size g > limit" by auto
    then show ?thesis
      using nxt less[OF gh_unlink_shorter] by (simp add: gh_trim_next)
  qed
qed

text \<open>Trimming keeps a well-formed ghost queue, only drops records, and ends within the limit.\<close>

lemma gh_trim_sub: "gh_set (gh_trim side limit g) \<subseteq> gh_set g"
  by (induction g rule: gh_trim_cases[of side limit]) auto

lemma gh_trim_ok: "gh_ok g \<Longrightarrow> gh_ok (gh_trim side limit g)"
  by (induction g rule: gh_trim_cases[of side limit]) auto

lemma gh_trim_size: "gh_ok g \<Longrightarrow> 0 \<le> limit \<Longrightarrow> gh_size (gh_trim side limit g) \<le> limit"
proof (induction g rule: gh_trim_cases[of side limit])
  case (Stop g)
  then show ?case
    by (auto simp: gh_end_None gh_ok_def gh_size_def q_size_card)
next
  case (Next g k)
  then show ?case by simp
qed

lemma gh_trim_size_le: "gh_size (gh_trim side limit g) \<le> gh_size g"
proof (induction g rule: gh_trim_cases[of side limit])
  case (Next g k)
  then show ?case using gh_size_unlink[of k g] by simp
qed simp

lemma gh_record_ok [simp]:
  assumes "gh_ok g"
  shows "gh_ok (gh_recordTail limit k g)" and "gh_ok (gh_recordHead limit k g)"
proof -
  have "k \<notin> gh_set g \<Longrightarrow> gh_ok \<lparr>gh_queue = q_pushTail k (gh_queue g), gh_set = insert k (gh_set g)\<rparr>"
    "k \<notin> gh_set g \<Longrightarrow> gh_ok \<lparr>gh_queue = q_pushHead k (gh_queue g), gh_set = insert k (gh_set g)\<rparr>"
    using assms by (auto simp: gh_ok_def)
  then show "gh_ok (gh_recordTail limit k g)" "gh_ok (gh_recordHead limit k g)"
    using assms by (simp_all add: gh_recordTail_def gh_recordHead_def gh_trim_ok)
qed

lemma gh_record_sub:
  "gh_set (gh_recordTail limit k g) \<subseteq> insert k (gh_set g)"
  "gh_set (gh_recordHead limit k g) \<subseteq> insert k (gh_set g)"
  by (simp_all add: gh_recordTail_def gh_recordHead_def subset_insertI
      gh_trim_sub[THEN order_trans])

lemma gh_record_size:
  assumes "gh_ok g" and "0 \<le> limit" and "gh_size g \<le> bound" and "limit \<le> bound"
  shows "gh_size (gh_recordTail limit k g) \<le> bound" and "gh_size (gh_recordHead limit k g) \<le> bound"
proof -
  have "k \<notin> gh_set g \<Longrightarrow> gh_ok \<lparr>gh_queue = q_pushTail k (gh_queue g), gh_set = insert k (gh_set g)\<rparr>"
    "k \<notin> gh_set g \<Longrightarrow> gh_ok \<lparr>gh_queue = q_pushHead k (gh_queue g), gh_set = insert k (gh_set g)\<rparr>"
    using assms by (auto simp: gh_ok_def)
  from gh_trim_size[OF this(1) assms(2)] gh_trim_size[OF this(2) assms(2)]
  show "gh_size (gh_recordTail limit k g) \<le> bound" "gh_size (gh_recordHead limit k g) \<le> bound"
    using assms by (auto simp: gh_recordTail_def gh_recordHead_def intro: order_trans)
qed

end
