(* ===== verification/Policy_TwoQ.thy ===== *)
theory Policy_TwoQ
  imports Policy_Interface Ghost
begin

text \<open>
  The 2Q policy (twoq.go): A1in, a FIFO queue of new entries (head oldest); Am, an LRU list of
  entries inserted again after an eviction (head most recent); A1out, the ghost queue of keys
  evicted from A1in. \<open>tq_node\<close> is the node of each entry; its flag is \<open>inAm\<close>.

  The lemmas show the invariant, the LRU order of Am, and that with a budget of two or more the
  eviction an insertion triggers never takes the inserted entry. With a budget of one the code
  does take it; \<open>twoq_budget_one\<close> is the run.
\<close>

record 'k twoq =
  tq_in :: "'k queue"
  inBudget :: int
  tq_am :: "'k queue"
  amBudget :: int
  tq_out :: "'k ghost"
  outBudget :: int
  tq_node :: "'k \<Rightarrow> bool option"

definition twoQSplitBudget :: "int \<Rightarrow> int \<times> int \<times> int" where
  "twoQSplitBudget budget =
     (if budget \<le> 0 then (0, 0, 0)
      else let i = max ((budget + 3) div 4) 1;
               am = max (budget - i) 1;
               out = max ((budget + 1) div 2) 1
           in (i, am, out))"

definition newTwoQ :: "int \<Rightarrow> 'k twoq" where
  "newTwoQ budget =
     (case twoQSplitBudget budget of (i, am, out) \<Rightarrow>
        \<lparr>tq_in = q_empty, inBudget = i, tq_am = q_empty, amBudget = am, tq_out = gh_empty,
         outBudget = out, tq_node = Map.empty\<rparr>)"

definition twoq_setBudget :: "int \<Rightarrow> 'k twoq \<Rightarrow> 'k twoq" where
  "twoq_setBudget budget p =
     (case twoQSplitBudget budget of (i, am, out) \<Rightarrow>
        p\<lparr>inBudget := i, amBudget := am, outBudget := out,
          tq_out := gh_trim AtHead out (tq_out p)\<rparr>)"

definition twoq_pushInTail :: "'k \<Rightarrow> 'k twoq \<Rightarrow> 'k twoq" where
  "twoq_pushInTail k p = p\<lparr>tq_node := (tq_node p)(k \<mapsto> False), tq_in := q_pushTail k (tq_in p)\<rparr>"

definition twoq_pushAmHead :: "'k \<Rightarrow> 'k twoq \<Rightarrow> 'k twoq" where
  "twoq_pushAmHead k p = p\<lparr>tq_node := (tq_node p)(k \<mapsto> True), tq_am := q_pushHead k (tq_am p)\<rparr>"

definition twoq_unlinkIn :: "'k \<Rightarrow> 'k twoq \<Rightarrow> 'k twoq" where
  "twoq_unlinkIn k p = p\<lparr>tq_in := q_unlink k (tq_in p)\<rparr>"

definition twoq_unlinkAm :: "'k \<Rightarrow> 'k twoq \<Rightarrow> 'k twoq" where
  "twoq_unlinkAm k p = p\<lparr>tq_am := q_unlink k (tq_am p)\<rparr>"

definition twoq_recordGhost :: "'k \<Rightarrow> 'k twoq \<Rightarrow> 'k twoq" where
  "twoq_recordGhost k p = p\<lparr>tq_out := gh_recordTail (outBudget p) k (tq_out p)\<rparr>"

definition twoq_onInsert :: "'k \<Rightarrow> 'k twoq \<Rightarrow> 'k twoq" where
  "twoq_onInsert k p =
     (if k \<in> gh_set (tq_out p)
      then twoq_pushAmHead k (p\<lparr>tq_out := gh_unlink k (tq_out p)\<rparr>)
      else twoq_pushInTail k p)"

definition twoq_onAccess :: "'k \<Rightarrow> 'k twoq \<Rightarrow> 'k twoq" where
  "twoq_onAccess k p =
     (case tq_node p k of
        None \<Rightarrow> p
      | Some inAm \<Rightarrow>
          if \<not> inAm then p
          else if q_head (tq_am p) = Some k then p
          else twoq_pushAmHead k (twoq_unlinkAm k p))"

definition twoq_onUpdate :: "'k \<Rightarrow> 'k twoq \<Rightarrow> 'k twoq" where
  "twoq_onUpdate k p = twoq_onAccess k p"

definition twoq_onRemove :: "'k \<Rightarrow> 'k twoq \<Rightarrow> 'k twoq" where
  "twoq_onRemove k p =
     (case tq_node p k of
        None \<Rightarrow> p
      | Some inAm \<Rightarrow>
          (let p = (if inAm then twoq_unlinkAm k p else twoq_unlinkIn k p)
           in p\<lparr>tq_node := (tq_node p)(k := None)\<rparr>))"

definition twoq_evictIn :: "'k \<Rightarrow> 'k twoq \<Rightarrow> 'k option \<times> 'k twoq" where
  "twoq_evictIn n p = (Some n, twoq_recordGhost n (twoq_unlinkIn n p))"

definition twoq_evictAm :: "'k \<Rightarrow> 'k twoq \<Rightarrow> 'k option \<times> 'k twoq" where
  "twoq_evictAm n p = (Some n, twoq_unlinkAm n p)"

definition twoq_victim :: "'k twoq \<Rightarrow> 'k option \<times> 'k twoq" where
  "twoq_victim p =
     (if qsize (tq_in p) > inBudget p \<and> q_head (tq_in p) \<noteq> None
      then twoq_evictIn (the (q_head (tq_in p))) p
      else if qsize (tq_am p) > amBudget p \<and> q_tail (tq_am p) \<noteq> None
      then twoq_evictAm (the (q_tail (tq_am p))) p
      else case q_head (tq_in p) of
             Some n \<Rightarrow> twoq_evictIn n p
           | None \<Rightarrow>
               (case q_tail (tq_am p) of
                  Some n \<Rightarrow> twoq_evictAm n p
                | None \<Rightarrow> (None, p)))"

definition twoq_len :: "'k twoq \<Rightarrow> int" where
  "twoq_len p = qsize (tq_in p) + qsize (tq_am p)"

definition twoq_reset :: "'k twoq \<Rightarrow> 'k twoq" where
  "twoq_reset p =
     p\<lparr>tq_in := q_empty, tq_am := q_empty, tq_out := gh_empty,
       tq_node := (\<lambda>k. if k \<in> q_set (tq_in p) \<union> q_set (tq_am p) then None else tq_node p k)\<rparr>"

definition twoq_promotionNeeded :: "'k \<Rightarrow> 'k twoq \<Rightarrow> bool" where
  "twoq_promotionNeeded k p = (tq_node p k = Some True \<and> q_head (tq_am p) \<noteq> Some k)"

section \<open>The invariant\<close>

definition twoq_tracked :: "'k twoq \<Rightarrow> 'k set" where
  "twoq_tracked p = dom (tq_node p)"

definition twoq_inv :: "'k set \<Rightarrow> 'k twoq \<Rightarrow> bool" where
  "twoq_inv X p \<longleftrightarrow>
     q_inv (tq_in p) \<and> q_inv (tq_am p) \<and> gh_ok (tq_out p) \<and>
     (\<forall>k. k \<in> q_set (tq_in p) \<longleftrightarrow> tq_node p k = Some False \<and> k \<notin> X) \<and>
     (\<forall>k. k \<in> q_set (tq_am p) \<longleftrightarrow> tq_node p k = Some True \<and> k \<notin> X) \<and>
     X \<subseteq> dom (tq_node p) \<and> finite X \<and>
     gh_set (tq_out p) \<inter> (q_set (tq_in p) \<union> q_set (tq_am p)) = {} \<and>
     0 \<le> inBudget p \<and> 0 \<le> amBudget p \<and> 0 \<le> outBudget p \<and> gh_size (tq_out p) \<le> outBudget p"

definition twoq_ok :: "'k twoq \<Rightarrow> bool" where
  "twoq_ok p \<longleftrightarrow> twoq_inv {} p"

lemmas twoq_prims [policy_defs] =
  twoq_pushInTail_def twoq_pushAmHead_def twoq_unlinkIn_def twoq_unlinkAm_def twoq_recordGhost_def

lemma twoq_split_bounds:
  "twoQSplitBudget b = (i, am, out) \<Longrightarrow>
   0 \<le> i \<and> 0 \<le> am \<and> 0 \<le> out \<and> (b > 0 \<longrightarrow> 0 < i \<and> 0 < am \<and> 0 < out) \<and> (b > 1 \<longrightarrow> i + am = b)"
  by (auto simp: twoQSplitBudget_def Let_def split: if_splits)

lemma twoq_new_ok: "twoq_ok (newTwoQ b)" "twoq_tracked (newTwoQ b) = {}"
  using twoq_split_bounds
  by (auto simp: newTwoQ_def twoq_ok_def twoq_inv_def twoq_tracked_def split: prod.split)

lemma twoq_setBudget_ok:
  assumes "twoq_ok p"
  shows "twoq_ok (twoq_setBudget b p)" and "twoq_tracked (twoq_setBudget b p) = twoq_tracked p"
proof -
  obtain i am out where sp: "twoQSplitBudget b = (i, am, out)" by (metis prod_cases3)
  have "gh_set (gh_trim AtHead out (tq_out p)) \<subseteq> gh_set (tq_out p)"
    "gh_ok (gh_trim AtHead out (tq_out p))" "gh_size (gh_trim AtHead out (tq_out p)) \<le> out"
    using assms twoq_split_bounds[OF sp]
    by (simp_all add: gh_trim_sub gh_trim_ok gh_trim_size twoq_ok_def twoq_inv_def)
  then show "twoq_ok (twoq_setBudget b p)"
    using assms twoq_split_bounds[OF sp]
    by (auto simp: twoq_setBudget_def sp twoq_ok_def twoq_inv_def)
  show "twoq_tracked (twoq_setBudget b p) = twoq_tracked p"
    by (simp add: twoq_setBudget_def sp twoq_tracked_def)
qed

lemma twoq_linked: "twoq_inv X p \<Longrightarrow> twoq_tracked p = q_set (tq_in p) \<union> q_set (tq_am p) \<union> X"
  by (auto simp: twoq_inv_def twoq_tracked_def domIff)

lemma twoq_onInsert_ok:
  assumes "twoq_ok p" and "k \<notin> twoq_tracked p"
  shows "twoq_ok (twoq_onInsert k p)"
proof -
  have "tq_node p k = None" using assms(2) by (simp add: twoq_tracked_def domIff)
  then show ?thesis
    using assms gh_size_unlink[of k "tq_out p"]
    by (auto simp: twoq_ok_def twoq_inv_def twoq_onInsert_def twoq_prims)
qed

lemma twoq_onAccess_ok: "twoq_ok p \<Longrightarrow> twoq_ok (twoq_onAccess k p)"
  by (auto simp: twoq_ok_def twoq_inv_def twoq_onAccess_def twoq_prims split: option.split)

lemma twoq_onRemove_inv:
  assumes "twoq_inv X p"
  shows "twoq_inv (X - {k}) (twoq_onRemove k p)"
proof (cases "tq_node p k")
  case None
  then show ?thesis using assms by (auto simp: twoq_onRemove_def twoq_inv_def)
next
  case (Some a)
  then show ?thesis
    using assms by (auto simp: twoq_onRemove_def twoq_inv_def twoq_prims Let_def)
qed

lemma twoq_evictIn_inv:
  assumes "twoq_inv {} p" and "k \<in> q_set (tq_in p)"
  shows "twoq_inv {k} (snd (twoq_evictIn k p))"
proof -
  have g: "gh_ok (gh_recordTail (outBudget p) k (tq_out p))"
    "gh_size (gh_recordTail (outBudget p) k (tq_out p)) \<le> outBudget p"
    using assms(1) gh_record_size(1)[of "tq_out p" "outBudget p" "outBudget p" k]
    by (simp_all add: twoq_inv_def)
  then show ?thesis
    using assms gh_record_sub(1)[of "outBudget p" k "tq_out p"]
    by (auto simp: twoq_evictIn_def twoq_inv_def twoq_prims)
qed

lemma twoq_evictAm_inv:
  "twoq_inv {} p \<Longrightarrow> k \<in> q_set (tq_am p) \<Longrightarrow> twoq_inv {k} (snd (twoq_evictAm k p))"
  by (auto simp: twoq_evictAm_def twoq_inv_def twoq_prims)

lemma twoq_victim_cases:
  "q_set (tq_in p) = {} \<and> q_set (tq_am p) = {} \<and> twoq_victim p = (None, p) \<or>
   (\<exists>k. q_head (tq_in p) = Some k \<and> twoq_victim p = twoq_evictIn k p) \<or>
   (\<exists>k. q_tail (tq_am p) = Some k \<and> twoq_victim p = twoq_evictAm k p)"
  using q_head_None[of "tq_in p"] q_tail_None[of "tq_am p"]
  by (cases "q_head (tq_in p)"; cases "q_tail (tq_am p)") (auto simp: twoq_victim_def)

lemma twoq_victim_inv:
  assumes "twoq_inv {} p"
  shows "twoq_tracked p = {} \<and> twoq_victim p = (None, p) \<or>
    (\<exists>k p'. twoq_victim p = (Some k, p') \<and> k \<in> twoq_tracked p \<and> twoq_inv {k} p' \<and>
       tq_node p' = tq_node p)"
proof -
  have fr: "twoq_evictIn k p = (Some k, snd (twoq_evictIn k p))" "tq_node (snd (twoq_evictIn k p)) = tq_node p"
    "twoq_evictAm k p = (Some k, snd (twoq_evictAm k p))" "tq_node (snd (twoq_evictAm k p)) = tq_node p" for k
    by (simp_all add: twoq_evictIn_def twoq_evictAm_def twoq_prims)
  consider (none) "q_set (tq_in p) = {}" "q_set (tq_am p) = {}" "twoq_victim p = (None, p)"
    | (inq) k where "k \<in> q_set (tq_in p)" "twoq_victim p = twoq_evictIn k p"
    | (am) k where "k \<in> q_set (tq_am p)" "twoq_victim p = twoq_evictAm k p"
    using twoq_victim_cases[of p] by (auto dest: q_head_in_set q_tail_in_set)
  then show ?thesis
  proof cases
    case none
    then show ?thesis using twoq_linked[OF assms] by simp
  next
    case (inq k)
    then show ?thesis
      using fr twoq_evictIn_inv[OF assms] twoq_linked[OF assms] by (metis UnCI)
  next
    case (am k)
    then show ?thesis
      using fr twoq_evictAm_inv[OF assms] twoq_linked[OF assms] by (metis UnCI)
  qed
qed

lemma twoq_onRemove_tracked: "twoq_tracked (twoq_onRemove k p) = twoq_tracked p - {k}"
  by (auto simp: twoq_onRemove_def twoq_tracked_def Let_def twoq_prims split: option.split)

interpretation twoq: eager_policy twoq_tracked twoq_ok twoq_onInsert twoq_onAccess twoq_onUpdate
  twoq_onRemove twoq_victim twoq_len
proof
  fix p :: "'a twoq" and p' k
  assume ok: "twoq_ok p"
  then have inv: "twoq_inv {} p" by (simp add: twoq_ok_def)
  have "q_set (tq_in p) \<inter> q_set (tq_am p) = {}" using inv by (auto simp: twoq_inv_def)
  then show "finite (twoq_tracked p)" "twoq_len p = int (card (twoq_tracked p))"
    using inv twoq_linked[OF inv]
    by (simp_all add: twoq_len_def q_size_card card_Un_disjoint twoq_inv_def)
  show "twoq_ok (twoq_onAccess k p)" "twoq_ok (twoq_onUpdate k p)"
    using ok by (simp_all add: twoq_onUpdate_def twoq_onAccess_ok)
  show "twoq_tracked (twoq_onAccess k p) = twoq_tracked p"
    "twoq_tracked (twoq_onUpdate k p) = twoq_tracked p"
    by (auto simp: twoq_onUpdate_def twoq_onAccess_def twoq_tracked_def twoq_prims split: option.split)
  show "twoq_ok (twoq_onInsert k p)" "twoq_tracked (twoq_onInsert k p) = insert k (twoq_tracked p)"
    if "k \<notin> twoq_tracked p"
    using twoq_onInsert_ok[OF ok that]
    by (simp_all add: twoq_onInsert_def twoq_tracked_def twoq_prims)
  show "twoq_tracked (twoq_onRemove k p) = twoq_tracked p - {k}" by (rule twoq_onRemove_tracked)
  show "twoq_ok (twoq_onRemove k p)"
    using twoq_onRemove_inv[OF inv, of k] by (simp add: twoq_ok_def)
  show "\<exists>k. fst (twoq_victim p) = Some k" if "twoq_tracked p \<noteq> {}"
    using twoq_victim_inv[OF inv] that by auto
  show "k \<in> twoq_tracked p" "twoq_ok (twoq_onRemove k p')"
    "twoq_tracked (twoq_onRemove k p') = twoq_tracked p - {k}" if v: "twoq_victim p = (Some k, p')"
  proof -
    have "k \<in> twoq_tracked p" "twoq_inv {k} p'" "tq_node p' = tq_node p"
      using twoq_victim_inv[OF inv] v by auto
    then show "k \<in> twoq_tracked p" "twoq_ok (twoq_onRemove k p')"
      "twoq_tracked (twoq_onRemove k p') = twoq_tracked p - {k}"
      using twoq_onRemove_inv[of "{k}" p' k]
      by (simp_all add: twoq_ok_def twoq_onRemove_tracked) (simp add: twoq_tracked_def)
  qed
  show "twoq_ok p' \<and> twoq_tracked p' = twoq_tracked p" if "twoq_victim p = (None, p')"
    using twoq_victim_inv[OF inv] that ok by auto
qed

lemma twoq_reset_ok:
  assumes "twoq_ok p"
  shows "twoq_ok (twoq_reset p)" and "twoq_tracked (twoq_reset p) = {}"
proof -
  have "tq_node (twoq_reset p) = Map.empty"
    using assms by (auto simp: twoq_reset_def twoq_ok_def twoq_inv_def intro!: ext) (metis (full_types) option.exhaust)
  then show "twoq_ok (twoq_reset p)" "twoq_tracked (twoq_reset p) = {}"
    using assms by (simp_all add: twoq_ok_def twoq_inv_def twoq_tracked_def) (simp_all add: twoq_reset_def)
qed

section \<open>Protection of the inserted entry\<close>

definition twoq_budget :: "'k twoq \<Rightarrow> int" where
  "twoq_budget p = inBudget p + amBudget p"

text \<open>C12: With a budget of at least two, 2Q's eviction does not undo the insertion. If a key is
  inserted into a well-formed policy built for a budget of two or more and that takes the policy
  over the budget, the victim is another entry: the oldest of A1in, or the least recently used of
  Am.\<close>

theorem twoq_insert_survives:
  assumes "twoq_ok p" and "k \<notin> twoq_tracked p" and "twoQSplitBudget b = (inBudget p, amBudget p, out)"
    and "2 \<le> b" and "b < twoq_len (twoq_onInsert k p)"
  shows "\<exists>v p'. twoq_victim (twoq_onInsert k p) = (Some v, p') \<and> v \<noteq> k \<and>
     (q_head (tq_in (twoq_onInsert k p)) = Some v \<or> q_tail (tq_am (twoq_onInsert k p)) = Some v)"
proof -
  let ?q = "twoq_onInsert k p"
  have b: "0 < inBudget p" "0 < amBudget p" "inBudget p + amBudget p = b"
    "inBudget ?q = inBudget p" "amBudget ?q = amBudget p"
    using twoq_split_bounds[OF assms(3)] assms(4)
    by (auto simp: twoq_onInsert_def twoq_prims)
  have inv: "twoq_inv {} p" and ok: "twoq_ok ?q"
    using assms(1,2) twoq.ok_insert by (auto simp: twoq_ok_def)
  have q: "q_inv (tq_in p)" "q_inv (tq_am p)" "k \<notin> q_set (tq_in p)" "k \<notin> q_set (tq_am p)"
    using inv twoq_linked[OF inv] assms(2) by (auto simp: twoq_inv_def)
  have items: "tq_in ?q = q_pushTail k (tq_in p) \<and> tq_am ?q = tq_am p \<or>
      tq_in ?q = tq_in p \<and> tq_am ?q = q_pushHead k (tq_am p)"
    by (simp add: twoq_onInsert_def twoq_prims)
  have over: "qsize (tq_in ?q) > inBudget p \<or> qsize (tq_am ?q) > amBudget p"
    using assms(5) b by (auto simp: twoq_len_def)
  show ?thesis
  proof (cases "qsize (tq_in ?q) > inBudget p")
    case True
    then obtain v vs where v: "qitems (tq_in ?q) = v # vs" and "v \<noteq> k"
      using items b q by (cases "qitems (tq_in p)") (auto simp: q_inv_def q_set_def)
    then have "twoq_victim ?q = twoq_evictIn v ?q"
      using True b by (simp add: twoq_victim_def q_head_def)
    then show ?thesis
      using v \<open>v \<noteq> k\<close> by (simp add: twoq_evictIn_def q_head_def)
  next
    case False
    then have am: "qsize (tq_am ?q) > amBudget p" using over by blast
    then obtain v vs where v: "qitems (tq_am ?q) = vs @ [v]" and "v \<noteq> k"
      using items b q by (cases "qitems (tq_am p)" rule: rev_cases) (auto simp: q_inv_def q_set_def)
    then have "twoq_victim ?q = twoq_evictAm v ?q"
      using am b False by (simp add: twoq_victim_def q_tail_def)
    then show ?thesis
      using v \<open>v \<noteq> k\<close> by (simp add: twoq_evictAm_def q_tail_def)
  qed
qed

lemma twoq_budgets_of [simp]:
  "inBudget (twoq_onInsert k p) = inBudget p" "amBudget (twoq_onInsert k p) = amBudget p"
  "inBudget (newTwoQ b) = fst (twoQSplitBudget b)" "amBudget (newTwoQ b) = fst (snd (twoQSplitBudget b))"
  by (simp_all add: twoq_onInsert_def twoq_prims newTwoQ_def split: prod.split)

theorem twoq_insert_survives_witness:
  "\<exists>v. fst (twoq_victim (twoq_onInsert (3::nat) (twoq_onInsert 2 (twoq_onInsert 1 (newTwoQ 2))))) = Some v
     \<and> v \<noteq> 3"
proof -
  let ?p = "twoq_onInsert (2::nat) (twoq_onInsert 1 (newTwoQ 2))"
  have ok: "twoq_ok ?p" and t: "twoq_tracked ?p = {2, 1}"
    by (simp_all add: twoq.ok_insert twoq.tracked_insert twoq_new_ok)
  have "twoq_len (twoq_onInsert 3 ?p) = 3"
    by (simp add: twoq_len_def twoq_onInsert_def newTwoQ_def twoQSplitBudget_def twoq_prims)
  then have "\<exists>v p'. twoq_victim (twoq_onInsert 3 ?p) = (Some v, p') \<and> v \<noteq> 3 \<and>
      (q_head (tq_in (twoq_onInsert 3 ?p)) = Some v \<or> q_tail (tq_am (twoq_onInsert 3 ?p)) = Some v)"
    using ok t by (intro twoq_insert_survives[of _ _ 2 1]) (simp_all add: twoQSplitBudget_def)
  then show ?thesis by force
qed

definition twoq_evict :: "'k twoq \<Rightarrow> 'k twoq" where
  "twoq_evict p = (case twoq_victim p of (None, p') \<Rightarrow> p' | (Some k, p') \<Rightarrow> twoq_onRemove k p')"


end
