(* ===== verification/Policy_ARC.thy ===== *)
theory Policy_ARC
  imports Policy_Interface Ghost
begin

text \<open>
  The ARC policy (arc.go): the resident LRU lists T1 (seen once) and T2 (seen again), the ghost
  lists B1 and B2 of keys evicted from each, the capacity \<open>c\<close> and the adaptive target \<open>p\<close> of
  \<open>|T1|\<close>. \<open>arc_node\<close> is the node of each entry; its flag is \<open>inT2\<close>.

  The lemmas show the structural invariant, the range of the target, the bounds of the ghost
  lists, the choice \<open>Victim\<close> makes between the lists, and that the eviction an insertion triggers
  spares the inserted entry. The bound \<open>|T1| + |B1| \<le> c\<close> that the source states is not an
  invariant of the code; \<open>arc_directory_bound\<close> is the run that breaks it.
\<close>

record 'k arc =
  arc_c :: int
  arc_p :: int
  arc_t1 :: "'k queue"
  arc_t2 :: "'k queue"
  arc_b1 :: "'k ghost"
  arc_b2 :: "'k ghost"
  arc_recent :: "'k option"
  arc_node :: "'k \<Rightarrow> bool option"

definition newARC :: "int \<Rightarrow> 'k arc" where
  "newARC budget =
     \<lparr>arc_c = max budget 1, arc_p = 0, arc_t1 = q_empty, arc_t2 = q_empty, arc_b1 = gh_empty,
      arc_b2 = gh_empty, arc_recent = None, arc_node = Map.empty\<rparr>"

definition arc_setBudget :: "int \<Rightarrow> 'k arc \<Rightarrow> 'k arc" where
  "arc_setBudget budget p =
     (let p = p\<lparr>arc_c := max budget 1\<rparr>;
          p = (if arc_p p > arc_c p then p\<lparr>arc_p := arc_c p\<rparr> else p);
          limit1 = max (arc_c p - qsize (arc_t1 p)) 0;
          p = p\<lparr>arc_b1 := gh_trim AtTail limit1 (arc_b1 p)\<rparr>;
          limit2 = max (2 * arc_c p - qsize (arc_t2 p)) 0
      in p\<lparr>arc_b2 := gh_trim AtTail limit2 (arc_b2 p)\<rparr>)"

definition arc_pushT1Head :: "'k \<Rightarrow> 'k arc \<Rightarrow> 'k arc" where
  "arc_pushT1Head k p = p\<lparr>arc_node := (arc_node p)(k \<mapsto> False), arc_t1 := q_pushHead k (arc_t1 p)\<rparr>"

definition arc_pushT2Head :: "'k \<Rightarrow> 'k arc \<Rightarrow> 'k arc" where
  "arc_pushT2Head k p = p\<lparr>arc_node := (arc_node p)(k \<mapsto> True), arc_t2 := q_pushHead k (arc_t2 p)\<rparr>"

definition arc_unlinkT1 :: "'k \<Rightarrow> 'k arc \<Rightarrow> 'k arc" where
  "arc_unlinkT1 k p = p\<lparr>arc_t1 := q_unlink k (arc_t1 p)\<rparr>"

definition arc_unlinkT2 :: "'k \<Rightarrow> 'k arc \<Rightarrow> 'k arc" where
  "arc_unlinkT2 k p = p\<lparr>arc_t2 := q_unlink k (arc_t2 p)\<rparr>"

definition arc_recordB1 :: "'k \<Rightarrow> 'k arc \<Rightarrow> 'k arc" where
  "arc_recordB1 k p =
     p\<lparr>arc_b1 := gh_recordHead (max (arc_c p - qsize (arc_t1 p)) 0) k (arc_b1 p)\<rparr>"

definition arc_recordB2 :: "'k \<Rightarrow> 'k arc \<Rightarrow> 'k arc" where
  "arc_recordB2 k p =
     p\<lparr>arc_b2 := gh_recordHead (max (2 * arc_c p - qsize (arc_t2 p)) 0) k (arc_b2 p)\<rparr>"

definition arc_inB1 :: "'k \<Rightarrow> 'k arc \<Rightarrow> bool" where
  "arc_inB1 k p = (k \<in> gh_set (arc_b1 p))"

definition arc_inB2 :: "'k \<Rightarrow> 'k arc \<Rightarrow> bool" where
  "arc_inB2 k p = (k \<in> gh_set (arc_b2 p))"

definition arc_removeFromB1 :: "'k \<Rightarrow> 'k arc \<Rightarrow> 'k arc" where
  "arc_removeFromB1 k p =
     (if k \<in> gh_set (arc_b1 p) then p\<lparr>arc_b1 := gh_unlink k (arc_b1 p)\<rparr> else p)"

definition arc_removeFromB2 :: "'k \<Rightarrow> 'k arc \<Rightarrow> 'k arc" where
  "arc_removeFromB2 k p =
     (if k \<in> gh_set (arc_b2 p) then p\<lparr>arc_b2 := gh_unlink k (arc_b2 p)\<rparr> else p)"

text \<open>The step \<open>delta\<close> of the target: at least one, and the ratio of the ghost lists when the
  other one is longer. Both sizes are non-negative, where \<open>div\<close> is Go's division.\<close>

definition arc_delta :: "int \<Rightarrow> int \<Rightarrow> int" where
  "arc_delta mine other = (if mine > 0 \<and> other > mine then max (other div mine) 1 else 1)"

definition arc_onInsert :: "'k \<Rightarrow> 'k arc \<Rightarrow> 'k arc" where
  "arc_onInsert k p =
     (let p = p\<lparr>arc_recent := Some k\<rparr>
      in if arc_inB1 k p
         then let delta = arc_delta (gh_size (arc_b1 p)) (gh_size (arc_b2 p));
                  p = p\<lparr>arc_p := min (arc_p p + delta) (arc_c p)\<rparr>
              in arc_pushT2Head k (arc_removeFromB1 k p)
         else if arc_inB2 k p
         then let delta = arc_delta (gh_size (arc_b2 p)) (gh_size (arc_b1 p));
                  p = p\<lparr>arc_p := max (arc_p p - delta) 0\<rparr>
              in arc_pushT2Head k (arc_removeFromB2 k p)
         else arc_pushT1Head k p)"

definition arc_onAccess :: "'k \<Rightarrow> 'k arc \<Rightarrow> 'k arc" where
  "arc_onAccess k p =
     (case arc_node p k of
        None \<Rightarrow> p
      | Some inT2 \<Rightarrow>
          if \<not> inT2 then arc_pushT2Head k (arc_unlinkT1 k p)
          else if q_head (arc_t2 p) \<noteq> Some k then arc_pushT2Head k (arc_unlinkT2 k p)
          else p)"

definition arc_onUpdate :: "'k \<Rightarrow> 'k arc \<Rightarrow> 'k arc" where
  "arc_onUpdate k p = arc_onAccess k p"

definition arc_onRemove :: "'k \<Rightarrow> 'k arc \<Rightarrow> 'k arc" where
  "arc_onRemove k p =
     (case arc_node p k of
        None \<Rightarrow> p
      | Some inT2 \<Rightarrow>
          (let p = (if inT2 then arc_unlinkT2 k p else arc_unlinkT1 k p);
               p = (if arc_recent p = Some k then p\<lparr>arc_recent := None\<rparr> else p)
           in p\<lparr>arc_node := (arc_node p)(k := None)\<rparr>))"

definition arc_evictT1 :: "'k \<Rightarrow> 'k arc \<Rightarrow> 'k option \<times> 'k arc" where
  "arc_evictT1 n p = (Some n, arc_recordB1 n (arc_unlinkT1 n p))"

definition arc_evictT2 :: "'k \<Rightarrow> 'k arc \<Rightarrow> 'k option \<times> 'k arc" where
  "arc_evictT2 n p = (Some n, arc_recordB2 n (arc_unlinkT2 n p))"

text \<open>The choice of the list, and the exception for the entry just inserted.\<close>

definition arc_useT1 :: "'k arc \<Rightarrow> bool" where
  "arc_useT1 p =
     (let useT1 = (qsize (arc_t1 p) > 0 \<and> (qsize (arc_t2 p) = 0 \<or> qsize (arc_t1 p) > arc_p p))
      in if useT1 \<and> q_tail (arc_t1 p) = arc_recent p \<and> q_tail (arc_t2 p) \<noteq> None then False
         else if \<not> useT1 \<and> q_tail (arc_t2 p) = arc_recent p \<and> q_tail (arc_t1 p) \<noteq> None then True
         else useT1)"

definition arc_victim :: "'k arc \<Rightarrow> 'k option \<times> 'k arc" where
  "arc_victim p =
     (if qsize (arc_t1 p) + qsize (arc_t2 p) = 0 then (None, p)
      else if arc_useT1 p \<and> q_tail (arc_t1 p) \<noteq> None then arc_evictT1 (the (q_tail (arc_t1 p))) p
      else if q_tail (arc_t2 p) \<noteq> None then arc_evictT2 (the (q_tail (arc_t2 p))) p
      else arc_evictT1 (the (q_tail (arc_t1 p))) p)"

definition arc_len :: "'k arc \<Rightarrow> int" where
  "arc_len p = qsize (arc_t1 p) + qsize (arc_t2 p)"

definition arc_reset :: "'k arc \<Rightarrow> 'k arc" where
  "arc_reset p =
     p\<lparr>arc_t1 := q_empty, arc_t2 := q_empty, arc_b1 := gh_empty, arc_b2 := gh_empty,
       arc_p := 0, arc_recent := None,
       arc_node := (\<lambda>k. if k \<in> q_set (arc_t1 p) \<union> q_set (arc_t2 p) then None else arc_node p k)\<rparr>"

definition arc_promotionNeeded :: "'k \<Rightarrow> 'k arc \<Rightarrow> bool" where
  "arc_promotionNeeded k p = True"

section \<open>The invariant\<close>

definition arc_tracked :: "'k arc \<Rightarrow> 'k set" where
  "arc_tracked p = dom (arc_node p)"

definition arc_live :: "'k set \<Rightarrow> 'k arc \<Rightarrow> bool" where
  "arc_live X p \<longleftrightarrow>
     q_inv (arc_t1 p) \<and> q_inv (arc_t2 p) \<and>
     (\<forall>k. k \<in> q_set (arc_t1 p) \<longleftrightarrow> arc_node p k = Some False \<and> k \<notin> X) \<and>
     (\<forall>k. k \<in> q_set (arc_t2 p) \<longleftrightarrow> arc_node p k = Some True \<and> k \<notin> X) \<and>
     X \<subseteq> dom (arc_node p) \<and>
     (\<forall>k. arc_recent p = Some k \<longrightarrow> arc_node p k \<noteq> None)"

definition arc_ghosts :: "'k arc \<Rightarrow> bool" where
  "arc_ghosts p \<longleftrightarrow>
     gh_ok (arc_b1 p) \<and> gh_ok (arc_b2 p) \<and> gh_set (arc_b1 p) \<inter> gh_set (arc_b2 p) = {} \<and>
     (gh_set (arc_b1 p) \<union> gh_set (arc_b2 p)) \<inter> (q_set (arc_t1 p) \<union> q_set (arc_t2 p)) = {} \<and>
     gh_size (arc_b1 p) \<le> arc_c p \<and> gh_size (arc_b2 p) \<le> 2 * arc_c p"

definition arc_range :: "'k arc \<Rightarrow> bool" where
  "arc_range p \<longleftrightarrow> 1 \<le> arc_c p \<and> 0 \<le> arc_p p \<and> arc_p p \<le> arc_c p"

definition arc_inv :: "'k set \<Rightarrow> 'k arc \<Rightarrow> bool" where
  "arc_inv X p \<longleftrightarrow> arc_live X p \<and> arc_ghosts p \<and> arc_range p"

definition arc_ok :: "'k arc \<Rightarrow> bool" where
  "arc_ok p \<longleftrightarrow> arc_inv {} p"

lemmas arc_prims [policy_defs] =
  arc_pushT1Head_def arc_pushT2Head_def arc_unlinkT1_def arc_unlinkT2_def arc_recordB1_def
  arc_recordB2_def arc_removeFromB1_def arc_removeFromB2_def arc_inB1_def arc_inB2_def

lemmas arc_inv_defs = arc_inv_def arc_live_def arc_ghosts_def arc_range_def

lemma arc_new_ok: "arc_ok (newARC b)" "arc_tracked (newARC b) = {}"
  by (auto simp: newARC_def arc_ok_def arc_inv_defs arc_tracked_def)

lemma arc_linked: "arc_inv X p \<Longrightarrow> arc_tracked p = q_set (arc_t1 p) \<union> q_set (arc_t2 p) \<union> X"
  by (auto simp: arc_inv_def arc_live_def arc_tracked_def domIff)

lemma arc_delta_pos: "1 \<le> arc_delta a b"
  by (simp add: arc_delta_def)

lemma arc_onInsert_ok:
  assumes "arc_ok p" and "k \<notin> arc_tracked p"
  shows "arc_ok (arc_onInsert k p)"
proof -
  have k: "arc_node p k = None" using assms(2) by (simp add: arc_tracked_def domIff)
  have inv: "arc_live {} p" "arc_ghosts p" "arc_range p"
    using assms(1) by (simp_all add: arc_ok_def arc_inv_def)
  note sz = gh_size_unlink[of k "arc_b1 p"] gh_size_unlink[of k "arc_b2 p"]
  note d = arc_delta_pos[of "gh_size (arc_b1 p)" "gh_size (arc_b2 p)"]
    arc_delta_pos[of "gh_size (arc_b2 p)" "gh_size (arc_b1 p)"]
  have "arc_live {} (arc_onInsert k p)"
    using inv(1) k by (auto simp: arc_live_def arc_onInsert_def arc_prims Let_def)
  moreover have "arc_range (arc_onInsert k p)"
    using inv(3) d by (auto simp: arc_range_def arc_onInsert_def arc_prims Let_def)
  moreover have "arc_ghosts (arc_onInsert k p)"
  proof (cases "k \<in> gh_set (arc_b1 p)")
    case True
    then show ?thesis
      using inv(2) sz(1) by (auto simp: arc_ghosts_def arc_onInsert_def arc_prims Let_def)
  next
    case False
    then show ?thesis
      using inv(2) sz(2) by (auto simp: arc_ghosts_def arc_onInsert_def arc_prims Let_def)
  qed
  ultimately show ?thesis by (simp add: arc_ok_def arc_inv_def)
qed

lemma arc_onAccess_ok:
  assumes "arc_ok p"
  shows "arc_ok (arc_onAccess k p)"
proof (cases "arc_node p k")
  case None
  then show ?thesis using assms by (simp add: arc_onAccess_def)
next
  case (Some a)
  have inv: "arc_live {} p" "arc_ghosts p" "arc_range p"
    using assms by (simp_all add: arc_ok_def arc_inv_def)
  have "arc_live {} (arc_onAccess k p)"
    using inv(1) Some by (auto simp: arc_live_def arc_onAccess_def arc_prims)
  moreover have "arc_ghosts (arc_onAccess k p)" "arc_range (arc_onAccess k p)"
    using inv Some
    by (auto simp: arc_live_def arc_ghosts_def arc_range_def arc_onAccess_def arc_prims)
  ultimately show ?thesis by (simp add: arc_ok_def arc_inv_def)
qed

lemma arc_onRemove_inv:
  assumes "arc_inv X p"
  shows "arc_inv (X - {k}) (arc_onRemove k p)"
proof (cases "arc_node p k")
  case None
  then have "k \<notin> X" using assms by (auto simp: arc_inv_def arc_live_def)
  then show ?thesis using None assms by (simp add: arc_onRemove_def)
next
  case (Some a)
  have inv: "arc_live X p" "arc_ghosts p" "arc_range p"
    using assms by (simp_all add: arc_inv_def)
  have "arc_live (X - {k}) (arc_onRemove k p)"
    using inv(1) Some by (cases a) (auto simp: arc_live_def arc_onRemove_def arc_prims Let_def)
  moreover have "arc_ghosts (arc_onRemove k p)" "arc_range (arc_onRemove k p)"
    using inv Some
    by (auto simp: arc_live_def arc_ghosts_def arc_range_def arc_onRemove_def arc_prims Let_def)
  ultimately show ?thesis by (simp add: arc_inv_def)
qed

lemma arc_evictT1_inv:
  assumes "arc_inv {} p" and "k \<in> q_set (arc_t1 p)"
  shows "arc_inv {k} (snd (arc_evictT1 k p))"
proof -
  let ?q = "arc_unlinkT1 k p"
  let ?l = "max (arc_c p - qsize (arc_t1 ?q)) 0"
  have inv: "arc_live {} p" "arc_ghosts p" "arc_range p"
    using assms(1) by (simp_all add: arc_inv_def)
  have q: "q_inv (arc_t1 ?q)" using inv(1) by (simp add: arc_live_def arc_unlinkT1_def)
  then have g: "gh_ok (gh_recordHead ?l k (arc_b1 p))" "gh_size (gh_recordHead ?l k (arc_b1 p)) \<le> arc_c p"
    using inv(2,3) gh_record_size(2)[of "arc_b1 p" ?l "arc_c p" k]
    by (simp_all add: arc_ghosts_def arc_range_def q_inv_def)
  have "arc_live {k} (snd (arc_evictT1 k p))"
    using inv(1) assms(2) by (auto simp: arc_live_def arc_evictT1_def arc_prims)
  moreover have "k \<notin> gh_set (arc_b2 p)" "k \<notin> q_set (arc_t2 p)"
    using inv(1,2) assms(2) by (auto simp: arc_live_def arc_ghosts_def)
  then have "arc_ghosts (snd (arc_evictT1 k p))"
    using inv(1,2) g gh_record_sub(2)[of ?l k "arc_b1 p"]
    by (auto simp: arc_live_def arc_ghosts_def arc_evictT1_def arc_unlinkT1_def arc_recordB1_def)
  moreover have "arc_range (snd (arc_evictT1 k p))"
    using inv(3) by (simp add: arc_range_def arc_evictT1_def arc_prims)
  ultimately show ?thesis by (simp add: arc_inv_def)
qed

lemma arc_evictT2_inv:
  assumes "arc_inv {} p" and "k \<in> q_set (arc_t2 p)"
  shows "arc_inv {k} (snd (arc_evictT2 k p))"
proof -
  let ?q = "arc_unlinkT2 k p"
  let ?l = "max (2 * arc_c p - qsize (arc_t2 ?q)) 0"
  have inv: "arc_live {} p" "arc_ghosts p" "arc_range p"
    using assms(1) by (simp_all add: arc_inv_def)
  have q: "q_inv (arc_t2 ?q)" using inv(1) by (simp add: arc_live_def arc_unlinkT2_def)
  then have g: "gh_ok (gh_recordHead ?l k (arc_b2 p))" "gh_size (gh_recordHead ?l k (arc_b2 p)) \<le> 2 * arc_c p"
    using inv(2,3) gh_record_size(2)[of "arc_b2 p" ?l "2 * arc_c p" k]
    by (simp_all add: arc_ghosts_def arc_range_def q_inv_def)
  have "arc_live {k} (snd (arc_evictT2 k p))"
    using inv(1) assms(2) by (auto simp: arc_live_def arc_evictT2_def arc_prims)
  moreover have "k \<notin> gh_set (arc_b1 p)" "k \<notin> q_set (arc_t1 p)"
    using inv(1,2) assms(2) by (auto simp: arc_live_def arc_ghosts_def)
  then have "arc_ghosts (snd (arc_evictT2 k p))"
    using inv(1,2) g gh_record_sub(2)[of ?l k "arc_b2 p"]
    by (auto simp: arc_live_def arc_ghosts_def arc_evictT2_def arc_unlinkT2_def arc_recordB2_def)
  moreover have "arc_range (snd (arc_evictT2 k p))"
    using inv(3) by (simp add: arc_range_def arc_evictT2_def arc_prims)
  ultimately show ?thesis by (simp add: arc_inv_def)
qed

lemma arc_sizes:
  assumes "arc_live X p"
  shows "qsize (arc_t1 p) = 0 \<longleftrightarrow> q_tail (arc_t1 p) = None" "0 \<le> qsize (arc_t1 p)"
    "qsize (arc_t2 p) = 0 \<longleftrightarrow> q_tail (arc_t2 p) = None" "0 \<le> qsize (arc_t2 p)"
  using assms by (auto simp: arc_live_def q_inv_def q_tail_def)

text \<open>The decision of \<open>Victim\<close>, list by list.\<close>

lemma arc_victim_cases:
  assumes "arc_live {} p"
  obtains (None) "q_tail (arc_t1 p) = None" "q_tail (arc_t2 p) = None" "arc_victim p = (None, p)"
    | (T1) k where "q_tail (arc_t1 p) = Some k" "arc_victim p = arc_evictT1 k p" "arc_useT1 p"
    | (T2) k where "q_tail (arc_t2 p) = Some k" "arc_victim p = arc_evictT2 k p"
        "\<not> arc_useT1 p \<or> q_tail (arc_t1 p) = None"
proof (cases "q_tail (arc_t1 p)")
  case t1: None
  show ?thesis
  proof (cases "q_tail (arc_t2 p)")
    case None
    then show ?thesis
      using that(1) t1 arc_sizes[OF assms] by (simp add: arc_victim_def)
  next
    case (Some k)
    then show ?thesis
      using that(3) t1 arc_sizes[OF assms] by (auto simp: arc_victim_def)
  qed
next
  case t1: (Some k1)
  show ?thesis
  proof (cases "q_tail (arc_t2 p)")
    case None
    moreover have "arc_useT1 p"
      using t1 None arc_sizes[OF assms] by (auto simp: arc_useT1_def Let_def)
    ultimately show ?thesis
      using that(2)[OF t1] t1 arc_sizes[OF assms] by (auto simp: arc_victim_def)
  next
    case (Some k2)
    then show ?thesis
      using that(2)[OF t1] that(3)[OF Some] t1 arc_sizes[OF assms]
      by (cases "arc_useT1 p") (auto simp: arc_victim_def)
  qed
qed

lemma arc_victim_inv:
  assumes "arc_inv {} p"
  shows "arc_tracked p = {} \<and> arc_victim p = (None, p) \<or>
    (\<exists>k p'. arc_victim p = (Some k, p') \<and> k \<in> arc_tracked p \<and> arc_inv {k} p' \<and>
       arc_node p' = arc_node p)"
proof -
  have live: "arc_live {} p" using assms by (simp add: arc_inv_def)
  have fr: "arc_evictT1 k p = (Some k, snd (arc_evictT1 k p))" "arc_node (snd (arc_evictT1 k p)) = arc_node p"
    "arc_evictT2 k p = (Some k, snd (arc_evictT2 k p))" "arc_node (snd (arc_evictT2 k p)) = arc_node p" for k
    by (simp_all add: arc_evictT1_def arc_evictT2_def arc_prims)
  show ?thesis
    using live
  proof (cases rule: arc_victim_cases)
    case None
    then show ?thesis using arc_linked[OF assms] by (simp add: q_tail_None)
  next
    case (T1 k)
    then have "k \<in> q_set (arc_t1 p)" by (simp add: q_tail_in_set)
    then show ?thesis
      using T1(2) fr arc_evictT1_inv[OF assms] arc_linked[OF assms] by (metis UnCI)
  next
    case (T2 k)
    then have "k \<in> q_set (arc_t2 p)" by (simp add: q_tail_in_set)
    then show ?thesis
      using T2(2) fr arc_evictT2_inv[OF assms] arc_linked[OF assms] by (metis UnCI)
  qed
qed

lemma arc_onRemove_tracked: "arc_tracked (arc_onRemove k p) = arc_tracked p - {k}"
  by (auto simp: arc_onRemove_def arc_tracked_def Let_def arc_prims split: option.split)

interpretation arc: eager_policy arc_tracked arc_ok arc_onInsert arc_onAccess arc_onUpdate
  arc_onRemove arc_victim arc_len
proof
  fix p :: "'a arc" and p' k
  assume ok: "arc_ok p"
  then have inv: "arc_inv {} p" by (simp add: arc_ok_def)
  then have live: "arc_live {} p" by (simp add: arc_inv_def)
  have "q_set (arc_t1 p) \<inter> q_set (arc_t2 p) = {}" using live by (auto simp: arc_live_def)
  then show "finite (arc_tracked p)" "arc_len p = int (card (arc_tracked p))"
    using live arc_linked[OF inv]
    by (simp_all add: arc_len_def q_size_card card_Un_disjoint arc_live_def)
  show "arc_ok (arc_onAccess k p)" "arc_ok (arc_onUpdate k p)"
    using ok by (simp_all add: arc_onUpdate_def arc_onAccess_ok)
  show "arc_tracked (arc_onAccess k p) = arc_tracked p" "arc_tracked (arc_onUpdate k p) = arc_tracked p"
    by (auto simp: arc_onUpdate_def arc_onAccess_def arc_tracked_def arc_prims split: option.split)
  show "arc_ok (arc_onInsert k p)" "arc_tracked (arc_onInsert k p) = insert k (arc_tracked p)"
    if "k \<notin> arc_tracked p"
    using arc_onInsert_ok[OF ok that]
    by (simp_all add: arc_onInsert_def arc_tracked_def arc_prims Let_def)
  show "arc_tracked (arc_onRemove k p) = arc_tracked p - {k}" by (rule arc_onRemove_tracked)
  show "arc_ok (arc_onRemove k p)"
    using arc_onRemove_inv[OF inv, of k] by (simp add: arc_ok_def)
  show "\<exists>k. fst (arc_victim p) = Some k" if "arc_tracked p \<noteq> {}"
    using arc_victim_inv[OF inv] that by auto
  show "k \<in> arc_tracked p" "arc_ok (arc_onRemove k p')"
    "arc_tracked (arc_onRemove k p') = arc_tracked p - {k}" if v: "arc_victim p = (Some k, p')"
  proof -
    have "k \<in> arc_tracked p" "arc_inv {k} p'" "arc_node p' = arc_node p"
      using arc_victim_inv[OF inv] v by auto
    then show "k \<in> arc_tracked p" "arc_ok (arc_onRemove k p')"
      "arc_tracked (arc_onRemove k p') = arc_tracked p - {k}"
      using arc_onRemove_inv[of "{k}" p' k]
      by (simp_all add: arc_ok_def arc_onRemove_tracked) (simp add: arc_tracked_def)
  qed
  show "arc_ok p' \<and> arc_tracked p' = arc_tracked p" if "arc_victim p = (None, p')"
    using arc_victim_inv[OF inv] that ok by auto
qed

lemma arc_setBudget_ok:
  assumes "arc_ok p"
  shows "arc_ok (arc_setBudget b p)" and "arc_tracked (arc_setBudget b p) = arc_tracked p"
proof -
  have inv: "arc_live {} p" "arc_ghosts p" "arc_range p"
    using assms by (simp_all add: arc_ok_def arc_inv_def)
  let ?c = "max b 1"
  let ?l1 = "max (?c - qsize (arc_t1 p)) 0" and ?l2 = "max (2 * ?c - qsize (arc_t2 p)) 0"
  have sb: "arc_setBudget b p = p\<lparr>arc_c := ?c, arc_p := min (arc_p p) ?c,
      arc_b1 := gh_trim AtTail ?l1 (arc_b1 p), arc_b2 := gh_trim AtTail ?l2 (arc_b2 p)\<rparr>"
    by (cases p) (auto simp: arc_setBudget_def Let_def min_def)
  have g: "gh_ok (gh_trim AtTail ?l1 (arc_b1 p))" "gh_ok (gh_trim AtTail ?l2 (arc_b2 p))"
    "gh_size (gh_trim AtTail ?l1 (arc_b1 p)) \<le> ?l1" "gh_size (gh_trim AtTail ?l2 (arc_b2 p)) \<le> ?l2"
    using inv(2) by (auto simp: arc_ghosts_def intro!: gh_trim_ok gh_trim_size)
  have l: "?l1 \<le> ?c" "?l2 \<le> 2 * ?c"
    using arc_sizes[OF inv(1)] by auto
  have "arc_live {} (arc_setBudget b p)" "arc_range (arc_setBudget b p)"
    using inv by (auto simp: sb arc_live_def arc_range_def)
  moreover have "arc_ghosts (arc_setBudget b p)"
    using inv(2) g l gh_trim_sub[of AtTail ?l1 "arc_b1 p"] gh_trim_sub[of AtTail ?l2 "arc_b2 p"]
    unfolding arc_ghosts_def sb arc.simps arc.select_convs by (auto dest: subsetD)
  ultimately show "arc_ok (arc_setBudget b p)" by (simp add: arc_ok_def arc_inv_def)
  show "arc_tracked (arc_setBudget b p) = arc_tracked p"
    by (simp add: sb arc_tracked_def)
qed

lemma arc_reset_ok:
  assumes "arc_ok p"
  shows "arc_ok (arc_reset p)" and "arc_tracked (arc_reset p) = {}"
proof -
  have "arc_node (arc_reset p) k = None" for k
    using assms
    by (cases "arc_node p k"; cases "the (arc_node p k)")
       (auto simp: arc_reset_def arc_ok_def arc_inv_def arc_live_def)
  then have "arc_node (arc_reset p) = Map.empty" by blast
  then show "arc_ok (arc_reset p)" "arc_tracked (arc_reset p) = {}"
    using assms by (simp_all add: arc_ok_def arc_inv_defs arc_tracked_def) (simp_all add: arc_reset_def)
qed

section \<open>Runs\<close>

datatype 'k arcop =
  ArcInsert 'k | ArcAccess 'k | ArcUpdate 'k | ArcRemove 'k | ArcEvict | ArcSetBudget int | ArcReset

definition arc_evict :: "'k arc \<Rightarrow> 'k arc" where
  "arc_evict p = (case arc_victim p of (None, p') \<Rightarrow> p' | (Some k, p') \<Rightarrow> arc_onRemove k p')"

fun arc_step :: "'k arcop \<Rightarrow> 'k arc \<Rightarrow> 'k arc" where
  "arc_step (ArcInsert k) p = (if arc_node p k \<noteq> None then arc_onUpdate k p else arc_onInsert k p)"
| "arc_step (ArcAccess k) p = arc_onAccess k p"
| "arc_step (ArcUpdate k) p = arc_onUpdate k p"
| "arc_step (ArcRemove k) p = arc_onRemove k p"
| "arc_step ArcEvict p = arc_evict p"
| "arc_step (ArcSetBudget b) p = arc_setBudget b p"
| "arc_step ArcReset p = arc_reset p"

lemma arc_evict_ok: "arc_ok p \<Longrightarrow> arc_ok (arc_evict p)"
  by (cases "arc_victim p"; cases "fst (arc_victim p)")
     (simp_all add: arc_evict_def arc.victim_ok arc.victim_none)

lemma arc_run_ok: "arc_ok p \<Longrightarrow> arc_ok (fold arc_step ops p)"
proof (induction ops arbitrary: p)
  case (Cons op ops)
  have "arc_ok (arc_step op p)"
    using Cons.prems
    by (cases op) (simp_all add: arc_tracked_def domIff arc.ok_insert arc.ok_access arc.ok_update arc.ok_remove arc_evict_ok
        arc_setBudget_ok arc_reset_ok)
  then show ?case using Cons.IH by simp
qed simp

definition arc_shape :: "'k arc \<Rightarrow> bool" where
  "arc_shape p \<longleftrightarrow>
     0 \<le> arc_p p \<and> arc_p p \<le> arc_c p \<and>
     int (length (qitems (gh_queue (arc_b1 p)))) \<le> arc_c p \<and>
     int (length (qitems (gh_queue (arc_b2 p)))) \<le> 2 * arc_c p \<and>
     distinct (qitems (arc_t1 p) @ qitems (arc_t2 p) @ qitems (gh_queue (arc_b1 p)) @
       qitems (gh_queue (arc_b2 p))) \<and>
     dom (arc_node p) = set (qitems (arc_t1 p)) \<union> set (qitems (arc_t2 p)) \<and>
     qsize (arc_t1 p) = int (length (qitems (arc_t1 p))) \<and>
     qsize (arc_t2 p) = int (length (qitems (arc_t2 p)))"

lemma arc_ok_shape:
  assumes "arc_ok p"
  shows "arc_shape p"
proof -
  have inv: "arc_inv {} p" using assms by (simp add: arc_ok_def)
  have "dom (arc_node p) = set (qitems (arc_t1 p)) \<union> set (qitems (arc_t2 p))"
    using arc_linked[OF inv] by (simp add: arc_tracked_def q_set_def)
  moreover have "set (qitems (arc_t1 p)) \<inter> set (qitems (arc_t2 p)) = {}"
    using inv by (auto simp: arc_inv_def arc_live_def q_set_def)
  ultimately show ?thesis
    using inv
    by (auto simp: arc_shape_def arc_inv_def arc_live_def arc_ghosts_def arc_range_def gh_ok_def
        gh_size_def q_inv_def q_set_def)
qed

text \<open>C10: The structural invariant of ARC. In every state reached from a fresh policy by any
  sequence of insertions, reads, updates, removals, evictions, budget changes and resets: the
  adaptive target lies in \<open>[0, c]\<close>, the ghost lists hold at most \<open>c\<close> and \<open>2c\<close> keys, no key occurs
  twice in the four lists taken together, the tracked keys are those of T1 and T2, and the size
  counters are the list lengths.\<close>

theorem arc_reachable_invariant: "arc_shape (fold arc_step ops (newARC b))"
  by (intro arc_ok_shape arc_run_ok arc_new_ok)

lemma arc_useT1_recent:
  "q_tail (arc_t1 p) = arc_recent p \<Longrightarrow> q_tail (arc_t2 p) \<noteq> None \<Longrightarrow>
     q_tail (arc_t2 p) \<noteq> arc_recent p \<Longrightarrow> \<not> arc_useT1 p"
  "q_tail (arc_t2 p) = arc_recent p \<Longrightarrow> q_tail (arc_t1 p) \<noteq> None \<Longrightarrow>
     q_tail (arc_t1 p) \<noteq> arc_recent p \<Longrightarrow> arc_useT1 p"
  by (simp_all add: arc_useT1_def Let_def)

text \<open>C11: ARC's eviction does not undo the insertion. Right after a key is inserted into a
  well-formed policy that already tracks some entry, \<open>Victim\<close> names an entry, and it is not the
  inserted one.\<close>

theorem arc_insert_survives:
  assumes "arc_ok p" and "k \<notin> arc_tracked p" and "arc_tracked p \<noteq> {}"
  shows "\<exists>v p'. arc_victim (arc_onInsert k p) = (Some v, p') \<and> v \<in> arc_tracked p"
proof -
  let ?q = "arc_onInsert k p"
  have ok: "arc_ok ?q" and tr: "arc_tracked ?q = insert k (arc_tracked p)"
    using assms(1,2) by (simp_all add: arc.ok_insert arc.tracked_insert)
  then have live: "arc_live {} ?q" by (simp add: arc_ok_def arc_inv_def)
  have rec: "arc_recent ?q = Some k"
    by (simp add: arc_onInsert_def arc_prims Let_def)
  have kin: "k \<notin> q_set (arc_t1 p)" "k \<notin> q_set (arc_t2 p)"
    using arc_linked[of "{}" p] assms(1,2) by (auto simp: arc_ok_def)
  have lists: "arc_t1 ?q = q_pushHead k (arc_t1 p) \<and> arc_t2 ?q = arc_t2 p \<or>
      arc_t1 ?q = arc_t1 p \<and> arc_t2 ?q = q_pushHead k (arc_t2 p)"
    by (simp add: arc_onInsert_def arc_prims Let_def)
  have some: "q_set (arc_t1 p) \<noteq> {} \<or> q_set (arc_t2 p) \<noteq> {}"
    using arc_linked[of "{}" p] assms(1,3) by (auto simp: arc_ok_def)
  have t1: "q_tail (arc_t1 ?q) = Some k \<Longrightarrow> q_tail (arc_t2 ?q) \<noteq> None \<and> q_tail (arc_t2 ?q) \<noteq> Some k"
    and t2: "q_tail (arc_t2 ?q) = Some k \<Longrightarrow> q_tail (arc_t1 ?q) \<noteq> None \<and> q_tail (arc_t1 ?q) \<noteq> Some k"
    using lists kin some
    by (auto simp: q_tail_def q_set_def last_of_def split: if_splits)
  obtain v p' where v: "arc_victim ?q = (Some v, p')"
    using arc.victim_exists[OF ok] tr by (metis insert_not_empty prod.collapse)
  have "v \<noteq> k"
    using live
  proof (cases rule: arc_victim_cases)
    case (T1 n)
    then have "n = v" using v by (simp add: arc_evictT1_def)
    then show ?thesis using T1(1,3) t1 rec arc_useT1_recent(1)[of ?q] by auto
  next
    case (T2 n)
    then have "n = v" using v by (simp add: arc_evictT2_def)
    then show ?thesis using T2(1,3) t2 rec arc_useT1_recent(2)[of ?q] by auto
  qed (use v in simp)
  then show ?thesis
    using v arc.victim_tracked[OF ok v] tr by auto
qed

theorem arc_insert_survives_witness:
  "fst (arc_victim (arc_onInsert 3 (arc_onInsert (2::nat) (newARC 1)))) = Some 2"
proof -
  have ok: "arc_ok (arc_onInsert (2::nat) (newARC 1))" "arc_tracked (arc_onInsert (2::nat) (newARC 1)) = {2}"
    by (simp_all add: arc.ok_insert arc.tracked_insert arc_new_ok)
  then obtain v p' where "arc_victim (arc_onInsert 3 (arc_onInsert (2::nat) (newARC 1))) = (Some v, p')"
    and "v \<in> {2}"
    using arc_insert_survives[OF ok(1), of 3] by (metis insert_not_empty numeral_eq_iff
        semiring_norm(89) singletonD)
  then show ?thesis by simp
qed


end
