(* ===== verification/Policy.thy ===== *)
theory Policy
  imports Policy_LRU Policy_FIFO Policy_S3FIFO Policy_LFU Policy_TinyLFU Policy_TwoQ Policy_ARC
begin

text \<open>
  The policies behind one type (policy.go): the value a shard holds in its \<open>policy\<close> field is one
  of the seven implementations, and each call is dispatched on it. \<open>newPolicy\<close> selects the
  implementation from the configured number (\<open>Policy\<close> of types.go, a \<open>uint8\<close>), and
  \<open>shedVictim\<close> is the eviction used when a shard has to give up entries regardless of the
  policy's own budgets.

  \<open>shard_policy\<close> is the contract the cache relies on. It extends \<open>eviction_policy\<close> with the laws
  of \<open>shedVictim\<close>, \<open>SetBudget\<close>, \<open>Reset\<close> and \<open>PromotionNeeded\<close>, and it is interpreted on the
  dispatching operations, so every lemma proved in it holds for each of the seven policies.
\<close>

section \<open>Selecting and dispatching\<close>

datatype 'k evictionPolicy =
    PolLRU "'k lru"
  | PolFIFO "'k fifo"
  | PolS3FIFO "'k s3fifo"
  | PolLFU "'k lfu"
  | PolTinyLFU "'k tinylfu"
  | PolTwoQ "'k twoq"
  | PolARC "'k arc"

definition PolicyS3FIFO :: "8 word" where "PolicyS3FIFO = 0"

definition PolicyLRU :: "8 word" where "PolicyLRU = 1"

definition PolicyLFU :: "8 word" where "PolicyLFU = 2"

definition PolicyTinyLFU :: "8 word" where "PolicyTinyLFU = 3"

definition PolicyFIFO :: "8 word" where "PolicyFIFO = 4"

definition PolicyARC :: "8 word" where "PolicyARC = 5"

definition Policy2Q :: "8 word" where "Policy2Q = 6"

record 'k policyConfig =
  pc_budget :: int
  pc_hasher :: "('k \<Rightarrow> 64 word) option"
  pc_lockFreeRead :: bool

definition newPolicy :: "8 word \<Rightarrow> 'k policyConfig \<Rightarrow> 'k evictionPolicy" where
  "newPolicy p cfg =
     (if p = PolicyLRU then PolLRU newLRU
      else if p = PolicyFIFO then PolFIFO newFIFO
      else if p = PolicyS3FIFO
        then PolS3FIFO ((newS3FIFO (pc_budget cfg))\<lparr>pinNodes := pc_lockFreeRead cfg\<rparr>)
      else if p = PolicyLFU then PolLFU newLFU
      else if p = PolicyTinyLFU then PolTinyLFU (newTinyLFU (pc_budget cfg) (pc_hasher cfg))
      else if p = Policy2Q then PolTwoQ (newTwoQ (pc_budget cfg))
      else if p = PolicyARC then PolARC (newARC (pc_budget cfg))
      else PolLRU newLRU)"

fun pol_onInsert :: "'k \<Rightarrow> 'k evictionPolicy \<Rightarrow> 'k evictionPolicy" where
    "pol_onInsert k (PolLRU q) = PolLRU (lru_onInsert k q)"
  | "pol_onInsert k (PolFIFO q) = PolFIFO (fifo_onInsert k q)"
  | "pol_onInsert k (PolS3FIFO q) = PolS3FIFO (s3_onInsert k q)"
  | "pol_onInsert k (PolLFU q) = PolLFU (lfu_onInsert k q)"
  | "pol_onInsert k (PolTinyLFU q) = PolTinyLFU (tl_onInsert k q)"
  | "pol_onInsert k (PolTwoQ q) = PolTwoQ (twoq_onInsert k q)"
  | "pol_onInsert k (PolARC q) = PolARC (arc_onInsert k q)"

fun pol_onAccess :: "'k \<Rightarrow> 'k evictionPolicy \<Rightarrow> 'k evictionPolicy" where
    "pol_onAccess k (PolLRU q) = PolLRU (lru_onAccess k q)"
  | "pol_onAccess k (PolFIFO q) = PolFIFO (fifo_onAccess k q)"
  | "pol_onAccess k (PolS3FIFO q) = PolS3FIFO (s3_onAccess k q)"
  | "pol_onAccess k (PolLFU q) = PolLFU (lfu_onAccess k q)"
  | "pol_onAccess k (PolTinyLFU q) = PolTinyLFU (tl_onAccess k q)"
  | "pol_onAccess k (PolTwoQ q) = PolTwoQ (twoq_onAccess k q)"
  | "pol_onAccess k (PolARC q) = PolARC (arc_onAccess k q)"

fun pol_onUpdate :: "'k \<Rightarrow> 'k evictionPolicy \<Rightarrow> 'k evictionPolicy" where
    "pol_onUpdate k (PolLRU q) = PolLRU (lru_onUpdate k q)"
  | "pol_onUpdate k (PolFIFO q) = PolFIFO (fifo_onUpdate k q)"
  | "pol_onUpdate k (PolS3FIFO q) = PolS3FIFO (s3_onUpdate k q)"
  | "pol_onUpdate k (PolLFU q) = PolLFU (lfu_onUpdate k q)"
  | "pol_onUpdate k (PolTinyLFU q) = PolTinyLFU (tl_onUpdate k q)"
  | "pol_onUpdate k (PolTwoQ q) = PolTwoQ (twoq_onUpdate k q)"
  | "pol_onUpdate k (PolARC q) = PolARC (arc_onUpdate k q)"

fun pol_onRemove :: "'k \<Rightarrow> 'k evictionPolicy \<Rightarrow> 'k evictionPolicy" where
    "pol_onRemove k (PolLRU q) = PolLRU (lru_onRemove k q)"
  | "pol_onRemove k (PolFIFO q) = PolFIFO (fifo_onRemove k q)"
  | "pol_onRemove k (PolS3FIFO q) = PolS3FIFO (s3_onRemove k q)"
  | "pol_onRemove k (PolLFU q) = PolLFU (lfu_onRemove k q)"
  | "pol_onRemove k (PolTinyLFU q) = PolTinyLFU (tl_onRemove k q)"
  | "pol_onRemove k (PolTwoQ q) = PolTwoQ (twoq_onRemove k q)"
  | "pol_onRemove k (PolARC q) = PolARC (arc_onRemove k q)"

fun pol_victim :: "'k evictionPolicy \<Rightarrow> 'k option \<times> 'k evictionPolicy" where
    "pol_victim (PolLRU q) = map_prod id PolLRU (lru_victim q)"
  | "pol_victim (PolFIFO q) = map_prod id PolFIFO (fifo_victim q)"
  | "pol_victim (PolS3FIFO q) = map_prod id PolS3FIFO (s3_victim q)"
  | "pol_victim (PolLFU q) = map_prod id PolLFU (lfu_victim q)"
  | "pol_victim (PolTinyLFU q) = map_prod id PolTinyLFU (tl_victim q)"
  | "pol_victim (PolTwoQ q) = map_prod id PolTwoQ (twoq_victim q)"
  | "pol_victim (PolARC q) = map_prod id PolARC (arc_victim q)"

fun pol_len :: "'k evictionPolicy \<Rightarrow> int" where
    "pol_len (PolLRU q) = lru_len q"
  | "pol_len (PolFIFO q) = fifo_len q"
  | "pol_len (PolS3FIFO q) = s3_len q"
  | "pol_len (PolLFU q) = lfu_len q"
  | "pol_len (PolTinyLFU q) = tl_len q"
  | "pol_len (PolTwoQ q) = twoq_len q"
  | "pol_len (PolARC q) = arc_len q"

fun pol_reset :: "'k evictionPolicy \<Rightarrow> 'k evictionPolicy" where
    "pol_reset (PolLRU q) = PolLRU (lru_reset q)"
  | "pol_reset (PolFIFO q) = PolFIFO (fifo_reset q)"
  | "pol_reset (PolS3FIFO q) = PolS3FIFO (s3_reset q)"
  | "pol_reset (PolLFU q) = PolLFU (lfu_reset q)"
  | "pol_reset (PolTinyLFU q) = PolTinyLFU (tl_reset q)"
  | "pol_reset (PolTwoQ q) = PolTwoQ (twoq_reset q)"
  | "pol_reset (PolARC q) = PolARC (arc_reset q)"

fun pol_setBudget :: "int \<Rightarrow> 'k evictionPolicy \<Rightarrow> 'k evictionPolicy" where
    "pol_setBudget b (PolLRU q) = PolLRU (lru_setBudget b q)"
  | "pol_setBudget b (PolFIFO q) = PolFIFO (fifo_setBudget b q)"
  | "pol_setBudget b (PolS3FIFO q) = PolS3FIFO (s3_setBudget b q)"
  | "pol_setBudget b (PolLFU q) = PolLFU (lfu_setBudget b q)"
  | "pol_setBudget b (PolTinyLFU q) = PolTinyLFU (tl_setBudget b q)"
  | "pol_setBudget b (PolTwoQ q) = PolTwoQ (twoq_setBudget b q)"
  | "pol_setBudget b (PolARC q) = PolARC (arc_setBudget b q)"

fun pol_promotionNeeded :: "'k \<Rightarrow> 'k evictionPolicy \<Rightarrow> bool" where
    "pol_promotionNeeded k (PolLRU q) = lru_promotionNeeded k q"
  | "pol_promotionNeeded k (PolFIFO q) = fifo_promotionNeeded k q"
  | "pol_promotionNeeded k (PolS3FIFO q) = s3_promotionNeeded k q"
  | "pol_promotionNeeded k (PolLFU q) = lfu_promotionNeeded k q"
  | "pol_promotionNeeded k (PolTinyLFU q) = tl_promotionNeeded k q"
  | "pol_promotionNeeded k (PolTwoQ q) = twoq_promotionNeeded k q"
  | "pol_promotionNeeded k (PolARC q) = arc_promotionNeeded k q"

datatype policyDetail =
    PolicyDetailLRU int
  | PolicyDetailFIFO int
  | PolicyDetailLFU int int
  | PolicyDetailS3FIFO int int int int int
  | PolicyDetailTinyLFU int int nat
  | PolicyDetail2Q int int int
  | PolicyDetailARC int int int int int

definition lru_snapshot :: "'k lru \<Rightarrow> policyDetail" where
  "lru_snapshot q = PolicyDetailLRU (lru_size q)"

definition fifo_snapshot :: "'k fifo \<Rightarrow> policyDetail" where
  "fifo_snapshot q = PolicyDetailFIFO (qsize (fifo_queue q))"

definition s3_snapshot :: "'k s3fifo \<Rightarrow> policyDetail" where
  "s3_snapshot q = PolicyDetailS3FIFO (qsize (s3_small q)) (qsize (s3_main q)) (qsize (s3_ghost q))
     (smallBudget q) (mainBudget q)"

definition lfu_snapshot :: "'k lfu \<Rightarrow> policyDetail" where
  "lfu_snapshot q = PolicyDetailLFU (lfu_size q) (int (length (lfu_buckets q)))"

definition tl_snapshot :: "'k tinylfu \<Rightarrow> policyDetail" where
  "tl_snapshot q = PolicyDetailTinyLFU (tl_size RegionWindow q)
     (tl_size RegionProtected q + tl_size RegionProbationary q) (tl_ops q)"

definition twoq_snapshot :: "'k twoq \<Rightarrow> policyDetail" where
  "twoq_snapshot q = PolicyDetail2Q (qsize (tq_in q)) (qsize (tq_am q)) (gh_size (tq_out q))"

definition arc_snapshot :: "'k arc \<Rightarrow> policyDetail" where
  "arc_snapshot q = PolicyDetailARC (qsize (arc_t1 q)) (qsize (arc_t2 q)) (gh_size (arc_b1 q))
     (gh_size (arc_b2 q)) (arc_p q)"

fun pol_snapshot :: "'k evictionPolicy \<Rightarrow> policyDetail" where
    "pol_snapshot (PolLRU q) = lru_snapshot q"
  | "pol_snapshot (PolFIFO q) = fifo_snapshot q"
  | "pol_snapshot (PolS3FIFO q) = s3_snapshot q"
  | "pol_snapshot (PolLFU q) = lfu_snapshot q"
  | "pol_snapshot (PolTinyLFU q) = tl_snapshot q"
  | "pol_snapshot (PolTwoQ q) = twoq_snapshot q"
  | "pol_snapshot (PolARC q) = arc_snapshot q"

fun pol_shed :: "bool \<Rightarrow> 'k evictionPolicy \<Rightarrow> 'k option \<times> 'k evictionPolicy" where
    "pol_shed keepRecent (PolS3FIFO q) = map_prod id PolS3FIFO (s3_shed keepRecent q)"
  | "pol_shed keepRecent (PolTinyLFU q) = map_prod id PolTinyLFU (tl_shed q)"
  | "pol_shed keepRecent p = (None, p)"

definition shedVictim :: "bool \<Rightarrow> 'k evictionPolicy \<Rightarrow> 'k option \<times> 'k evictionPolicy" where
  "shedVictim keepRecent p =
     (case pol_victim p of
        (Some v, p') \<Rightarrow> (Some v, p')
      | (None, p') \<Rightarrow> pol_shed keepRecent p')"

section \<open>Well-formedness\<close>

fun pol_ok :: "'k evictionPolicy \<Rightarrow> bool" where
    "pol_ok (PolLRU q) = lru_ok q"
  | "pol_ok (PolFIFO q) = fifo_ok q"
  | "pol_ok (PolS3FIFO q) = s3_ok q"
  | "pol_ok (PolLFU q) = lfu_ok q"
  | "pol_ok (PolTinyLFU q) = tl_ok q"
  | "pol_ok (PolTwoQ q) = twoq_ok q"
  | "pol_ok (PolARC q) = arc_ok q"

fun pol_tracked :: "'k evictionPolicy \<Rightarrow> 'k set" where
    "pol_tracked (PolLRU q) = lru_node q"
  | "pol_tracked (PolFIFO q) = fifo_node q"
  | "pol_tracked (PolS3FIFO q) = s3_tracked q"
  | "pol_tracked (PolLFU q) = lfu_tracked q"
  | "pol_tracked (PolTinyLFU q) = tl_tracked q"
  | "pol_tracked (PolTwoQ q) = twoq_tracked q"
  | "pol_tracked (PolARC q) = arc_tracked q"

lemma map_prod_id_eq: "map_prod id f r = (v, p) \<longleftrightarrow> (\<exists>q. r = (v, q) \<and> p = f q)"
  by (cases r) auto

lemma s3_pinned_new_ok:
  "s3_ok ((newS3FIFO b)\<lparr>pinNodes := l\<rparr>)" "s3_tracked ((newS3FIFO b)\<lparr>pinNodes := l\<rparr>) = {}"
  using s3_new_ok[of b] by (simp_all add: s3_ok_def s3_inv_defs)

lemma newPolicy_ok: "pol_ok (newPolicy p cfg)" "pol_tracked (newPolicy p cfg) = {}"
  by (simp_all add: newPolicy_def s3_pinned_new_ok lru_new_ok fifo_new_ok lfu_new_ok tl_new_ok
      twoq_new_ok arc_new_ok)

section \<open>The contract the cache relies on\<close>

locale shard_policy = eviction_policy tracked ok onInsert onAccess onUpdate onRemove victim len
  for tracked :: "'p \<Rightarrow> 'k set" and ok onInsert onAccess onUpdate onRemove victim len +
  fixes shed :: "bool \<Rightarrow> 'p \<Rightarrow> 'k option \<times> 'p"
    and setBudget :: "int \<Rightarrow> 'p \<Rightarrow> 'p"
    and reset :: "'p \<Rightarrow> 'p"
    and promotionNeeded :: "'k \<Rightarrow> 'p \<Rightarrow> bool"
  assumes shed_tracked: "ok p \<Longrightarrow> shed keep p = (Some k, p') \<Longrightarrow> k \<in> tracked p"
    and shed_ok: "ok p \<Longrightarrow> shed keep p = (Some k, p') \<Longrightarrow> ok (onRemove k p')"
    and shed_evicts: "ok p \<Longrightarrow> shed keep p = (Some k, p') \<Longrightarrow>
          tracked (onRemove k p') = tracked p - {k}"
    and shed_none: "ok p \<Longrightarrow> shed keep p = (None, p') \<Longrightarrow> ok p' \<and> tracked p' = tracked p"
    and shed_exists: "ok p \<Longrightarrow> tracked p \<noteq> {} \<Longrightarrow> \<exists>k. fst (shed False p) = Some k"
    and setBudget_ok: "ok p \<Longrightarrow> ok (setBudget b p)"
    and setBudget_tracked: "ok p \<Longrightarrow> tracked (setBudget b p) = tracked p"
    and reset_ok: "ok p \<Longrightarrow> ok (reset p)"
    and reset_tracked: "ok p \<Longrightarrow> tracked (reset p) = {}"
    and access_unneeded: "\<not> promotionNeeded k p \<Longrightarrow> onAccess k p = p"
begin

text \<open>A shed makes the policy one entry smaller, and emptying a policy by sheds takes as many
  steps as it holds entries.\<close>

lemma shed_shrinks:
  assumes "ok p" and "shed keep p = (Some k, p')"
  shows "card (tracked (onRemove k p')) < card (tracked p)"
  using assms by (simp add: shed_evicts shed_tracked finite_tracked card_Diff1_less del: card_Diff_insert)

end

lemma s3_shed_evicts:
  assumes "s3_ok p" and "s3_shed keep p = (Some k, p')"
  shows "k \<in> s3_tracked p" "s3_ok (s3_onRemove k p')"
    "s3_tracked (s3_onRemove k p') = s3_tracked p - {k}"
  using s3_shed_inv[of p keep "Some k" p'] assms s3_onRemove_inv[of "{k}" p' k]
  by (simp_all add: s3_ok_def s3_onRemove_tracked s3_frame_def)

lemma tl_shed_evicts:
  assumes "tl_ok p" and "tl_shed p = (Some k, p')"
  shows "k \<in> tl_tracked p" "tl_ok (tl_onRemove k p')"
    "tl_tracked (tl_onRemove k p') = tl_tracked p - {k}"
  using tl_shed_pulled[of p] assms tl_onRemove_inv[of "{k}" p' k]
  by (simp_all add: tl_ok_def tl_pulled_def tl_onRemove_tracked)

lemmas pol_victim_facts =
  lru.victim_tracked lru.victim_ok lru.victim_evicts lru.victim_none
  fifo.victim_tracked fifo.victim_ok fifo.victim_evicts fifo.victim_none
  s3.victim_tracked s3.victim_ok s3.victim_evicts s3.victim_none
  lfu.victim_tracked lfu.victim_ok lfu.victim_evicts lfu.victim_none
  tl.victim_tracked tl.victim_ok tl.victim_evicts tl.victim_none
  twoq.victim_tracked twoq.victim_ok twoq.victim_evicts twoq.victim_none
  arc.victim_tracked arc.victim_ok arc.victim_evicts arc.victim_none

lemma pol_victim_none:
  assumes "pol_ok p" and "pol_victim p = (None, p')"
  shows "pol_ok p' \<and> pol_tracked p' = pol_tracked p"
  using assms by (cases p) (auto simp: map_prod_id_eq dest: pol_victim_facts)

lemma pol_victim_some:
  assumes "pol_ok p" and "pol_victim p = (Some k, p')"
  shows "k \<in> pol_tracked p" "pol_ok (pol_onRemove k p')"
    "pol_tracked (pol_onRemove k p') = pol_tracked p - {k}"
  using assms by (cases p; auto simp: map_prod_id_eq dest: pol_victim_facts)+

lemma pol_shed_some:
  assumes "pol_ok p" and "pol_shed keep p = (Some k, p')"
  shows "k \<in> pol_tracked p" "pol_ok (pol_onRemove k p')"
    "pol_tracked (pol_onRemove k p') = pol_tracked p - {k}"
  using assms by (cases p; auto simp: map_prod_id_eq dest: s3_shed_evicts tl_shed_evicts)+

lemma pol_shed_none:
  assumes "pol_ok p" and "pol_shed keep p = (None, p')"
  shows "pol_ok p' \<and> pol_tracked p' = pol_tracked p"
proof (cases p)
  case (PolS3FIFO q)
  then show ?thesis
    using assms s3_shed_inv[of q keep None] by (auto simp: map_prod_id_eq s3_ok_def s3_frame_def)
next
  case (PolTinyLFU q)
  then show ?thesis
    using assms tl_shed_pulled[of q] by (auto simp: map_prod_id_eq tl_ok_def tl_pulled_def)
qed (use assms in auto)

lemma eager_none_empty:
  "lru_ok a \<Longrightarrow> lru_victim a = (None, a') \<Longrightarrow> lru_node a = {}"
  "fifo_ok b \<Longrightarrow> fifo_victim b = (None, b') \<Longrightarrow> fifo_node b = {}"
  "lfu_ok c \<Longrightarrow> lfu_victim c = (None, c') \<Longrightarrow> lfu_tracked c = {}"
  "twoq_ok d \<Longrightarrow> twoq_victim d = (None, d') \<Longrightarrow> twoq_tracked d = {}"
  "arc_ok e \<Longrightarrow> arc_victim e = (None, e') \<Longrightarrow> arc_tracked e = {}"
  using lru.victim_none_iff[of a] fifo.victim_none_iff[of b] lfu.victim_none_iff[of c]
    twoq.victim_none_iff[of d] arc.victim_none_iff[of e]
  by simp_all

lemma shedVictim_exists:
  assumes "pol_ok p" and "fst (shedVictim False p) = None"
  shows "pol_tracked p = {}"
proof -
  obtain p' where v: "pol_victim p = (None, p')"
    using assms(2) by (auto simp: shedVictim_def split: prod.splits option.splits)
  then have p': "pol_ok p'" "pol_tracked p' = pol_tracked p" and s: "fst (pol_shed False p') = None"
    using pol_victim_none[OF assms(1) v] assms(2) by (auto simp: shedVictim_def)
  show ?thesis
  proof (cases p)
    case (PolS3FIFO q)
    then obtain q' where q': "p' = PolS3FIFO q'" using v by (auto simp: map_prod_id_eq)
    then show ?thesis
      using s3_shed_inv[of q' False None] p' s by (cases "s3_shed False q'") (simp add: s3_ok_def)
  next
    case (PolTinyLFU q)
    then obtain q' where q': "p' = PolTinyLFU q'" using v by (auto simp: map_prod_id_eq)
    then show ?thesis
      using tl_shed_pulled[of q'] p' s by (auto simp: tl_ok_def)
  qed (use assms(1) v in \<open>auto simp: map_prod_id_eq dest: eager_none_empty\<close>)
qed

lemma pol_setBudget_ok:
  "pol_ok p \<Longrightarrow> pol_ok (pol_setBudget b p) \<and> pol_tracked (pol_setBudget b p) = pol_tracked p"
  by (cases p) (simp_all add: lru_setBudget_def fifo_setBudget_def lfu_setBudget_def s3_ok_def
      s3_setBudget_inv s3_setBudget_tracked tl_setBudget_ok twoq_setBudget_ok arc_setBudget_ok)

lemma pol_reset_ok: "pol_ok p \<Longrightarrow> pol_ok (pol_reset p) \<and> pol_tracked (pol_reset p) = {}"
  by (cases p) (simp_all add: lru_reset_new fifo_reset_new lfu_reset_new lru_new_ok fifo_new_ok
      lfu_new_ok s3_reset_ok tl_reset_ok twoq_reset_ok arc_reset_ok)

lemma pol_access_unneeded: "\<not> pol_promotionNeeded k p \<Longrightarrow> pol_onAccess k p = p"
  by (cases p) (auto simp: lru_promotionNeeded_def lfu_promotionNeeded_def tl_promotionNeeded_def
      arc_promotionNeeded_def fifo_onAccess_def s3_promotionNeeded_def s3_onAccess_def
      twoq_promotionNeeded_def twoq_onAccess_def split: option.splits)

interpretation pol: shard_policy pol_tracked pol_ok pol_onInsert pol_onAccess pol_onUpdate
  pol_onRemove pol_victim pol_len shedVictim pol_setBudget pol_reset pol_promotionNeeded
proof
  fix p p' :: "'a evictionPolicy" and k keep b
  show "pol_onAccess k p = p" if "\<not> pol_promotionNeeded k p" using that by (rule pol_access_unneeded)
  assume ok: "pol_ok p"
  show "finite (pol_tracked p)"
    using ok by (cases p) (simp_all add: lru.finite_tracked fifo.finite_tracked s3.finite_tracked
        lfu.finite_tracked tl.finite_tracked twoq.finite_tracked arc.finite_tracked)
  show "pol_len p = int (card (pol_tracked p))"
    using ok by (cases p) (simp_all add: lru.len_tracked fifo.len_tracked s3.len_tracked
        lfu.len_tracked tl.len_tracked twoq.len_tracked arc.len_tracked)
  show "pol_ok (pol_onInsert k p)" "pol_tracked (pol_onInsert k p) = insert k (pol_tracked p)"
    if "k \<notin> pol_tracked p"
    using ok that by (cases p; simp add: lru.ok_insert fifo.ok_insert s3.ok_insert lfu.ok_insert
        tl.ok_insert twoq.ok_insert arc.ok_insert lru.tracked_insert fifo.tracked_insert
        s3.tracked_insert lfu.tracked_insert tl.tracked_insert twoq.tracked_insert
        arc.tracked_insert)+
  show "pol_ok (pol_onAccess k p)" "pol_tracked (pol_onAccess k p) = pol_tracked p"
    using ok by (cases p; simp add: lru.ok_access fifo.ok_access s3.ok_access lfu.ok_access
        tl.ok_access twoq.ok_access arc.ok_access lru.tracked_access fifo.tracked_access
        s3.tracked_access lfu.tracked_access tl.tracked_access twoq.tracked_access
        arc.tracked_access)+
  show "pol_ok (pol_onUpdate k p)" "pol_tracked (pol_onUpdate k p) = pol_tracked p"
    using ok by (cases p; simp add: lru.ok_update fifo.ok_update s3.ok_update lfu.ok_update
        tl.ok_update twoq.ok_update arc.ok_update lru.tracked_update fifo.tracked_update
        s3.tracked_update lfu.tracked_update tl.tracked_update twoq.tracked_update
        arc.tracked_update)+
  show "pol_ok (pol_onRemove k p)" "pol_tracked (pol_onRemove k p) = pol_tracked p - {k}"
    using ok by (cases p; simp add: lru.ok_remove fifo.ok_remove s3.ok_remove lfu.ok_remove
        tl.ok_remove twoq.ok_remove arc.ok_remove lru.tracked_remove fifo.tracked_remove
        s3.tracked_remove lfu.tracked_remove tl.tracked_remove twoq.tracked_remove
        arc.tracked_remove)+
  show "k \<in> pol_tracked p" "pol_ok (pol_onRemove k p')"
    "pol_tracked (pol_onRemove k p') = pol_tracked p - {k}"
    if "pol_victim p = (Some k, p')"
    using pol_victim_some[OF ok that] by blast+
  show "pol_ok p' \<and> pol_tracked p' = pol_tracked p" if "pol_victim p = (None, p')"
    using pol_victim_none[OF ok that] .
  show "k \<in> pol_tracked p" "pol_ok (pol_onRemove k p')"
    "pol_tracked (pol_onRemove k p') = pol_tracked p - {k}"
    if "shedVictim keep p = (Some k, p')"
    using that pol_victim_some[OF ok] pol_victim_none[OF ok] pol_shed_some
    by (fastforce simp: shedVictim_def split: prod.splits option.splits)+
  show "pol_ok p' \<and> pol_tracked p' = pol_tracked p" if "shedVictim keep p = (None, p')"
    using that pol_victim_none[OF ok] pol_shed_none
    by (fastforce simp: shedVictim_def split: prod.splits option.splits)
  show "\<exists>k. fst (shedVictim False p) = Some k" if "pol_tracked p \<noteq> {}"
    using shedVictim_exists[OF ok] that by blast
  show "pol_ok (pol_setBudget b p)" "pol_tracked (pol_setBudget b p) = pol_tracked p"
    "pol_ok (pol_reset p)" "pol_tracked (pol_reset p) = {}"
    using pol_setBudget_ok[OF ok] pol_reset_ok[OF ok] by simp_all
qed

section \<open>Properties of every policy\<close>

text \<open>C22: The read fast path loses nothing. Whatever the policy, when \<open>PromotionNeeded\<close> answers
  false for an entry, \<open>OnAccess\<close> would leave the policy as it is, so a hit served under the read
  lock without telling the policy has the same effect as one that does.\<close>
theorem fast_path_sound:
  "\<not> pol_promotionNeeded k p \<Longrightarrow> pol_onAccess k p = p"
  by (rule pol.access_unneeded)

theorem fast_path_sound_witness:
  "\<not> pol_promotionNeeded (2::nat) (PolTwoQ (twoq_onInsert 2 (newTwoQ 4))) \<and>
   pol_onAccess (2::nat) (PolTwoQ (twoq_onInsert 2 (newTwoQ 4))) =
     PolTwoQ (twoq_onInsert 2 (newTwoQ 4))"
proof -
  have "\<not> pol_promotionNeeded (2::nat) (PolTwoQ (twoq_onInsert 2 (newTwoQ 4)))"
    by (simp add: twoq_promotionNeeded_def twoq_onInsert_def newTwoQ_def twoq_prims gh_empty_def
        split: prod.split)
  from this fast_path_sound[OF this] show ?thesis by (rule conjI)
qed

end
