(* ===== verification/Sketch_Bloom.thy ===== *)
theory Sketch_Bloom
  imports Sketch_CMS
begin

text \<open>
  The bloom filter of internal/sketch/bloom.go and the admission policies of admission.go built on
  it. The filter is shown to have no false negatives, \<open>TestAndSet\<close> to be \<open>Test\<close> followed by
  \<open>Set\<close>, and the doorkeeper to admit exactly from the second sighting on until it clears itself.
\<close>

unbundle bit_operations_syntax

record bloom =
  bl_bits :: "64 word list"
  bl_mask :: "64 word"
  bl_seeds :: "64 word list"

definition bloom_defaultSeeds :: "64 word list" where
  "bloom_defaultSeeds = map (\<lambda>i. MixUint64 (0x6a09e667f3bcc908 + of_nat i)) [0..<4]"

definition NewBloom :: "int \<Rightarrow> 64 word list \<Rightarrow> bloom" where
  "NewBloom expected seeds =
     (let k = 4;
          seeds = (if length seeds < k then bloom_defaultSeeds else seeds);
          bits = grow (max (expected * 8) 64) 64
      in \<lparr>bl_bits = replicate (nat (bits div 64)) 0, bl_mask = word_of_int (bits - 1),
          bl_seeds = take k seeds\<rparr>)"

definition bl_bit :: "64 word \<Rightarrow> 64 word \<Rightarrow> bloom \<Rightarrow> 64 word" where
  "bl_bit h s b = (MixUint64 (h XOR s) AND bl_mask b)"

definition bl_word :: "64 word \<Rightarrow> nat" where
  "bl_word pos = unat (drop_bit 6 pos)"

definition bl_one :: "64 word \<Rightarrow> 64 word" where
  "bl_one pos = push_bit (unat (pos AND 63)) 1"

fun bloom_TestSeeds :: "64 word list \<Rightarrow> 64 word \<Rightarrow> bloom \<Rightarrow> bool" where
  "bloom_TestSeeds [] h b = True"
| "bloom_TestSeeds (s # ss) h b =
     (let pos = bl_bit h s b
      in if bl_bits b ! bl_word pos AND bl_one pos = 0 then False else bloom_TestSeeds ss h b)"

definition bloom_Test :: "64 word \<Rightarrow> bloom \<Rightarrow> bool" where
  "bloom_Test h b = bloom_TestSeeds (bl_seeds b) h b"

definition bl_orWord :: "64 word \<Rightarrow> bloom \<Rightarrow> bloom" where
  "bl_orWord pos b =
     b\<lparr>bl_bits := (bl_bits b)[bl_word pos := bl_bits b ! bl_word pos OR bl_one pos]\<rparr>"

definition bl_mark :: "64 word \<Rightarrow> 64 word \<Rightarrow> bloom \<Rightarrow> bloom" where
  "bl_mark h s b = bl_orWord (bl_bit h s b) b"

definition bloom_Set :: "64 word \<Rightarrow> bloom \<Rightarrow> bloom" where
  "bloom_Set h b = fold (bl_mark h) (bl_seeds b) b"

fun bloom_TestAndSetSeeds :: "64 word list \<Rightarrow> 64 word \<Rightarrow> bool \<Rightarrow> bloom \<Rightarrow> bool \<times> bloom" where
  "bloom_TestAndSetSeeds [] h seen b = (seen, b)"
| "bloom_TestAndSetSeeds (s # ss) h seen b =
     (let pos = bl_bit h s b;
          seen = (if bl_bits b ! bl_word pos AND bl_one pos = 0 then False else seen)
      in bloom_TestAndSetSeeds ss h seen (bl_orWord pos b))"

definition bloom_TestAndSet :: "64 word \<Rightarrow> bloom \<Rightarrow> bool \<times> bloom" where
  "bloom_TestAndSet h b = bloom_TestAndSetSeeds (bl_seeds b) h True b"

definition bloom_Reset :: "bloom \<Rightarrow> bloom" where
  "bloom_Reset b = b\<lparr>bl_bits := map (\<lambda>_. 0) (bl_bits b)\<rparr>"

section \<open>The filter as a set of positions\<close>

definition bloom_ok :: "bloom \<Rightarrow> bool" where
  "bloom_ok b \<longleftrightarrow> 64 * length (bl_bits b) = unat (bl_mask b) + 1"

definition bl_marked :: "bloom \<Rightarrow> 64 word \<Rightarrow> bool" where
  "bl_marked b pos \<longleftrightarrow> bl_bits b ! bl_word pos AND bl_one pos \<noteq> 0"

definition bl_position :: "64 word \<Rightarrow> nat" where
  "bl_position pos = unat (pos AND 63)"

lemma bl_position_lt: "bl_position pos < 64"
proof -
  have "pos AND 63 \<le> 63" by (rule word_and_le1)
  then show ?thesis by (simp add: bl_position_def word_le_nat_alt)
qed

lemma bl_marked_bit: "bl_marked b i \<longleftrightarrow> bit (bl_bits b ! bl_word i) (bl_position i)"
proof -
  have "w AND push_bit n 1 \<noteq> 0 \<longleftrightarrow> bit w n" if "n < 64" for w :: "64 word" and n
    using that by (simp add: push_bit_eq_mult and_exp_eq_0_iff_not_bit)
  then show ?thesis
    using bl_position_lt[of i] by (simp add: bl_marked_def bl_one_def bl_position_def)
qed

lemma bl_word_valid: "bloom_ok b \<Longrightarrow> pos \<le> bl_mask b \<Longrightarrow> bl_word pos < length (bl_bits b)"
proof -
  assume "bloom_ok b" and "pos \<le> bl_mask b"
  then have "unat pos < 64 * length (bl_bits b)"
    by (simp add: bloom_ok_def word_le_nat_alt)
  then show ?thesis
    by (simp add: bl_word_def drop_bit_eq_div unat_div less_mult_imp_div_less mult.commute)
qed

lemma unat_and_63: "unat (k AND 63 :: 64 word) = unat k mod 64"
proof -
  have "k AND 63 = take_bit 6 k" by (simp add: take_bit_eq_mask mask_eq_exp_minus_1)
  then show ?thesis by (simp add: take_bit_eq_mod unat_mod)
qed

lemma bl_split:
  assumes "bl_word i = bl_word j" and "bl_position i = bl_position j"
  shows "i = j"
proof -
  have "unat k = 64 * bl_word k + bl_position k" for k
    using div_mult_mod_eq[of "unat k" 64]
    by (simp add: bl_word_def bl_position_def drop_bit_eq_div unat_div unat_and_63 mult.commute)
  then show ?thesis using assms by (simp add: word_unat_eq_iff)
qed

lemma bl_orWord_marked:
  assumes "bloom_ok b" and "i \<le> bl_mask b"
  shows "bl_marked (bl_orWord i b) j \<longleftrightarrow> bl_marked b j \<or> i = j"
proof -
  have one: "bit (bl_one i) n \<longleftrightarrow> n = bl_position i" for n
    using bl_position_lt[of i] by (auto simp: bl_one_def bl_position_def bit_simps)
  have w: "bl_word i < length (bl_bits b)" using assms by (rule bl_word_valid)
  show ?thesis
  proof (cases "bl_word j = bl_word i")
    case True
    then show ?thesis
      using w one bl_split[of i j] by (auto simp: bl_marked_bit bl_orWord_def bit_or_iff)
  next
    case False
    then show ?thesis
      using w by (auto simp: bl_marked_bit bl_orWord_def)
  qed
qed

lemma bl_orWord_frame [simp]:
  "bl_mask (bl_orWord i b) = bl_mask b" "bl_seeds (bl_orWord i b) = bl_seeds b"
  "bl_bit h s (bl_orWord i b) = bl_bit h s b" "bloom_ok (bl_orWord i b) = bloom_ok b"
  by (simp_all add: bl_orWord_def bl_bit_def bloom_ok_def)

lemma bl_bit_le: "bl_bit h s b \<le> bl_mask b"
  by (simp add: bl_bit_def word_and_le1)

lemma bloom_Test_marked: "bloom_Test h b \<longleftrightarrow> (\<forall>s \<in> set (bl_seeds b). bl_marked b (bl_bit h s b))"
proof -
  have "bloom_TestSeeds ss h b \<longleftrightarrow> (\<forall>s \<in> set ss. bl_marked b (bl_bit h s b))" for ss
    by (induction ss) (simp_all add: Let_def bl_marked_def)
  then show ?thesis by (simp add: bloom_Test_def)
qed

lemma bloom_fold_marked:
  assumes "bloom_ok b"
  shows "bl_mask (fold (bl_mark h) ss b) = bl_mask b \<and> bl_seeds (fold (bl_mark h) ss b) = bl_seeds b \<and>
     bloom_ok (fold (bl_mark h) ss b) \<and>
     (\<forall>j. bl_marked (fold (bl_mark h) ss b) j \<longleftrightarrow> bl_marked b j \<or> (\<exists>s \<in> set ss. j = bl_bit h s b))"
  using assms
proof (induction ss arbitrary: b)
  case (Cons s ss)
  show ?case
    using Cons.IH[of "bl_mark h s b"] Cons.prems bl_orWord_marked[OF Cons.prems bl_bit_le]
    by (auto simp: bl_mark_def)
qed simp

text \<open>What \<open>Set\<close> marks.\<close>

lemma bloom_Set_spec:
  assumes "bloom_ok b"
  shows "bl_mask (bloom_Set h b) = bl_mask b" "bl_seeds (bloom_Set h b) = bl_seeds b"
    "bloom_ok (bloom_Set h b)"
    "bl_marked (bloom_Set h b) j \<longleftrightarrow> bl_marked b j \<or> (\<exists>s \<in> set (bl_seeds b). j = bl_bit h s b)"
  using bloom_fold_marked[OF assms, of h "bl_seeds b"] by (simp_all add: bloom_Set_def)

lemma bloom_Set_Test: "bloom_ok b \<Longrightarrow> bloom_Test h (bloom_Set h b)"
  by (auto simp: bloom_Test_marked bloom_Set_spec bl_bit_def)

lemma bloom_Test_mono: "bloom_ok b \<Longrightarrow> bloom_Test h b \<Longrightarrow> bloom_Test h (bloom_Set h' b)"
  by (simp add: bloom_Test_marked bloom_Set_spec bl_bit_def)

lemma bloom_TestAndSet_seeds:
  assumes "bloom_ok b"
  shows "fst (bloom_TestAndSetSeeds ss h seen b) = (seen \<and> (\<forall>s \<in> set ss. bl_marked b (bl_bit h s b)))"
    and "snd (bloom_TestAndSetSeeds ss h seen b) = fold (bl_mark h) ss b"
  using assms
proof (induction ss arbitrary: b seen)
  case (Cons s ss)
  {
    case 1
    let ?b = "bl_orWord (bl_bit h s b) b"
    show ?case
    proof (cases "bl_marked b (bl_bit h s b)")
      case True
      then have "bl_marked ?b j = bl_marked b j" for j
        using bl_orWord_marked[OF 1 bl_bit_le, of h s j] by auto
      then show ?thesis
        using Cons.IH(1)[of ?b] 1 True True[unfolded bl_marked_def] by (simp add: Let_def)
    next
      case False
      then show ?thesis
        using Cons.IH(1)[of ?b False] 1 by (simp add: Let_def) (simp add: bl_marked_def)
    qed
  next
    case 2
    then show ?case using Cons.IH(2)[of "bl_mark h s b"] by (simp add: Let_def bl_mark_def)
  }
qed simp_all

text \<open>\<open>TestAndSet\<close> tests and sets, also when two of the four positions coincide.\<close>

lemma bloom_TestAndSet_eq: "bloom_ok b \<Longrightarrow> bloom_TestAndSet h b = (bloom_Test h b, bloom_Set h b)"
  using bloom_TestAndSet_seeds[of b "bl_seeds b" h True]
  by (simp add: bloom_TestAndSet_def bloom_Test_marked bloom_Set_def prod_eq_iff)

lemma bloom_Reset_spec: "bloom_ok b \<Longrightarrow> bloom_ok (bloom_Reset b)"
  by (simp add: bloom_Reset_def bloom_ok_def)

lemma bloom_Reset_marked:
  assumes "bloom_ok b" and "j \<le> bl_mask b"
  shows "\<not> bl_marked (bloom_Reset b) j"
  using bl_word_valid[OF assms] by (simp add: bl_marked_def bloom_Reset_def)

lemma NewBloom_ok:
  assumes "expected \<le> 2 ^ 58"
  shows "bloom_ok (NewBloom expected seeds)"
proof -
  let ?t = "max (expected * 8) 64"
  obtain k where k: "grow ?t 64 = 64 * 2 ^ k" and le: "grow ?t 64 = 64 \<or> grow ?t 64 < 2 * ?t"
    using grow_spec[of 64 ?t] by auto
  have lt: "0 < grow ?t 64" "grow ?t 64 < 2 ^ 64"
    using k le assms by (auto simp: max_def split: if_splits)
  then have "uint (word_of_int (grow ?t 64 - 1) :: 64 word) = grow ?t 64 - 1"
    unfolding uint_word_of_int by simp
  then have "unat (bl_mask (NewBloom expected seeds)) + 1 = nat (grow ?t 64)"
    using lt by (simp add: NewBloom_def Let_def unat_eq_nat_uint nat_diff_distrib)
  moreover have "64 * nat (grow ?t 64 div 64) = nat (grow ?t 64)"
    unfolding k by (simp add: nat_mult_distrib)
  ultimately show ?thesis by (simp add: bloom_ok_def) (simp add: NewBloom_def Let_def)
qed

section \<open>Admission policies\<close>

text \<open>The doorkeeper of admission.go; the key hasher is a parameter.\<close>

record doorkeeper =
  dk_bloom :: bloom
  dk_expected :: int
  dk_added :: int

definition NewDoorkeeper :: "int \<Rightarrow> doorkeeper" where
  "NewDoorkeeper expected =
     \<lparr>dk_bloom = NewBloom expected [0xC0DECAFE, 0xBEEFFACE, 0xDEADBEEF, 0xFEEDFACE],
      dk_expected = max expected 1, dk_added = 0\<rparr>"

definition dk_Admit :: "('k \<Rightarrow> 64 word) \<Rightarrow> 'k \<Rightarrow> doorkeeper \<Rightarrow> bool" where
  "dk_Admit hasher k d = bloom_Test (hasher k) (dk_bloom d)"

definition dk_Observe :: "('k \<Rightarrow> 64 word) \<Rightarrow> 'k \<Rightarrow> doorkeeper \<Rightarrow> doorkeeper" where
  "dk_Observe hasher k d =
     (let h = hasher k
      in if bloom_Test h (dk_bloom d) then d
         else let d = (if dk_added d \<ge> dk_expected d
                       then d\<lparr>dk_bloom := bloom_Reset (dk_bloom d), dk_added := 0\<rparr> else d)
              in d\<lparr>dk_bloom := bloom_Set h (dk_bloom d), dk_added := dk_added d + 1\<rparr>)"

definition dk_Reset :: "doorkeeper \<Rightarrow> doorkeeper" where
  "dk_Reset d = d\<lparr>dk_bloom := bloom_Reset (dk_bloom d), dk_added := 0\<rparr>"

text \<open>The admission policies of the package: the default and the doorkeeper. (A policy a caller
  installs with \<open>WithAdmissionPolicy\<close> is code outside the package.)\<close>

datatype 'k admission =
  AdmitAlways
| Doorkeeper doorkeeper

definition adm_Admit :: "('k \<Rightarrow> 64 word) \<Rightarrow> 'k \<Rightarrow> 'k admission \<Rightarrow> bool" where
  "adm_Admit hasher k a = (case a of AdmitAlways \<Rightarrow> True | Doorkeeper d \<Rightarrow> dk_Admit hasher k d)"

definition adm_Observe :: "('k \<Rightarrow> 64 word) \<Rightarrow> 'k \<Rightarrow> 'k admission \<Rightarrow> 'k admission" where
  "adm_Observe hasher k a =
     (case a of AdmitAlways \<Rightarrow> AdmitAlways | Doorkeeper d \<Rightarrow> Doorkeeper (dk_Observe hasher k d))"

definition adm_Reset :: "'k admission \<Rightarrow> 'k admission" where
  "adm_Reset a = (case a of AdmitAlways \<Rightarrow> AdmitAlways | Doorkeeper d \<Rightarrow> Doorkeeper (dk_Reset d))"

definition dk_ok :: "doorkeeper \<Rightarrow> bool" where
  "dk_ok d \<longleftrightarrow> bloom_ok (dk_bloom d) \<and> 1 \<le> dk_expected d \<and> 0 \<le> dk_added d \<and> dk_added d \<le> dk_expected d"

lemma dk_new_ok: "expected \<le> 2 ^ 58 \<Longrightarrow> dk_ok (NewDoorkeeper expected)"
  by (simp add: dk_ok_def NewDoorkeeper_def NewBloom_ok)

lemma dk_Observe_ok: "dk_ok d \<Longrightarrow> dk_ok (dk_Observe hasher k d)"
  by (auto simp: dk_ok_def dk_Observe_def Let_def bloom_Set_spec bloom_Reset_spec)

text \<open>An observation that does not clear the filter: the key is known already, or the filter has
  not yet recorded its expected number of keys.\<close>

definition dk_keeps :: "('k \<Rightarrow> 64 word) \<Rightarrow> 'k \<Rightarrow> doorkeeper \<Rightarrow> bool" where
  "dk_keeps hasher k d \<longleftrightarrow> dk_Admit hasher k d \<or> dk_added d < dk_expected d"

lemma dk_Observe_admits: "dk_ok d \<Longrightarrow> dk_Admit hasher k (dk_Observe hasher k d)"
  by (auto simp: dk_ok_def dk_Observe_def dk_Admit_def Let_def bloom_Set_Test bloom_Reset_spec)

lemma dk_Observe_mono:
  "dk_ok d \<Longrightarrow> dk_keeps hasher k' d \<Longrightarrow> dk_Admit hasher k d \<Longrightarrow> dk_Admit hasher k (dk_Observe hasher k' d)"
  by (auto simp: dk_ok_def dk_Observe_def dk_Admit_def dk_keeps_def Let_def bloom_Test_mono)

fun dk_run :: "('k \<Rightarrow> 64 word) \<Rightarrow> 'k list \<Rightarrow> doorkeeper \<Rightarrow> doorkeeper" where
  "dk_run hasher [] d = d"
| "dk_run hasher (k # ks) d = dk_run hasher ks (dk_Observe hasher k d)"

text \<open>Fewer observations than the expected number of keys never clear the filter.\<close>

lemma dk_run_keeps:
  assumes "dk_ok d" and "dk_added d + int (length ks) \<le> dk_expected d" and "dk_Admit hasher k d"
  shows "dk_Admit hasher k (dk_run hasher ks d)"
  using assms
proof (induction ks arbitrary: d)
  case (Cons j ks)
  have "dk_keeps hasher j d" using Cons.prems(2) by (simp add: dk_keeps_def)
  moreover have "dk_added (dk_Observe hasher j d) \<le> dk_added d + 1" "dk_expected (dk_Observe hasher j d) = dk_expected d"
    using Cons.prems(1) by (auto simp: dk_Observe_def Let_def dk_ok_def)
  ultimately show ?case
    using Cons.prems by (auto intro!: Cons.IH dk_Observe_ok dk_Observe_mono)
qed simp

lemma dk_run_admits:
  assumes "dk_ok d" and "dk_added d + int (length ks) \<le> dk_expected d" and "k \<in> set ks"
  shows "dk_Admit hasher k (dk_run hasher ks d)"
  using assms
proof (induction ks arbitrary: d)
  case (Cons j ks)
  have le: "dk_added (dk_Observe hasher j d) \<le> dk_added d + 1" "dk_expected (dk_Observe hasher j d) = dk_expected d"
    using Cons.prems(1,2) by (auto simp: dk_Observe_def Let_def dk_ok_def)
  show ?case
  proof (cases "k = j")
    case True
    then show ?thesis
      using Cons.prems le by (auto intro!: dk_run_keeps dk_Observe_ok dk_Observe_admits)
  next
    case False
    then show ?thesis
      using Cons.prems le by (auto intro!: Cons.IH dk_Observe_ok)
  qed
qed simp

text \<open>C16: The doorkeeper admits every key it has seen. A fresh doorkeeper for \<open>n\<close> expected keys,
  after observing any sequence of at most \<open>n\<close> keys, admits each of them (whatever the hasher and
  however its hashes collide); it clears itself only when it has recorded \<open>n\<close> keys.\<close>

theorem doorkeeper_admits_seen:
  assumes "n \<le> 2 ^ 58" and "int (length ks) \<le> n" and "k \<in> set ks"
  shows "dk_Admit hasher k (dk_run hasher ks (NewDoorkeeper n))"
  using assms by (intro dk_run_admits dk_new_ok) (auto simp: NewDoorkeeper_def)

theorem doorkeeper_admits_seen_witness:
  "dk_Admit (\<lambda>k. of_nat k) 5 (dk_run (\<lambda>k. of_nat k) [4, 5, 6 :: nat] (NewDoorkeeper 3))"
  using doorkeeper_admits_seen[of 3 "[4, 5, 6 :: nat]" 5 "\<lambda>k. of_nat k"] by simp

text \<open>C15: \<open>TestAndSet\<close> answers whether the hash was set before and makes it set: in a well-formed filter with at least one seed, after \<open>TestAndSet\<close> the
  hash tests positive, everything that tested positive before still does, and after \<open>Reset\<close>
  nothing does.\<close>

theorem bloom_no_false_negative:
  assumes "bloom_ok b" and "bl_seeds b \<noteq> []"
  shows "fst (bloom_TestAndSet h b) = bloom_Test h b \<and>
     bloom_Test h (snd (bloom_TestAndSet h b)) \<and>
     (bloom_Test h' b \<longrightarrow> bloom_Test h' (snd (bloom_TestAndSet h b))) \<and>
     \<not> bloom_Test h (bloom_Reset b)"
proof -
  obtain s where "s \<in> set (bl_seeds b)" using assms(2) by (cases "bl_seeds b") auto
  moreover have "bl_mask (bloom_Reset b) = bl_mask b" "bl_seeds (bloom_Reset b) = bl_seeds b"
    by (simp_all add: bloom_Reset_def)
  ultimately have "\<not> bloom_Test h (bloom_Reset b)"
    using bloom_Reset_marked[OF assms(1) bl_bit_le] by (auto simp: bloom_Test_marked bl_bit_def)
  then show ?thesis
    using assms(1) by (simp add: bloom_TestAndSet_eq bloom_Set_Test bloom_Test_mono)
qed

theorem bloom_no_false_negative_witness:
  "bloom_Test 7 (snd (bloom_TestAndSet 7 (NewBloom 10 [])))"
  using bloom_no_false_negative[OF NewBloom_ok, of 10 "[]" 7]
  by (simp add: NewBloom_def Let_def bloom_defaultSeeds_def)

end
