(* ===== verification/Expiry_Heap.thy ===== *)
theory Expiry_Heap
  imports Prelude "HOL-Library.Multiset"
begin

text \<open>
  The expiry heap (expiry.go, the heap half of ttlbackend.go): the slice of tracked entries as a
  list of keys, and the \<open>heapIndex\<close> field of every entry as a map. Entries are compared by their
  current \<open>expireAt\<close>, which belongs to the entry and not to the heap, so every operation takes it
  as the function \<open>ex\<close>. The sift loops are those of Go's \<open>container/heap\<close>, which drives the slice
  through \<open>Len\<close>, \<open>Less\<close>, \<open>Swap\<close>, \<open>Push\<close> and \<open>Pop\<close>.

  The lemmas show that the operations keep the heap order and the recorded positions (also when
  the expiry of one entry has just changed, which is what \<open>Fix\<close> is for), and that \<open>Sweep\<close> returns
  exactly the entries whose time has come, in order of expiry.
\<close>

record 'k eheap =
  hp :: "'k list"
  hidx :: "'k \<Rightarrow> int"

definition eheap_empty :: "'k eheap" where
  "eheap_empty = \<lparr>hp = [], hidx = (\<lambda>_. - 1)\<rparr>"

definition eh_Len :: "'k eheap \<Rightarrow> nat" where
  "eh_Len h = length (hp h)"

definition eh_Less :: "('k \<Rightarrow> int) \<Rightarrow> nat \<Rightarrow> nat \<Rightarrow> 'k eheap \<Rightarrow> bool" where
  "eh_Less ex i j h = (ex (hp h ! i) < ex (hp h ! j))"

definition eh_Swap :: "nat \<Rightarrow> nat \<Rightarrow> 'k eheap \<Rightarrow> 'k eheap" where
  "eh_Swap i j h =
     (let a = hp h ! i; b = hp h ! j
      in h\<lparr>hp := (hp h)[i := b, j := a], hidx := (hidx h)(b := int i, a := int j)\<rparr>)"

definition eh_Push :: "'k \<Rightarrow> 'k eheap \<Rightarrow> 'k eheap" where
  "eh_Push e h = h\<lparr>hidx := (hidx h)(e := int (length (hp h))), hp := hp h @ [e]\<rparr>"

definition eh_Pop :: "'k eheap \<Rightarrow> 'k \<times> 'k eheap" where
  "eh_Pop h = (let e = last (hp h) in (e, h\<lparr>hp := butlast (hp h), hidx := (hidx h)(e := - 1)\<rparr>))"

section \<open>The sift loops of container/heap\<close>

text \<open>The root's parent is the root itself (Go divides towards zero), which ends the loop.\<close>

definition par :: "nat \<Rightarrow> nat" where
  "par j = (j - 1) div 2"

lemma par_less: "0 < j \<Longrightarrow> par j < j" and par_le: "par j \<le> j"
  by (auto simp: par_def)

function heap_up :: "('k \<Rightarrow> int) \<Rightarrow> nat \<Rightarrow> 'k eheap \<Rightarrow> 'k eheap" where
  "heap_up ex j h =
     (if j = 0 then h
      else let i = par j
           in if eh_Less ex j i h then heap_up ex i (eh_Swap i j h) else h)"
  by auto
termination
  by (relation "measure (\<lambda>(ex, j, h). j)") (auto simp: par_less)

declare heap_up.simps [simp del]

definition heap_child :: "('k \<Rightarrow> int) \<Rightarrow> nat \<Rightarrow> nat \<Rightarrow> 'k eheap \<Rightarrow> nat" where
  "heap_child ex i n h =
     (if 2 * i + 2 < n \<and> eh_Less ex (2 * i + 2) (2 * i + 1) h then 2 * i + 2 else 2 * i + 1)"

function heap_sift :: "('k \<Rightarrow> int) \<Rightarrow> nat \<Rightarrow> nat \<Rightarrow> 'k eheap \<Rightarrow> nat \<times> 'k eheap" where
  "heap_sift ex i n h =
     (if 2 * i + 1 \<ge> n then (i, h)
      else let j = heap_child ex i n h
           in if eh_Less ex j i h then heap_sift ex j n (eh_Swap i j h) else (i, h))"
  by auto
termination
  by (relation "measure (\<lambda>(ex, i, n, h). n - i)") (auto simp: heap_child_def)

declare heap_sift.simps [simp del]

definition heap_down :: "('k \<Rightarrow> int) \<Rightarrow> nat \<Rightarrow> nat \<Rightarrow> 'k eheap \<Rightarrow> bool \<times> 'k eheap" where
  "heap_down ex i n h = (let (i', h) = heap_sift ex i n h in (i' > i, h))"

definition heap_Push :: "('k \<Rightarrow> int) \<Rightarrow> 'k \<Rightarrow> 'k eheap \<Rightarrow> 'k eheap" where
  "heap_Push ex e h = (let h = eh_Push e h in heap_up ex (eh_Len h - 1) h)"

definition heap_Pop :: "('k \<Rightarrow> int) \<Rightarrow> 'k eheap \<Rightarrow> 'k \<times> 'k eheap" where
  "heap_Pop ex h =
     (let n = eh_Len h - 1; h = eh_Swap 0 n h; (_, h) = heap_down ex 0 n h in eh_Pop h)"

definition heap_settle :: "('k \<Rightarrow> int) \<Rightarrow> nat \<Rightarrow> nat \<Rightarrow> 'k eheap \<Rightarrow> 'k eheap" where
  "heap_settle ex i n h =
     (let (moved, h) = heap_down ex i n h in if moved then h else heap_up ex i h)"

definition heap_Remove :: "('k \<Rightarrow> int) \<Rightarrow> nat \<Rightarrow> 'k eheap \<Rightarrow> 'k \<times> 'k eheap" where
  "heap_Remove ex i h =
     (let n = eh_Len h - 1;
          h = (if n \<noteq> i then heap_settle ex i n (eh_Swap i n h) else h)
      in eh_Pop h)"

definition heap_Fix :: "('k \<Rightarrow> int) \<Rightarrow> nat \<Rightarrow> 'k eheap \<Rightarrow> 'k eheap" where
  "heap_Fix ex i h = heap_settle ex i (eh_Len h) h"

section \<open>The backend\<close>

definition heapb_Add :: "('k \<Rightarrow> int) \<Rightarrow> 'k \<Rightarrow> 'k eheap \<Rightarrow> 'k eheap" where
  "heapb_Add ex e h = (if ex e = 0 then h\<lparr>hidx := (hidx h)(e := - 1)\<rparr> else heap_Push ex e h)"

definition heapb_Remove :: "('k \<Rightarrow> int) \<Rightarrow> 'k \<Rightarrow> 'k eheap \<Rightarrow> 'k eheap" where
  "heapb_Remove ex e h =
     (if hidx h e < 0 \<or> hidx h e \<ge> int (eh_Len h) then h
      else snd (heap_Remove ex (nat (hidx h e)) h))"

definition heapb_Fix :: "('k \<Rightarrow> int) \<Rightarrow> 'k \<Rightarrow> 'k eheap \<Rightarrow> 'k eheap" where
  "heapb_Fix ex e h =
     (if hidx h e < 0 \<and> ex e > 0 then heap_Push ex e h
      else if hidx h e \<ge> 0 \<and> ex e = 0 then snd (heap_Remove ex (nat (hidx h e)) h)
      else if hidx h e \<ge> 0 then heap_Fix ex (nat (hidx h e)) h
      else h)"

definition heapb_Reset :: "'k eheap \<Rightarrow> 'k eheap" where
  "heapb_Reset h = \<lparr>hp = [], hidx = (\<lambda>e. if e \<in> set (hp h) then - 1 else hidx h e)\<rparr>"

lemma eh_Swap_length [simp]: "length (hp (eh_Swap i j h)) = length (hp h)"
  by (simp add: eh_Swap_def Let_def)

lemma heap_up_length [simp]: "length (hp (heap_up ex j h)) = length (hp h)"
proof (induction ex j h rule: heap_up.induct)
  case (1 ex j h)
  then show ?case by (subst heap_up.simps) (simp add: Let_def)
qed

lemma heap_sift_length [simp]: "length (hp (snd (heap_sift ex i n h))) = length (hp h)"
proof (induction ex i n h rule: heap_sift.induct)
  case (1 ex i n h)
  then show ?case by (subst heap_sift.simps) (simp add: Let_def)
qed

lemma heap_down_eq: "heap_down ex i n h = (fst (heap_sift ex i n h) > i, snd (heap_sift ex i n h))"
  by (simp add: heap_down_def case_prod_beta)

lemma heap_Pop_length: "hp h \<noteq> [] \<Longrightarrow> length (hp (snd (heap_Pop ex h))) < length (hp h)"
  by (simp add: heap_Pop_def eh_Pop_def heap_down_eq Let_def)

function heapb_Sweep :: "('k \<Rightarrow> int) \<Rightarrow> int \<Rightarrow> 'k eheap \<Rightarrow> 'k list \<times> 'k eheap" where
  "heapb_Sweep ex now h =
     (if eh_Len h > 0 \<and> ex (hp h ! 0) \<le> now
      then let (e, h) = heap_Pop ex h; (out, h) = heapb_Sweep ex now h in (e # out, h)
      else ([], h))"
  by auto
termination
  by (relation "measure (\<lambda>(ex, now, h). length (hp h))") (auto simp: eh_Len_def, metis heap_Pop_length snd_conv)

declare heapb_Sweep.simps [simp del]

section \<open>Positions\<close>

definition eh_ok :: "'k eheap \<Rightarrow> bool" where
  "eh_ok h \<longleftrightarrow> distinct (hp h) \<and> (\<forall>i < length (hp h). hidx h (hp h ! i) = int i) \<and>
     (\<forall>e. e \<notin> set (hp h) \<longrightarrow> hidx h e = - 1)"

lemma eh_ok_nth_eq: "eh_ok h \<Longrightarrow> i < length (hp h) \<Longrightarrow> j < length (hp h) \<Longrightarrow>
    hp h ! i = hp h ! j \<longleftrightarrow> i = j"
  by (simp add: eh_ok_def nth_eq_iff_index_eq)

lemma eh_Swap_mset:
  "i < length (hp h) \<Longrightarrow> j < length (hp h) \<Longrightarrow> mset (hp (eh_Swap i j h)) = mset (hp h)"
  by (simp add: eh_Swap_def Let_def mset_swap)

lemma eh_Swap_ok:
  assumes ok: "eh_ok h" and i: "i < length (hp h)" and j: "j < length (hp h)"
  shows "eh_ok (eh_Swap i j h)"
proof -
  have m: "mset (hp (eh_Swap i j h)) = mset (hp h)" using eh_Swap_mset i j .
  then have d: "distinct (hp (eh_Swap i j h))" and st: "set (hp (eh_Swap i j h)) = set (hp h)"
    using ok by (auto simp: eh_ok_def dest: mset_eq_setD intro: mset_eq_imp_distinct_iff[THEN iffD2])
  have "hidx (eh_Swap i j h) (hp (eh_Swap i j h) ! k) = int k" if k: "k < length (hp h)" for k
  proof -
    have "hidx h (hp h ! k) = int k" using ok k by (simp add: eh_ok_def)
    then show ?thesis
      using eh_ok_nth_eq[OF ok] i j k by (auto simp: eh_Swap_def Let_def nth_list_update)
  qed
  moreover have "hidx (eh_Swap i j h) e = - 1" if "e \<notin> set (hp h)" for e
    using ok that nth_mem[OF i] nth_mem[OF j] by (auto simp: eh_Swap_def Let_def eh_ok_def)
  ultimately show ?thesis
    using d st by (simp add: eh_ok_def)
qed

lemma heap_up_ok:
  "eh_ok h \<Longrightarrow> j < length (hp h) \<Longrightarrow> eh_ok (heap_up ex j h) \<and> mset (hp (heap_up ex j h)) = mset (hp h)"
proof (induction ex j h rule: heap_up.induct)
  case (1 ex j h)
  let ?i = "par j"
  have i: "?i < length (hp h)" using 1(3) par_le[of j] by simp
  show ?case
  proof (cases "j = 0 \<or> \<not> eh_Less ex j ?i h")
    case True
    then show ?thesis using 1(2) by (subst (1 2) heap_up.simps) (auto simp: Let_def)
  next
    case False
    then have "heap_up ex j h = heap_up ex ?i (eh_Swap ?i j h)"
      by (subst heap_up.simps) (simp add: Let_def)
    then show ?thesis
      using 1(1)[OF _ refl] False eh_Swap_ok[OF 1(2) i 1(3)] eh_Swap_mset[OF i 1(3)] i by simp
  qed
qed

lemma heap_child_less: "2 * i + 1 < n \<Longrightarrow> heap_child ex i n h < n"
  by (simp add: heap_child_def)

lemma heap_sift_ok:
  "eh_ok h \<Longrightarrow> i < n \<Longrightarrow> n \<le> length (hp h) \<Longrightarrow>
   eh_ok (snd (heap_sift ex i n h)) \<and> mset (hp (snd (heap_sift ex i n h))) = mset (hp h)"
proof (induction ex i n h rule: heap_sift.induct)
  case (1 ex i n h)
  let ?j = "heap_child ex i n h"
  show ?case
  proof (cases "2 * i + 1 \<ge> n \<or> \<not> eh_Less ex ?j i h")
    case True
    then show ?thesis using 1(2) by (subst (1 2) heap_sift.simps) (auto simp: Let_def)
  next
    case False
    then have j: "?j < n" using heap_child_less by (metis not_le)
    have "heap_sift ex i n h = heap_sift ex ?j n (eh_Swap i ?j h)"
      using False by (subst heap_sift.simps) (simp add: Let_def)
    then show ?thesis
      using 1(1)[OF _ refl] False j eh_Swap_ok[OF 1(2), of i ?j] eh_Swap_mset[of i h ?j] 1(3,4) by simp
  qed
qed

section \<open>The heap order\<close>

text \<open>The order is a property of the priorities by position. \<open>ordered n P\<close> says that every
  position but the root is at least its parent; \<open>settled n P i\<close> says the same except around
  position \<open>i\<close>, whose children are still at least its parent: this is the state in which the
  priority at \<open>i\<close> is arbitrary.\<close>

definition ordered :: "nat \<Rightarrow> (nat \<Rightarrow> int) \<Rightarrow> bool" where
  "ordered n P \<longleftrightarrow> (\<forall>k. 0 < k \<longrightarrow> k < n \<longrightarrow> P (par k) \<le> P k)"

definition bridged :: "nat \<Rightarrow> (nat \<Rightarrow> int) \<Rightarrow> nat \<Rightarrow> bool" where
  "bridged n P i \<longleftrightarrow> (0 < i \<longrightarrow> (\<forall>k. 0 < k \<longrightarrow> k < n \<longrightarrow> par k = i \<longrightarrow> P (par i) \<le> P k))"

definition settled :: "nat \<Rightarrow> (nat \<Rightarrow> int) \<Rightarrow> nat \<Rightarrow> bool" where
  "settled n P i \<longleftrightarrow> bridged n P i \<and>
     (\<forall>k. 0 < k \<longrightarrow> k < n \<longrightarrow> k \<noteq> i \<longrightarrow> par k \<noteq> i \<longrightarrow> P (par k) \<le> P k)"

definition rising :: "nat \<Rightarrow> (nat \<Rightarrow> int) \<Rightarrow> nat \<Rightarrow> bool" where
  "rising n P j \<longleftrightarrow> bridged n P j \<and> (\<forall>k. 0 < k \<longrightarrow> k < n \<longrightarrow> k \<noteq> j \<longrightarrow> P (par k) \<le> P k)"

lemma rising_step:
  assumes r: "rising n P j" and j: "0 < j" "j < n" and less: "P j < P (par j)"
    and Q: "Q = P(par j := P j, j := P (par j))"
  shows "rising n Q (par j)"
proof -
  let ?i = "par j"
  have ij: "?i < j" using par_less[OF j(1)] .
  have edge: "P (par k) \<le> P k" if "0 < k" "k < n" "k \<noteq> j" for k using r that by (simp add: rising_def)
  have skip: "P ?i \<le> P k" if "0 < k" "k < n" "par k = j" for k
    using r that j by (simp add: rising_def bridged_def)
  have Qe: "Q (par k) \<le> Q k" if k: "0 < k" "k < n" "k \<noteq> ?i" for k
  proof (cases "k = j")
    case True
    then show ?thesis using less ij Q by simp
  next
    case False
    then show ?thesis
      using edge[OF k(1,2) False] skip[OF k(1,2)] less ij k Q by auto
  qed
  moreover have "bridged n Q ?i"
    unfolding bridged_def
  proof (intro impI allI)
    fix k assume i0: "0 < ?i" and k: "0 < k" "k < n" "par k = ?i"
    have up: "P (par ?i) \<le> P ?i" using edge[of ?i] i0 ij j by simp
    have "par ?i < ?i" using par_less[OF i0] .
    then have "par ?i \<noteq> ?i" "par ?i \<noteq> j" using ij by simp_all
    moreover have "k \<noteq> ?i" using k par_less[OF k(1)] by auto
    ultimately show "Q (par ?i) \<le> Q k"
      using up edge[OF k(1,2)] k(3) less ij Q by (cases "k = j") auto
  qed
  ultimately show ?thesis by (simp add: rising_def)
qed

lemma rising_done: "rising n P j \<Longrightarrow> j = 0 \<or> P (par j) \<le> P j \<Longrightarrow> ordered n P"
  by (auto simp: rising_def ordered_def)

lemma settled_step:
  assumes st: "settled n P i" and j: "par j = i" "0 < j" "j < n" and less: "P j < P i"
    and least: "\<And>k. 0 < k \<Longrightarrow> k < n \<Longrightarrow> par k = i \<Longrightarrow> P j \<le> P k"
    and Q: "Q = P(i := P j, j := P i)"
  shows "settled n Q j" "Q (par j) \<le> Q j"
proof -
  have ij: "i < j" using j par_less by blast
  have edge: "P (par k) \<le> P k" if "0 < k" "k < n" "k \<noteq> i" "par k \<noteq> i" for k
    using st that by (simp add: settled_def)
  have "Q (par k) \<le> Q k" if k: "0 < k" "k < n" "k \<noteq> j" "par k \<noteq> j" for k
  proof (cases "k = i")
    case True
    then have "P (par i) \<le> P j" using st j k by (simp add: settled_def bridged_def)
    then show ?thesis using True k ij Q by simp
  next
    case False
    then show ?thesis using edge[OF k(1,2)] least[OF k(1,2)] k ij Q by auto
  qed
  moreover have "Q (par j) \<le> Q k" if k: "0 < k" "k < n" "par k = j" for k
  proof -
    have "k \<noteq> i" "k \<noteq> j" using k ij par_less[OF k(1)] by auto
    then show ?thesis using edge[OF k(1,2)] k ij j(1) Q by auto
  qed
  ultimately show "settled n Q j" by (simp add: settled_def bridged_def)
  show "Q (par j) \<le> Q j" using j less ij Q by simp
qed

lemma settled_done:
  assumes "settled n P i" and "\<And>k. 0 < k \<Longrightarrow> k < n \<Longrightarrow> par k = i \<Longrightarrow> P i \<le> P k"
  shows "rising n P i" "i = 0 \<or> P (par i) \<le> P i \<Longrightarrow> ordered n P"
proof -
  show r: "rising n P i"
    unfolding rising_def
  proof (intro conjI allI impI)
    show "bridged n P i" using assms(1) by (simp add: settled_def)
    show "P (par k) \<le> P k" if "0 < k" "k < n" "k \<noteq> i" for k
      using assms(1) assms(2)[of k] that by (cases "par k = i") (simp_all add: settled_def)
  qed
  show "ordered n P" if "i = 0 \<or> P (par i) \<le> P i" using rising_done[OF r that] .
qed

lemma ordered_min: "ordered n P \<Longrightarrow> k < n \<Longrightarrow> P 0 \<le> P k"
proof (induction k rule: less_induct)
  case (less k)
  show ?case
  proof (cases "k = 0")
    case False
    then have "P 0 \<le> P (par k)" using less par_less[of k] by simp
    also have "\<dots> \<le> P k" using less.prems False by (simp add: ordered_def)
    finally show ?thesis .
  qed simp
qed

text \<open>The priorities of a heap by position.\<close>

definition prio :: "('k \<Rightarrow> int) \<Rightarrow> 'k eheap \<Rightarrow> nat \<Rightarrow> int" where
  "prio ex h k = ex (hp h ! k)"

lemma prio_Swap:
  "i < length (hp h) \<Longrightarrow> j < length (hp h) \<Longrightarrow> prio ex (eh_Swap i j h) =
     (prio ex h)(i := prio ex h j, j := prio ex h i)"
  by (rule ext) (simp add: prio_def eh_Swap_def Let_def nth_list_update_eq)

lemma eh_Less_prio: "eh_Less ex i j h \<longleftrightarrow> prio ex h i < prio ex h j"
  by (simp add: eh_Less_def prio_def)

lemma heap_up_ordered:
  "rising n (prio ex h) j \<Longrightarrow> j < n \<Longrightarrow> n \<le> length (hp h) \<Longrightarrow> ordered n (prio ex (heap_up ex j h))"
proof (induction ex j h rule: heap_up.induct)
  case (1 ex j h)
  let ?i = "par j"
  show ?case
  proof (cases "j = 0 \<or> \<not> eh_Less ex j ?i h")
    case True
    then have "heap_up ex j h = h" by (subst heap_up.simps) (auto simp: Let_def)
    then show ?thesis using rising_done[OF 1(2)] True by (auto simp: eh_Less_prio)
  next
    case False
    have Q: "prio ex (eh_Swap ?i j h) = (prio ex h)(?i := prio ex h j, j := prio ex h ?i)"
      using 1(3,4) par_le[of j] by (intro prio_Swap) simp_all
    have "rising n (prio ex (eh_Swap ?i j h)) ?i"
      using rising_step[OF 1(2) _ 1(3) _ Q] False by (simp add: eh_Less_prio)
    moreover have "heap_up ex j h = heap_up ex ?i (eh_Swap ?i j h)"
      using False by (subst heap_up.simps) (simp add: Let_def)
    ultimately show ?thesis using 1(1)[OF _ refl] False 1(3,4) par_le[of j] by simp
  qed
qed

lemma heap_child_least:
  assumes "2 * i + 1 < n"
  shows "par (heap_child ex i n h) = i" "0 < heap_child ex i n h" "heap_child ex i n h < n"
    "\<And>k. 0 < k \<Longrightarrow> k < n \<Longrightarrow> par k = i \<Longrightarrow> prio ex h (heap_child ex i n h) \<le> prio ex h k"
proof -
  show "par (heap_child ex i n h) = i" "0 < heap_child ex i n h" "heap_child ex i n h < n"
    using assms by (simp_all add: heap_child_def par_def)
  fix k assume k: "0 < k" "k < n" "par k = i"
  then have "k = 2 * i + 1 \<or> k = 2 * i + 2" unfolding par_def by linarith
  then show "prio ex h (heap_child ex i n h) \<le> prio ex h k"
    using k by (auto simp: heap_child_def eh_Less_prio)
qed

lemma heap_sift_ordered:
  "settled n (prio ex h) i \<Longrightarrow> i = 0 \<or> prio ex h (par i) \<le> prio ex h i \<Longrightarrow> i < n \<Longrightarrow>
   n \<le> length (hp h) \<Longrightarrow> ordered n (prio ex (snd (heap_sift ex i n h)))"
proof (induction ex i n h rule: heap_sift.induct)
  case (1 ex i n h)
  let ?j = "heap_child ex i n h"
  show ?case
  proof (cases "2 * i + 1 \<ge> n \<or> \<not> eh_Less ex ?j i h")
    case True
    then have eq: "heap_sift ex i n h = (i, h)" by (subst heap_sift.simps) (auto simp: Let_def)
    have "prio ex h i \<le> prio ex h k" if "0 < k" "k < n" "par k = i" for k
    proof -
      have lt: "2 * i + 1 < n" using that unfolding par_def by linarith
      show ?thesis using True lt heap_child_least(4)[OF lt that, of ex h] by (simp add: eh_Less_prio)
    qed
    then show ?thesis using settled_done(2)[OF 1(2)] 1(3) eq by simp
  next
    case False
    then have lt: "2 * i + 1 < n" by simp
    note c = heap_child_least(1-3)[OF lt, of ex h]
    have Q: "prio ex (eh_Swap i ?j h) = (prio ex h)(i := prio ex h ?j, ?j := prio ex h i)"
      using 1(4,5) c(3) by (intro prio_Swap) simp_all
    have less: "prio ex h ?j < prio ex h i" using False by (simp add: eh_Less_prio)
    note step = settled_step[OF 1(2) c less heap_child_least(4)[OF lt] Q]
    have eq: "heap_sift ex i n h = heap_sift ex ?j n (eh_Swap i ?j h)"
      using False by (subst heap_sift.simps) (simp add: Let_def)
    have nl: "\<not> n \<le> 2 * i + 1" and le: "eh_Less ex ?j i h" using False by simp_all
    show ?thesis
      unfolding eq using 1(5) by (intro 1(1)[OF nl refl le step(1) disjI2[OF step(2)] c(3)]) simp_all
  qed
qed

section \<open>Settling one position\<close>

lemma heap_up_above: "j < k \<Longrightarrow> hp (heap_up ex j h) ! k = hp h ! k"
proof (induction ex j h rule: heap_up.induct)
  case (1 ex j h)
  have "hp (eh_Swap (par j) j h) ! k = hp h ! k"
    using 1(2) par_le[of j] by (simp add: eh_Swap_def Let_def)
  then show ?case
    using 1(1)[OF _ refl] 1(2) par_le[of j] by (subst heap_up.simps) (simp add: Let_def)
qed

lemma heap_sift_above: "i < n \<Longrightarrow> n \<le> k \<Longrightarrow> hp (snd (heap_sift ex i n h)) ! k = hp h ! k"
proof (induction ex i n h rule: heap_sift.induct)
  case (1 ex i n h)
  show ?case
  proof (cases "n \<le> 2 * i + 1 \<or> \<not> eh_Less ex (heap_child ex i n h) i h")
    case True
    then show ?thesis by (subst heap_sift.simps) (auto simp: Let_def)
  next
    case False
    then have j: "heap_child ex i n h < n" using heap_child_least(3) by (metis not_le)
    have "heap_sift ex i n h = heap_sift ex (heap_child ex i n h) n (eh_Swap i (heap_child ex i n h) h)"
      using False by (subst heap_sift.simps) (simp add: Let_def)
    moreover have "hp (eh_Swap i (heap_child ex i n h) h) ! k = hp h ! k"
      using 1(2,3) j by (simp add: eh_Swap_def Let_def)
    ultimately show ?thesis using 1(1)[OF _ refl] False j 1(3) by simp
  qed
qed

lemma heap_sift_ge: "i \<le> fst (heap_sift ex i n h)"
proof (induction ex i n h rule: heap_sift.induct)
  case (1 ex i n h)
  show ?case
  proof (cases "n \<le> 2 * i + 1 \<or> \<not> eh_Less ex (heap_child ex i n h) i h")
    case True
    then show ?thesis by (subst heap_sift.simps) (auto simp: Let_def)
  next
    case False
    have "heap_sift ex i n h = heap_sift ex (heap_child ex i n h) n (eh_Swap i (heap_child ex i n h) h)"
      using False by (subst heap_sift.simps) (simp add: Let_def)
    moreover have "i \<le> heap_child ex i n h" by (simp add: heap_child_def)
    ultimately show ?thesis using 1(1)[OF _ refl] False by fastforce
  qed
qed

lemma heap_sift_cases:
  assumes "i < n"
  obtains (stay) "heap_sift ex i n h = (i, h)"
      "\<And>k. 0 < k \<Longrightarrow> k < n \<Longrightarrow> par k = i \<Longrightarrow> prio ex h i \<le> prio ex h k"
  | (move) j where "i < fst (heap_sift ex i n h)" "j = heap_child ex i n h" "2 * i + 1 < n"
      "eh_Less ex j i h" "heap_sift ex i n h = heap_sift ex j n (eh_Swap i j h)"
proof (cases "n \<le> 2 * i + 1 \<or> \<not> eh_Less ex (heap_child ex i n h) i h")
  case True
  have "prio ex h i \<le> prio ex h k" if "0 < k" "k < n" "par k = i" for k
  proof -
    have lt: "2 * i + 1 < n" using that unfolding par_def by linarith
    show ?thesis using True lt heap_child_least(4)[OF lt that, of ex h] by (simp add: eh_Less_prio)
  qed
  then show ?thesis
    using True stay by (subst (asm) heap_sift.simps) (auto simp: Let_def)
next
  case False
  have eq: "heap_sift ex i n h = heap_sift ex (heap_child ex i n h) n (eh_Swap i (heap_child ex i n h) h)"
    using False by (subst heap_sift.simps) (simp add: Let_def)
  have "i < heap_child ex i n h" by (simp add: heap_child_def)
  also have "\<dots> \<le> fst (heap_sift ex i n h)" unfolding eq by (rule heap_sift_ge)
  finally show ?thesis using move[OF _ refl] eq False by simp
qed

lemma heap_settle_ok:
  assumes "eh_ok h" and st: "settled n (prio ex h) i" and i: "i < n" and n: "n \<le> length (hp h)"
  shows "eh_ok (heap_settle ex i n h)" "mset (hp (heap_settle ex i n h)) = mset (hp h)"
    "ordered n (prio ex (heap_settle ex i n h))"
    "\<And>k. n \<le> k \<Longrightarrow> hp (heap_settle ex i n h) ! k = hp h ! k"
proof -
  have "eh_ok (heap_settle ex i n h) \<and> mset (hp (heap_settle ex i n h)) = mset (hp h) \<and>
    ordered n (prio ex (heap_settle ex i n h)) \<and> (\<forall>k \<ge> n. hp (heap_settle ex i n h) ! k = hp h ! k)"
    using i
  proof (cases rule: heap_sift_cases[of i n ex h])
    case stay
    then have eq: "heap_settle ex i n h = heap_up ex i h" by (simp add: heap_settle_def heap_down_eq)
    have "ordered n (prio ex (heap_up ex i h))"
      by (rule heap_up_ordered[OF settled_done(1)[OF st stay(2)] i n])
    moreover have "hp (heap_up ex i h) ! k = hp h ! k" if "n \<le> k" for k
      using i that by (intro heap_up_above) simp
    moreover have "eh_ok (heap_up ex i h) \<and> mset (hp (heap_up ex i h)) = mset (hp h)"
      using i n by (intro heap_up_ok[OF assms(1)]) simp
    ultimately show ?thesis unfolding eq by blast
  next
    case (move j)
    have eq: "heap_settle ex i n h = snd (heap_sift ex i n h)"
      using move(1) by (simp add: heap_settle_def heap_down_eq)
    note c = heap_child_least(1-3)[OF move(3), of ex h, folded move(2)]
    have Q: "prio ex (eh_Swap i j h) = (prio ex h)(i := prio ex h j, j := prio ex h i)"
      using i n c(3) by (intro prio_Swap) simp_all
    have less: "prio ex h j < prio ex h i" using move(4) unfolding eh_Less_prio .
    note step = settled_step[OF st c less heap_child_least(4)[OF move(3), of _ ex h, folded move(2)] Q]
    have "ordered n (prio ex (snd (heap_sift ex j n (eh_Swap i j h))))"
      by (rule heap_sift_ordered[OF step(1) disjI2[OF step(2)] c(3)]) (simp_all add: n)
    then have "ordered n (prio ex (snd (heap_sift ex i n h)))" unfolding move(5) .
    moreover have "hp (snd (heap_sift ex i n h)) ! k = hp h ! k" if "n \<le> k" for k
      by (rule heap_sift_above[OF i that])
    ultimately show ?thesis
      unfolding eq using heap_sift_ok[OF assms(1) i n] by blast
  qed
  then show "eh_ok (heap_settle ex i n h)" "mset (hp (heap_settle ex i n h)) = mset (hp h)"
    "ordered n (prio ex (heap_settle ex i n h))"
    "\<And>k. n \<le> k \<Longrightarrow> hp (heap_settle ex i n h) ! k = hp h ! k"
    by blast+
qed

section \<open>The operations\<close>

definition heap_ok :: "('k \<Rightarrow> int) \<Rightarrow> 'k eheap \<Rightarrow> bool" where
  "heap_ok ex h \<longleftrightarrow> eh_ok h \<and> ordered (length (hp h)) (prio ex h)"

lemma ordered_cong: "ordered n P \<Longrightarrow> m \<le> n \<Longrightarrow> (\<And>k. k < m \<Longrightarrow> Q k = P k) \<Longrightarrow> ordered m Q"
  unfolding ordered_def by (metis order_less_le_trans par_less order_less_trans)

lemma heap_empty_ok: "heap_ok ex eheap_empty"
  by (simp add: heap_ok_def eh_ok_def eheap_empty_def ordered_def)

lemma heap_reset_ok: "heap_ok ex h \<Longrightarrow> heap_ok ex' (heapb_Reset h)" "set (hp (heapb_Reset h)) = {}"
  by (simp_all add: heap_ok_def eh_ok_def heapb_Reset_def ordered_def)

text \<open>Popping the last element of a heap that is in order below it.\<close>

lemma eh_Pop_ok:
  assumes ok: "eh_ok h" and n: "length (hp h) = Suc n" and ord: "ordered n (prio ex h)"
  shows "fst (eh_Pop h) = hp h ! n" "heap_ok ex (snd (eh_Pop h))"
    "set (hp (snd (eh_Pop h))) = set (hp h) - {hp h ! n}"
proof -
  have ne: "hp h \<noteq> []" using n by auto
  have split: "hp h = butlast (hp h) @ [hp h ! n]"
    using n ne by (metis append_butlast_last_id diff_Suc_1 last_conv_nth)
  show "fst (eh_Pop h) = hp h ! n" using ne n by (simp add: eh_Pop_def Let_def last_conv_nth)
  have d: "distinct (butlast (hp h))" "hp h ! n \<notin> set (butlast (hp h))"
    using ok split unfolding eh_ok_def by (metis distinct_append distinct_butlast not_distinct_conv_prefix)+
  show st: "set (hp (snd (eh_Pop h))) = set (hp h) - {hp h ! n}"
    using d(2) arg_cong[OF split, of set] by (auto simp: eh_Pop_def Let_def)
  have pop: "hp (snd (eh_Pop h)) = butlast (hp h)" "hidx (snd (eh_Pop h)) = (hidx h)(hp h ! n := - 1)"
    using ne n by (simp_all add: eh_Pop_def Let_def last_conv_nth)
  have nth: "hp (snd (eh_Pop h)) ! k = hp h ! k" if "k < n" for k
    using that n by (simp add: pop nth_butlast)
  have "hidx (snd (eh_Pop h)) (hp (snd (eh_Pop h)) ! k) = int k" if "k < n" for k
  proof -
    have "hp h ! k \<noteq> hp h ! n" using eh_ok_nth_eq[OF ok, of k n] that n by simp
    then show ?thesis using ok that n by (simp add: nth pop(2) eh_ok_def)
  qed
  moreover have "hidx (snd (eh_Pop h)) e = - 1" if "e \<notin> set (hp (snd (eh_Pop h)))" for e
    using that ok unfolding st pop(2) by (auto simp: eh_ok_def)
  ultimately have "eh_ok (snd (eh_Pop h))" using d(1) n by (simp add: eh_ok_def pop(1))
  moreover have "ordered n (prio ex (snd (eh_Pop h)))"
    by (rule ordered_cong[OF ord]) (simp_all add: prio_def nth)
  ultimately show "heap_ok ex (snd (eh_Pop h))" using n by (simp add: heap_ok_def pop(1))
qed

lemma heap_Push_ok:
  assumes ok: "heap_ok ex h" and e: "e \<notin> set (hp h)"
  shows "heap_ok ex (heap_Push ex e h)" "set (hp (heap_Push ex e h)) = insert e (set (hp h))"
proof -
  let ?g = "eh_Push e h" and ?n = "length (hp h)"
  have g: "eh_ok ?g" "length (hp ?g) = Suc ?n"
    using ok e by (auto simp: heap_ok_def eh_ok_def eh_Push_def nth_append)
  have p: "prio ex ?g k = prio ex h k" if "k < ?n" for k
    using that by (simp add: prio_def eh_Push_def nth_append)
  have "rising (Suc ?n) (prio ex ?g) ?n"
    unfolding rising_def
  proof (intro conjI allI impI)
    have "par k \<noteq> ?n" if "0 < k" "k < Suc ?n" for k using par_less[OF that(1)] that(2) by linarith
    then show "bridged (Suc ?n) (prio ex ?g) ?n" unfolding bridged_def by blast
    show "prio ex ?g (par k) \<le> prio ex ?g k" if "0 < k" "k < Suc ?n" "k \<noteq> ?n" for k
      using ok that p[of k] p[of "par k"] par_less[of k] by (simp add: heap_ok_def ordered_def)
  qed
  then have "ordered (Suc ?n) (prio ex (heap_up ex ?n ?g))"
    by (rule heap_up_ordered) (simp_all add: g)
  moreover have up: "eh_ok (heap_up ex ?n ?g) \<and> mset (hp (heap_up ex ?n ?g)) = mset (hp ?g)"
    by (rule heap_up_ok[OF g(1)]) (simp add: g)
  moreover have eq: "heap_Push ex e h = heap_up ex ?n ?g"
    by (simp add: heap_Push_def eh_Len_def g)
  ultimately show "heap_ok ex (heap_Push ex e h)" using g(2) by (simp add: heap_ok_def)
  have "set (hp ?g) = insert e (set (hp h))" by (simp add: eh_Push_def)
  then show "set (hp (heap_Push ex e h)) = insert e (set (hp h))"
    unfolding eq using up by (metis mset_eq_setD)
qed

lemma swap_last_settled:
  assumes ord: "ordered (Suc n) (prio ex h)" and n: "length (hp h) = Suc n" and lt: "i < n"
    and ch: "\<And>k. k < n \<Longrightarrow> k \<noteq> i \<Longrightarrow> prio ex' h k = prio ex h k"
  shows "settled n (prio ex' (eh_Swap i n h)) i"
proof -
  let ?s = "eh_Swap i n h"
  have p: "prio ex' ?s k = prio ex h k" if "k < n" "k \<noteq> i" for k
    using that lt n ch by (simp add: prio_Swap)
  have edge: "prio ex h (par k) \<le> prio ex h k" if "0 < k" "k < n" for k
    using ord that by (simp add: ordered_def)
  show ?thesis
    unfolding settled_def bridged_def
  proof (intro conjI allI impI)
    fix k assume i0: "0 < i" and k: "0 < k" "k < n" "par k = i"
    have "prio ex h (par i) \<le> prio ex h k"
      using edge[OF i0 lt] edge[OF k(1,2)] k(3) by simp
    then show "prio ex' ?s (par i) \<le> prio ex' ?s k"
      using p[of "par i"] p[OF k(2)] par_less[OF i0] par_less[OF k(1)] k lt by auto
  next
    fix k assume k: "0 < k" "k < n" "k \<noteq> i" "par k \<noteq> i"
    then show "prio ex' ?s (par k) \<le> prio ex' ?s k"
      using p[of "par k"] p[OF k(2,3)] edge[OF k(1,2)] par_less[OF k(1)] by simp
  qed
qed

text \<open>Removing a position restores the order also when the expiry of the entry there has
  changed.\<close>

lemma heap_Remove_changed:
  assumes ok: "heap_ok ex h" and i: "i < length (hp h)" and ch: "\<And>x. x \<noteq> hp h ! i \<Longrightarrow> ex' x = ex x"
  shows "fst (heap_Remove ex' i h) = hp h ! i" "heap_ok ex' (snd (heap_Remove ex' i h))"
    "set (hp (snd (heap_Remove ex' i h))) = set (hp h) - {hp h ! i}"
proof -
  obtain n where n: "length (hp h) = Suc n" using i by (cases "length (hp h)") auto
  have eo: "eh_ok h" and ord: "ordered (Suc n) (prio ex h)" using ok n by (simp_all add: heap_ok_def)
  have p: "prio ex' h k = prio ex h k" if "k < Suc n" "k \<noteq> i" for k
    using ch that eh_ok_nth_eq[OF eo, of k i] i n by (simp add: prio_def)
  have "fst (heap_Remove ex' i h) = hp h ! i \<and> heap_ok ex' (snd (heap_Remove ex' i h)) \<and>
    set (hp (snd (heap_Remove ex' i h))) = set (hp h) - {hp h ! i}"
  proof (cases "i = n")
    case True
    have "heap_Remove ex' i h = eh_Pop h" using True n by (simp add: heap_Remove_def eh_Len_def)
    then show ?thesis
      using eh_Pop_ok[OF eo n ordered_cong[OF ord, of n "prio ex' h"]] p True by simp
  next
    case False
    let ?s = "eh_Swap i n h" and ?t = "heap_settle ex' i n (eh_Swap i n h)"
    have lt: "i < n" using i n False by simp
    have so: "eh_ok ?s" "length (hp ?s) = Suc n" using eh_Swap_ok[OF eo i] n by simp_all
    have "settled n (prio ex' ?s) i" by (rule swap_last_settled[OF ord n lt]) (simp add: p)
    note settle = heap_settle_ok[OF so(1) this lt]
    have t: "eh_ok ?t" "mset (hp ?t) = mset (hp ?s)" "ordered n (prio ex' ?t)" "hp ?t ! n = hp ?s ! n"
      using settle so(2) by simp_all
    have "length (hp ?t) = Suc n" using t(2) so(2) by (metis size_mset)
    note pop = eh_Pop_ok[OF t(1) this t(3)]
    have "heap_Remove ex' i h = eh_Pop ?t" using False n by (simp add: heap_Remove_def eh_Len_def)
    moreover have "hp ?t ! n = hp h ! i" using t(4) n lt by (simp add: eh_Swap_def Let_def)
    moreover have "set (hp ?t) = set (hp h)"
      using t(2) eh_Swap_mset[of i h n] i n by (metis lessI mset_eq_setD)
    ultimately show ?thesis using pop by simp
  qed
  then show "fst (heap_Remove ex' i h) = hp h ! i" "heap_ok ex' (snd (heap_Remove ex' i h))"
    "set (hp (snd (heap_Remove ex' i h))) = set (hp h) - {hp h ! i}" by blast+
qed

lemmas heap_Remove_ok = heap_Remove_changed[OF _ _ refl]

text \<open>\<open>Pop\<close> is the removal of the root.\<close>

lemma heap_Pop_Remove:
  assumes "eh_ok h" and "hp h \<noteq> []"
  shows "heap_Pop ex h = heap_Remove ex 0 h"
proof -
  have settle: "heap_settle ex 0 n g = snd (heap_sift ex 0 n g)" for n and g :: "'a eheap"
    by (simp add: heap_settle_def heap_down_eq) (subst heap_up.simps, simp)
  show ?thesis
  proof (cases "length (hp h) = 1")
    case True
    have "eh_Swap 0 0 h = h"
      using assms(1) True by (simp add: eh_Swap_def Let_def eh_ok_def fun_upd_idem)
    then show ?thesis
      using True by (simp add: heap_Pop_def heap_Remove_def eh_Len_def heap_down_eq Let_def)
        (subst heap_sift.simps, simp)
  next
    case False
    then have "1 < length (hp h)" using assms(2) by (cases "hp h") auto
    then show ?thesis
      by (simp add: heap_Pop_def heap_Remove_def eh_Len_def heap_down_eq Let_def settle)
  qed
qed

lemma heap_Fix_ok:
  assumes ok: "heap_ok ex h" and i: "i < length (hp h)" and ch: "\<And>x. x \<noteq> hp h ! i \<Longrightarrow> ex' x = ex x"
  shows "heap_ok ex' (heap_Fix ex' i h)" "set (hp (heap_Fix ex' i h)) = set (hp h)"
proof -
  let ?n = "length (hp h)"
  have eo: "eh_ok h" and ord: "ordered ?n (prio ex h)" using ok by (simp_all add: heap_ok_def)
  have p: "prio ex' h k = prio ex h k" if "k < ?n" "k \<noteq> i" for k
    using ch that eh_ok_nth_eq[OF eo, of k i] i by (simp add: prio_def)
  have edge: "prio ex h (par k) \<le> prio ex h k" if "0 < k" "k < ?n" for k
    using ord that by (simp add: ordered_def)
  have "settled ?n (prio ex' h) i"
    unfolding settled_def bridged_def
  proof (intro conjI allI impI)
    fix k assume i0: "0 < i" and k: "0 < k" "k < ?n" "par k = i"
    have "prio ex h (par i) \<le> prio ex h k" using edge[OF i0 i] edge[OF k(1,2)] k(3) by simp
    then show "prio ex' h (par i) \<le> prio ex' h k"
      using p[of "par i"] p[OF k(2)] par_less[OF i0] par_less[OF k(1)] k i by auto
  next
    fix k assume k: "0 < k" "k < ?n" "k \<noteq> i" "par k \<noteq> i"
    then show "prio ex' h (par k) \<le> prio ex' h k"
      using p[of "par k"] p[OF k(2,3)] edge[OF k(1,2)] par_less[OF k(1)] by simp
  qed
  note st = heap_settle_ok[OF eo this i order_refl]
  have eq: "heap_Fix ex' i h = heap_settle ex' i ?n h" by (simp add: heap_Fix_def eh_Len_def)
  have "length (hp (heap_settle ex' i ?n h)) = ?n" using st(2) by (metis size_mset)
  then show "heap_ok ex' (heap_Fix ex' i h)" using st(1,3) by (simp add: eq heap_ok_def)
  show "set (hp (heap_Fix ex' i h)) = set (hp h)" unfolding eq using st(2) by (metis mset_eq_setD)
qed

lemma hidx_tracked:
  assumes "heap_ok ex h"
  shows "0 \<le> hidx h e \<longleftrightarrow> e \<in> set (hp h)"
    "e \<in> set (hp h) \<Longrightarrow> nat (hidx h e) < length (hp h) \<and> hp h ! nat (hidx h e) = e"
    "e \<in> set (hp h) \<Longrightarrow> hidx h e < int (length (hp h))"
proof -
  have eo: "eh_ok h" using assms by (simp add: heap_ok_def)
  have pos: "nat (hidx h e) < length (hp h) \<and> hp h ! nat (hidx h e) = e \<and> 0 \<le> hidx h e \<and>
      hidx h e < int (length (hp h))" if e: "e \<in> set (hp h)"
  proof -
    obtain i where "i < length (hp h)" "hp h ! i = e" using e by (auto simp: in_set_conv_nth)
    then show ?thesis using eo by (auto simp: eh_ok_def)
  qed
  then show "0 \<le> hidx h e \<longleftrightarrow> e \<in> set (hp h)"
    using eo by (auto simp: eh_ok_def)
  show "e \<in> set (hp h) \<Longrightarrow> nat (hidx h e) < length (hp h) \<and> hp h ! nat (hidx h e) = e"
    "e \<in> set (hp h) \<Longrightarrow> hidx h e < int (length (hp h))"
    using pos by simp_all
qed

lemma heap_ok_cong:
  assumes "heap_ok ex h" and "\<And>e. e \<in> set (hp h) \<Longrightarrow> ex' e = ex e"
  shows "heap_ok ex' h"
proof -
  have p: "prio ex' h k = prio ex h k" if "k < length (hp h)" for k
    using assms(2)[OF nth_mem[OF that]] by (simp add: prio_def)
  have "ordered (length (hp h)) (prio ex h)" using assms(1) by (simp add: heap_ok_def)
  then have "ordered (length (hp h)) (prio ex' h)" by (rule ordered_cong) (simp_all add: p)
  then show ?thesis using assms(1) by (simp add: heap_ok_def)
qed

lemma heapb_Add_ok:
  assumes ok: "heap_ok ex h" and e: "e \<notin> set (hp h)"
  shows "heap_ok ex (heapb_Add ex e h)"
    "set (hp (heapb_Add ex e h)) = (if ex e = 0 then set (hp h) else insert e (set (hp h)))"
proof -
  have same: "h\<lparr>hidx := (hidx h)(e := - 1)\<rparr> = h"
    using ok e by (simp add: heap_ok_def eh_ok_def fun_upd_idem)
  show "heap_ok ex (heapb_Add ex e h)"
    "set (hp (heapb_Add ex e h)) = (if ex e = 0 then set (hp h) else insert e (set (hp h)))"
    using heap_Push_ok[OF ok e] ok by (simp_all add: heapb_Add_def same)
qed

lemma heapb_Remove_ok:
  assumes ok: "heap_ok ex h"
  shows "heap_ok ex (heapb_Remove ex e h)" "set (hp (heapb_Remove ex e h)) = set (hp h) - {e}"
proof -
  have "heap_ok ex (heapb_Remove ex e h) \<and> set (hp (heapb_Remove ex e h)) = set (hp h) - {e}"
  proof (cases "e \<in> set (hp h)")
    case True
    then show ?thesis
      using heap_Remove_ok(2,3)[OF ok, of "nat (hidx h e)"] hidx_tracked[OF ok, of e]
      by (simp add: heapb_Remove_def eh_Len_def)
  next
    case False
    then show ?thesis using ok hidx_tracked(1)[OF ok, of e] by (simp add: heapb_Remove_def)
  qed
  then show "heap_ok ex (heapb_Remove ex e h)" "set (hp (heapb_Remove ex e h)) = set (hp h) - {e}"
    by blast+
qed

text \<open>\<open>Fix\<close> is called after the expiry of one entry changed: the heap is in order for the old
  expiries and has to be in order for the new ones.\<close>

lemma heapb_Fix_ok:
  assumes ok: "heap_ok ex h" and ch: "\<And>x. x \<noteq> e \<Longrightarrow> ex' x = ex x" and pos: "0 \<le> ex' e"
  shows "heap_ok ex' (heapb_Fix ex' e h)"
    "set (hp (heapb_Fix ex' e h)) = (if ex' e = 0 then set (hp h) - {e} else insert e (set (hp h)))"
proof -
  have "heap_ok ex' (heapb_Fix ex' e h) \<and>
    set (hp (heapb_Fix ex' e h)) = (if ex' e = 0 then set (hp h) - {e} else insert e (set (hp h)))"
  proof (cases "e \<in> set (hp h)")
    case False
    then have "heap_ok ex' h" using ch by (intro heap_ok_cong[OF ok]) metis
    then show ?thesis
      using False hidx_tracked(1)[OF ok, of e] heap_Push_ok[of ex' h e] pos by (simp add: heapb_Fix_def)
  next
    case True
    note i = hidx_tracked(2)[OF ok True]
    have pos': "0 \<le> hidx h e" using hidx_tracked(1)[OF ok] True by simp
    have ch': "ex' x = ex x" if "x \<noteq> hp h ! nat (hidx h e)" for x using ch that i by simp
    show ?thesis
    proof (cases "ex' e = 0")
      case True
      let ?r = "snd (heap_Remove ex' (nat (hidx h e)) h)"
      have "heap_ok ex' ?r \<and> set (hp ?r) = set (hp h) - {e}"
        using heap_Remove_changed[OF ok conjunct1[OF i] ch'] i by simp
      then show ?thesis using True pos' by (simp add: heapb_Fix_def)
    next
      case False
      then show ?thesis
        using heap_Fix_ok[OF ok conjunct1[OF i] ch'] pos' \<open>e \<in> set (hp h)\<close>
        by (simp add: heapb_Fix_def insert_absorb)
    qed
  qed
  then show "heap_ok ex' (heapb_Fix ex' e h)"
    "set (hp (heapb_Fix ex' e h)) = (if ex' e = 0 then set (hp h) - {e} else insert e (set (hp h)))"
    by blast+
qed

section \<open>Sweeping\<close>

lemma heap_root_min:
  assumes "heap_ok ex h" and "e \<in> set (hp h)"
  shows "ex (hp h ! 0) \<le> ex e"
proof -
  obtain k where "k < length (hp h)" "hp h ! k = e" using assms(2) by (auto simp: in_set_conv_nth)
  then show ?thesis
    using ordered_min[of "length (hp h)" "prio ex h" k] assms(1) by (auto simp: heap_ok_def prio_def)
qed

lemma heapb_Sweep_stop:
  "hp h = [] \<or> now < ex (hp h ! 0) \<Longrightarrow> heapb_Sweep ex now h = ([], h)"
  by (subst heapb_Sweep.simps) (auto simp: eh_Len_def)

lemma heapb_Sweep_step:
  "hp h \<noteq> [] \<Longrightarrow> ex (hp h ! 0) \<le> now \<Longrightarrow> heapb_Sweep ex now h =
     (fst (heap_Pop ex h) # fst (heapb_Sweep ex now (snd (heap_Pop ex h))),
      snd (heapb_Sweep ex now (snd (heap_Pop ex h))))"
  by (subst heapb_Sweep.simps) (simp add: eh_Len_def case_prod_beta Let_def)

definition heap_swept :: "('k \<Rightarrow> int) \<Rightarrow> int \<Rightarrow> 'k set \<Rightarrow> 'k list \<times> 'k eheap \<Rightarrow> bool" where
  "heap_swept ex now S r \<longleftrightarrow>
     heap_ok ex (snd r) \<and> sorted (map ex (fst r)) \<and> distinct (fst r) \<and>
     set (fst r) = {e \<in> S. ex e \<le> now} \<and> set (hp (snd r)) = {e \<in> S. now < ex e}"

lemma heapb_Sweep_exact:
  "heap_ok ex h \<Longrightarrow> heap_swept ex now (set (hp h)) (heapb_Sweep ex now h)"
proof (induction "length (hp h)" arbitrary: h rule: less_induct)
  case less
  show ?case
  proof (cases "hp h = [] \<or> now < ex (hp h ! 0)")
    case True
    then have "now < ex e" if "e \<in> set (hp h)" for e
      using heap_root_min[OF less.prems that] that by auto
    then show ?thesis
      using less.prems heapb_Sweep_stop[of h now ex] True by (auto simp: heap_swept_def not_le[symmetric])
  next
    case False
    let ?e = "hp h ! 0" and ?g = "snd (heap_Pop ex h)"
    have ne: "hp h \<noteq> []" "ex ?e \<le> now" using False by auto
    have eo: "eh_ok h" using less.prems by (simp add: heap_ok_def)
    have pop: "heap_Pop ex h = heap_Remove ex 0 h" by (rule heap_Pop_Remove[OF eo ne(1)])
    have g: "fst (heap_Pop ex h) = ?e" "heap_ok ex ?g" "set (hp ?g) = set (hp h) - {?e}"
      unfolding pop using heap_Remove_ok[OF less.prems, of 0] ne(1) by simp_all
    have ih: "heap_swept ex now (set (hp h) - {?e}) (heapb_Sweep ex now ?g)"
      using less.hyps[OF heap_Pop_length[OF ne(1)] g(2)] unfolding g(3) .
    have min: "ex ?e \<le> ex x" if "x \<in> set (hp h)" for x using heap_root_min[OF less.prems that] .
    obtain xs h' where r: "heapb_Sweep ex now ?g = (xs, h')" by force
    have i: "set xs = {x \<in> set (hp h) - {?e}. ex x \<le> now}"
      "set (hp h') = {x \<in> set (hp h) - {?e}. now < ex x}" "sorted (map ex xs)" "distinct xs" "heap_ok ex h'"
      using ih unfolding heap_swept_def r by simp_all
    have mem: "?e \<in> set (hp h)" using ne(1) by simp
    then have "set (?e # xs) = {x \<in> set (hp h). ex x \<le> now}" "set (hp h') = {x \<in> set (hp h). now < ex x}"
      using ne(2) unfolding i(2) list.set(2) i(1) by auto
    moreover have "sorted (map ex (?e # xs))" "distinct (?e # xs)"
      using i(3,4) min unfolding list.map sorted_simps distinct.simps set_map i(1) by auto
    ultimately show ?thesis
      unfolding heapb_Sweep_step[of h ex now, OF ne] g(1) r heap_swept_def fst_conv snd_conv using i(5) by blast
  qed
qed

text \<open>The calls a shard makes on its backend: an expiry is set (or cleared, with 0) and \<open>Fix\<close> is
  called, an entry is removed, the heap is swept or emptied. The state pairs the entries'
  expiries with the heap.\<close>

datatype 'k ttl_op = TtlSet 'k nat | TtlRemove 'k | TtlSweep int | TtlReset

fun ttl_step :: "'k ttl_op \<Rightarrow> ('k \<Rightarrow> int) \<times> 'k eheap \<Rightarrow> ('k \<Rightarrow> int) \<times> 'k eheap" where
  "ttl_step (TtlSet e t) (ex, h) = (let ex = ex(e := int t) in (ex, heapb_Fix ex e h))"
| "ttl_step (TtlRemove e) (ex, h) = (ex, heapb_Remove ex e h)"
| "ttl_step (TtlSweep now) (ex, h) = (ex, snd (heapb_Sweep ex now h))"
| "ttl_step TtlReset (ex, h) = (ex, heapb_Reset h)"

lemma ttl_run_ok: "heap_ok ex h \<Longrightarrow> fold ttl_step ops (ex, h) = (ex', h') \<Longrightarrow> heap_ok ex' h'"
proof (induction ops arbitrary: ex h)
  case (Cons x ops)
  have "case ttl_step x (ex, h) of (ex1, h1) \<Rightarrow> heap_ok ex1 h1"
  proof (cases x)
    case (TtlSet e t)
    then show ?thesis using heapb_Fix_ok(1)[OF Cons.prems(1), of e "ex(e := int t)"] by (simp add: Let_def)
  qed (use Cons.prems(1) heapb_Remove_ok heap_reset_ok heapb_Sweep_exact[of ex h]
      in \<open>simp_all add: heap_swept_def\<close>)
  then show ?case using Cons.IH Cons.prems(2) by (auto split: prod.splits)
qed simp


definition heap_example :: "(nat \<Rightarrow> int) \<times> nat eheap" where
  "heap_example = fold ttl_step [TtlSet 1 30, TtlSet 2 10, TtlSet 3 20, TtlSet 1 5] ((\<lambda>_. 0), eheap_empty)"


end
