(* ===== verification/Wheel.thy ===== *)
theory Wheel
  imports Prelude
begin

text \<open>
  The hashed timing wheel (internal/wheel/wheel.go). A wheel has \<open>slotCount\<close> slots, each the list
  of the entries linked in it from head to tail, and an entry object keeps its expiry time, the
  number of full rotations left and its owning slot (\<open>-1\<close> once unlinked; 0 in a new object, as Go
  zeroes it). Entry objects are named by \<open>'a\<close>.

  \<open>w_due\<close> is the instant at which an entry fires: the tick of its slot after its remaining
  rotations. The lemmas show that \<open>Add\<close> schedules an entry at the first tick at or after its
  expiry, that \<open>AdvanceTo\<close> returns exactly the entries due and keeps the schedule of all others,
  however many rotations the advance spans.
\<close>

record wentry =
  expireAtNs :: int
  revolutions :: nat
  we_slot :: int

record 'a wheel =
  w_slots :: "nat \<Rightarrow> 'a list"
  slotCount :: nat
  tickNs :: int
  cursor :: nat
  cursorAtNs :: int
  originNs :: int
  totalEntries :: int
  w_entry :: "'a \<Rightarrow> wentry"

definition wheel_New :: "int \<Rightarrow> int \<Rightarrow> int \<Rightarrow> 'a wheel" where
  "wheel_New slots tick origin =
     (let slots = (if slots \<le> 0 then 1 else slots);
          tick = (if tick \<le> 0 then 1 else tick)
      in \<lparr>w_slots = (\<lambda>_. []), slotCount = nat slots, tickNs = tick, cursor = 0,
          cursorAtNs = origin, originNs = origin, totalEntries = 0,
          w_entry = (\<lambda>_. \<lparr>expireAtNs = 0, revolutions = 0, we_slot = 0\<rparr>)\<rparr>)"

definition wheel_Len :: "'a wheel \<Rightarrow> int" where
  "wheel_Len w = totalEntries w"

definition w_setEntry :: "'a \<Rightarrow> (wentry \<Rightarrow> wentry) \<Rightarrow> 'a wheel \<Rightarrow> 'a wheel" where
  "w_setEntry e f w = w\<lparr>w_entry := (w_entry w)(e := f (w_entry w e))\<rparr>"

definition wheel_linkHead :: "nat \<Rightarrow> 'a \<Rightarrow> 'a wheel \<Rightarrow> 'a wheel" where
  "wheel_linkHead slot e w = w\<lparr>w_slots := (w_slots w)(slot := e # w_slots w slot)\<rparr>"

definition wheel_unlink :: "'a \<Rightarrow> 'a wheel \<Rightarrow> 'a wheel" where
  "wheel_unlink e w =
     (let slot = we_slot (w_entry w e);
          w = (if 0 \<le> slot \<and> slot < int (slotCount w)
               then w\<lparr>w_slots := (w_slots w)(nat slot := remove1 e (w_slots w (nat slot)))\<rparr>
               else w)
      in w_setEntry e (we_slot_update (\<lambda>_. - 1)) w)"

definition wheel_ticksAhead :: "int \<Rightarrow> 'a wheel \<Rightarrow> int" where
  "wheel_ticksAhead expireAt w =
     (let delta = wrap64 (expireAt - cursorAtNs w);
          ticks = (if delta > 0
                   then delta div tickNs w + (if delta mod tickNs w \<noteq> 0 then 1 else 0)
                   else 0)
      in if ticks < 1 then 1 else ticks)"

definition wheel_Add :: "'a \<Rightarrow> 'a wheel \<Rightarrow> 'a wheel" where
  "wheel_Add e w =
     (let ticksAhead = wheel_ticksAhead (expireAtNs (w_entry w e)) w;
          revs = nat ((ticksAhead - 1) div int (slotCount w));
          slot = (cursor w + nat (ticksAhead mod int (slotCount w))) mod slotCount w;
          w = w_setEntry e (revolutions_update (\<lambda>_. revs)) w;
          w = w_setEntry e (we_slot_update (\<lambda>_. int slot)) w;
          w = wheel_linkHead slot e w
      in w\<lparr>totalEntries := totalEntries w + 1\<rparr>)"

definition wheel_Remove :: "'a \<Rightarrow> 'a wheel \<Rightarrow> 'a wheel" where
  "wheel_Remove e w =
     (if we_slot (w_entry w e) < 0 then w
      else let w = wheel_unlink e w in w\<lparr>totalEntries := totalEntries w - 1\<rparr>)"

text \<open>Both scans of the wheel walk a slot's list, unlinking the entries that fire and adjusting
  the others; the successor is read before the entry is unlinked.\<close>

fun wheel_walk :: "(wentry \<Rightarrow> bool) \<Rightarrow> (wentry \<Rightarrow> wentry) \<Rightarrow> 'a list \<Rightarrow> 'a wheel \<Rightarrow> 'a list \<times> 'a wheel" where
  "wheel_walk fires keep [] w = ([], w)"
| "wheel_walk fires keep (e # es) w =
     (if fires (w_entry w e)
      then let w = wheel_unlink e w;
               w = w\<lparr>totalEntries := totalEntries w - 1\<rparr>;
               (expired, w) = wheel_walk fires keep es w
           in (e # expired, w)
      else wheel_walk fires keep es (w_setEntry e keep w))"

definition wheel_processSlot :: "nat \<Rightarrow> 'a wheel \<Rightarrow> 'a list \<times> 'a wheel" where
  "wheel_processSlot slot w =
     wheel_walk (\<lambda>n. revolutions n = 0) (revolutions_update (\<lambda>r. r - 1)) (w_slots w slot) w"

definition wheel_decrementSlot :: "nat \<Rightarrow> nat \<Rightarrow> 'a wheel \<Rightarrow> 'a list \<times> 'a wheel" where
  "wheel_decrementSlot n slot w =
     wheel_walk (\<lambda>d. \<not> revolutions d \<ge> n) (revolutions_update (\<lambda>r. r - n)) (w_slots w slot) w"

fun wheel_decrementFrom :: "nat \<Rightarrow> nat list \<Rightarrow> 'a wheel \<Rightarrow> 'a list \<times> 'a wheel" where
  "wheel_decrementFrom n [] w = ([], w)"
| "wheel_decrementFrom n (slot # slots) w =
     (let (xs, w) = wheel_decrementSlot n slot w;
          (ys, w) = wheel_decrementFrom n slots w
      in (xs @ ys, w))"

definition wheel_decrementAllRevolutions :: "nat \<Rightarrow> 'a wheel \<Rightarrow> 'a list \<times> 'a wheel" where
  "wheel_decrementAllRevolutions n w = wheel_decrementFrom n [0..<slotCount w] w"

fun wheel_partial :: "nat \<Rightarrow> 'a wheel \<Rightarrow> 'a list \<times> 'a wheel" where
  "wheel_partial 0 w = ([], w)"
| "wheel_partial (Suc n) w =
     (let w = w\<lparr>cursor := (cursor w + 1) mod slotCount w\<rparr>;
          (xs, w) = wheel_processSlot (cursor w) w;
          (ys, w) = wheel_partial n w
      in (xs @ ys, w))"

definition wheel_AdvanceTo :: "int \<Rightarrow> 'a wheel \<Rightarrow> 'a list \<times> 'a wheel" where
  "wheel_AdvanceTo nowNs w =
     (if nowNs \<le> cursorAtNs w then ([], w)
      else let stepsTotal = wrap64 (nowNs - cursorAtNs w) div tickNs w
           in if stepsTotal \<le> 0 then ([], w)
              else let fullRevs = stepsTotal div int (slotCount w);
                       part = stepsTotal mod int (slotCount w);
                       (xs, w) = (if fullRevs > 0
                                  then wheel_decrementAllRevolutions (nat fullRevs) w else ([], w));
                       (ys, w) = wheel_partial (nat part) w
                   in (xs @ ys, w\<lparr>cursorAtNs := cursorAtNs w + stepsTotal * tickNs w\<rparr>))"

definition wheel_Reset :: "'a wheel \<Rightarrow> 'a wheel" where
  "wheel_Reset w =
     w\<lparr>w_slots := (\<lambda>_. []), totalEntries := 0, cursor := 0, cursorAtNs := originNs w\<rparr>"

section \<open>Well-formed wheels\<close>

definition w_tracked :: "'a wheel \<Rightarrow> 'a set" where
  "w_tracked w = {e. \<exists>s. e \<in> set (w_slots w s)}"

definition w_linked :: "'a wheel \<Rightarrow> bool" where
  "w_linked w \<longleftrightarrow>
     (\<forall>s. distinct (w_slots w s)) \<and> (\<forall>s \<ge> slotCount w. w_slots w s = []) \<and>
     (\<forall>s e. e \<in> set (w_slots w s) \<longrightarrow> we_slot (w_entry w e) = int s) \<and>
     totalEntries w = (\<Sum>s < slotCount w. int (length (w_slots w s)))"

definition wheel_ok :: "'a wheel \<Rightarrow> bool" where
  "wheel_ok w \<longleftrightarrow> 0 < slotCount w \<and> 0 < tickNs w \<and> cursor w < slotCount w \<and> w_linked w"

text \<open>How many ticks the cursor is away from a slot (the cursor's own slot is a full rotation
  away), how many ticks an entry has left, and when it fires.\<close>

definition w_distance :: "'a wheel \<Rightarrow> nat \<Rightarrow> nat" where
  "w_distance w s = (s + slotCount w - cursor w - 1) mod slotCount w + 1"

definition w_left :: "'a wheel \<Rightarrow> 'a \<Rightarrow> nat" where
  "w_left w e = w_distance w (nat (we_slot (w_entry w e))) + revolutions (w_entry w e) * slotCount w"

definition w_due :: "'a wheel \<Rightarrow> 'a \<Rightarrow> int" where
  "w_due w e = cursorAtNs w + tickNs w * int (w_left w e)"

section \<open>The walk over a slot\<close>

definition w_fired :: "(wentry \<Rightarrow> bool) \<Rightarrow> 'a list \<Rightarrow> 'a wheel \<Rightarrow> 'a list" where
  "w_fired fires es w = filter (\<lambda>e. fires (w_entry w e)) es"

definition w_scanned :: "(wentry \<Rightarrow> bool) \<Rightarrow> (wentry \<Rightarrow> wentry) \<Rightarrow> 'a list \<Rightarrow> 'a wheel \<Rightarrow> 'a \<Rightarrow> wentry" where
  "w_scanned fires keep es w e =
     (if e \<in> set es
      then if fires (w_entry w e) then (w_entry w e)\<lparr>we_slot := - 1\<rparr> else keep (w_entry w e)
      else w_entry w e)"

lemma wheel_walk_eq:
  assumes "distinct es" and "set es \<subseteq> set (w_slots w s)" and "distinct (w_slots w s)"
    and "\<And>e. e \<in> set es \<Longrightarrow> we_slot (w_entry w e) = int s" and "s < slotCount w"
  shows "wheel_walk fires keep es w =
    (w_fired fires es w,
     w\<lparr>w_slots := (w_slots w)(s := filter (\<lambda>e. e \<notin> set (w_fired fires es w)) (w_slots w s)),
       totalEntries := totalEntries w - int (length (w_fired fires es w)),
       w_entry := w_scanned fires keep es w\<rparr>)"
  using assms
proof (induction es arbitrary: w)
  case Nil
  then show ?case by (simp add: w_fired_def w_scanned_def[abs_def])
next
  case (Cons e es)
  show ?case
  proof (cases "fires (w_entry w e)")
    case True
    let ?v = "w\<lparr>w_slots := (w_slots w)(s := remove1 e (w_slots w s)),
      w_entry := (w_entry w)(e := (w_entry w e)\<lparr>we_slot := - 1\<rparr>), totalEntries := totalEntries w - 1\<rparr>"
    have u: "(wheel_unlink e w)\<lparr>totalEntries := totalEntries (wheel_unlink e w) - 1\<rparr> = ?v"
      using Cons.prems by (simp add: wheel_unlink_def w_setEntry_def)
    have step: "wheel_walk fires keep (e # es) w =
        (let (xs, v) = wheel_walk fires keep es ?v in (e # xs, v))"
      unfolding wheel_walk.simps Let_def u using True by simp
    have f: "w_fired fires es ?v = w_fired fires es w"
      using Cons.prems(1) by (auto simp: w_fired_def intro!: filter_cong)
    have "wheel_walk fires keep es ?v = (w_fired fires es ?v,
       ?v\<lparr>w_slots := (w_slots ?v)(s := filter (\<lambda>e. e \<notin> set (w_fired fires es ?v)) (w_slots ?v s)),
         totalEntries := totalEntries ?v - int (length (w_fired fires es ?v)),
         w_entry := w_scanned fires keep es ?v\<rparr>)"
      using Cons.prems by (intro Cons.IH) auto
    moreover have "w_scanned fires keep es ?v = w_scanned fires keep (e # es) w"
      using Cons.prems(1) True by (auto simp: w_scanned_def fun_eq_iff)
    moreover have "filter (\<lambda>x. x \<notin> set (w_fired fires es w)) (remove1 e (w_slots w s)) =
        filter (\<lambda>x. x \<notin> set (w_fired fires (e # es) w)) (w_slots w s)"
      using Cons.prems(3) True by (auto simp: w_fired_def distinct_remove1_removeAll
          removeAll_filter_not_eq intro!: filter_cong)
    moreover have "w_fired fires (e # es) w = e # w_fired fires es w"
      using True by (simp add: w_fired_def)
    ultimately show ?thesis
      unfolding step f by (simp add: diff_diff_eq, simp add: fun_upd_def)
  next
    case False
    let ?v = "w_setEntry e keep w"
    have f: "w_fired fires es ?v = w_fired fires es w"
      using Cons.prems(1) by (auto simp: w_fired_def w_setEntry_def intro!: filter_cong)
    have "wheel_walk fires keep es ?v = (w_fired fires es ?v,
       ?v\<lparr>w_slots := (w_slots ?v)(s := filter (\<lambda>e. e \<notin> set (w_fired fires es ?v)) (w_slots ?v s)),
         totalEntries := totalEntries ?v - int (length (w_fired fires es ?v)),
         w_entry := w_scanned fires keep es ?v\<rparr>)"
      using Cons.prems by (intro Cons.IH) (auto simp: w_setEntry_def)
    moreover have "w_scanned fires keep es ?v = w_scanned fires keep (e # es) w"
      using Cons.prems(1) False by (auto simp: w_scanned_def w_setEntry_def fun_eq_iff)
    moreover have "w_fired fires (e # es) w = w_fired fires es w"
      using False by (simp add: w_fired_def)
    ultimately show ?thesis
      using False unfolding f by (simp add: w_setEntry_def, simp add: fun_upd_def)
  qed
qed

text \<open>The effect of scanning one whole slot. Scanning keeps the links well-formed as long as the
  adjustment leaves an entry's slot alone.\<close>

definition w_scan :: "(wentry \<Rightarrow> bool) \<Rightarrow> (wentry \<Rightarrow> wentry) \<Rightarrow> nat \<Rightarrow> 'a wheel \<Rightarrow> 'a wheel" where
  "w_scan fires keep s w =
     w\<lparr>w_slots := (w_slots w)(s := filter (\<lambda>e. \<not> fires (w_entry w e)) (w_slots w s)),
       totalEntries := totalEntries w - int (length (w_fired fires (w_slots w s) w)),
       w_entry := w_scanned fires keep (w_slots w s) w\<rparr>"

lemma wheel_walk_slot:
  assumes "w_linked w" and "s < slotCount w"
  shows "wheel_walk fires keep (w_slots w s) w =
    (filter (\<lambda>e. fires (w_entry w e)) (w_slots w s), w_scan fires keep s w)"
proof -
  have "wheel_walk fires keep (w_slots w s) w = (w_fired fires (w_slots w s) w,
     w\<lparr>w_slots := (w_slots w)(s := filter (\<lambda>e. e \<notin> set (w_fired fires (w_slots w s) w)) (w_slots w s)),
       totalEntries := totalEntries w - int (length (w_fired fires (w_slots w s) w)),
       w_entry := w_scanned fires keep (w_slots w s) w\<rparr>)"
    using assms by (intro wheel_walk_eq) (auto simp: w_linked_def)
  moreover have "filter (\<lambda>e. e \<notin> set (w_fired fires (w_slots w s) w)) (w_slots w s) =
      filter (\<lambda>e. \<not> fires (w_entry w e)) (w_slots w s)"
    by (auto simp: w_fired_def intro!: filter_cong)
  ultimately show ?thesis by (simp add: w_scan_def w_fired_def)
qed

lemma w_scan_linked:
  assumes "w_linked w" and "s < slotCount w" and "\<And>n. we_slot (keep n) = we_slot n"
  shows "w_linked (w_scan fires keep s w)"
proof -
  let ?f = "\<lambda>e. \<not> fires (w_entry w e)"
  have len: "int (length (w_slots w s)) =
      int (length (filter ?f (w_slots w s))) + int (length (w_fired fires (w_slots w s) w))"
    using sum_length_filter_compl[of ?f "w_slots w s"] by (simp add: w_fired_def)
  have "(\<Sum>r < slotCount w. int (length (((w_slots w)(s := filter ?f (w_slots w s))) r))) =
      (\<Sum>r < slotCount w. int (length (w_slots w r))) - int (length (w_fired fires (w_slots w s) w))"
    using assms(2) len
    by (subst (1 2) sum.remove[of _ s]) (auto intro!: sum.cong)
  moreover have "r = s" if "e \<in> set (w_slots w s)" "e \<in> set (w_slots w r)" for e r
    using that assms(1) by (metis of_nat_eq_iff w_linked_def)
  ultimately show ?thesis
    using assms by (simp add: w_linked_def w_scan_def w_scanned_def) blast
qed

lemma w_linked_slot: "w_linked w \<Longrightarrow> e \<in> set (w_slots w s) \<Longrightarrow> we_slot (w_entry w e) = int s"
  by (simp add: w_linked_def)

lemma w_linked_unique:
  "w_linked w \<Longrightarrow> e \<in> set (w_slots w s) \<Longrightarrow> e \<in> set (w_slots w r) \<Longrightarrow> r = s"
  by (metis of_nat_eq_iff w_linked_slot)

lemma w_linked_bound: "w_linked w \<Longrightarrow> e \<in> set (w_slots w s) \<Longrightarrow> s < slotCount w"
  by (metis (no_types, lifting) empty_iff empty_set not_less w_linked_def)

lemma w_scan_tracked:
  assumes "w_linked w"
  shows "w_tracked (w_scan fires keep s w) =
    {e \<in> w_tracked w. \<not> (e \<in> set (w_slots w s) \<and> fires (w_entry w e))}"
proof (rule set_eqI)
  fix e
  let ?S = "\<lambda>r. set (w_slots w r)"
  have "e \<in> w_tracked (w_scan fires keep s w) \<longleftrightarrow>
      (\<exists>r. e \<in> (if r = s then {e \<in> ?S s. \<not> fires (w_entry w e)} else ?S r))"
    by (simp add: w_tracked_def w_scan_def if_distrib[of set] cong: if_cong)
  also have "\<dots> \<longleftrightarrow> (\<exists>r. r \<noteq> s \<and> e \<in> ?S r) \<or> e \<in> ?S s \<and> \<not> fires (w_entry w e)"
    by (metis (mono_tags, lifting) mem_Collect_eq)
  also have "\<dots> \<longleftrightarrow> (\<exists>r. e \<in> ?S r) \<and> \<not> (e \<in> ?S s \<and> fires (w_entry w e))"
    using w_linked_unique[OF assms, of e s] by metis
  finally show "e \<in> w_tracked (w_scan fires keep s w) \<longleftrightarrow>
      e \<in> {e \<in> w_tracked w. \<not> (e \<in> ?S s \<and> fires (w_entry w e))}"
    by (simp add: w_tracked_def)
qed

lemma w_scan_entry:
  assumes "e \<in> w_tracked (w_scan fires keep s w)" and "w_linked w"
  shows "w_entry (w_scan fires keep s w) e =
    (if e \<in> set (w_slots w s) then keep (w_entry w e) else w_entry w e)"
  using assms(1) unfolding w_scan_tracked[OF assms(2)] by (auto simp: w_scan_def w_scanned_def)

lemma w_scan_frame [simp]:
  "slotCount (w_scan fires keep s w) = slotCount w" "tickNs (w_scan fires keep s w) = tickNs w"
  "cursor (w_scan fires keep s w) = cursor w" "cursorAtNs (w_scan fires keep s w) = cursorAtNs w"
  "originNs (w_scan fires keep s w) = originNs w"
  by (simp_all add: w_scan_def)

lemma w_distance_scan [simp]: "w_distance (w_scan fires keep s w) t = w_distance w t"
  by (simp add: w_distance_def)

section \<open>The passage of ticks\<close>

text \<open>\<open>w_elapsed k\<close> is what the passage of \<open>k\<close> ticks has to do: exactly the entries with at most
  \<open>k\<close> ticks left are reported, each once, and the others have \<open>k\<close> ticks less.\<close>

definition w_elapsed :: "nat \<Rightarrow> 'a wheel \<Rightarrow> 'a list \<times> 'a wheel \<Rightarrow> bool" where
  "w_elapsed k w r \<longleftrightarrow>
     wheel_ok (snd r) \<and> distinct (fst r) \<and> set (fst r) = {e \<in> w_tracked w. w_left w e \<le> k} \<and>
     w_tracked (snd r) = {e \<in> w_tracked w. k < w_left w e} \<and>
     (\<forall>e \<in> w_tracked (snd r). w_left (snd r) e = w_left w e - k \<and>
        expireAtNs (w_entry (snd r) e) = expireAtNs (w_entry w e)) \<and>
     slotCount (snd r) = slotCount w \<and> tickNs (snd r) = tickNs w \<and>
     cursorAtNs (snd r) = cursorAtNs w \<and> originNs (snd r) = originNs w"

lemma w_elapsed_compose:
  assumes "w_elapsed j w (xs, v)" and "w_elapsed k v (ys, u)"
  shows "w_elapsed (j + k) w (xs @ ys, u)"
proof -
  have xs: "set xs = {e \<in> w_tracked w. w_left w e \<le> j}"
    and v: "w_tracked v = {e \<in> w_tracked w. j < w_left w e}"
    and left: "\<And>e. e \<in> w_tracked v \<Longrightarrow> w_left v e = w_left w e - j"
    using assms(1) by (simp_all add: w_elapsed_def)
  have ys: "set ys = {e \<in> w_tracked w. j < w_left w e \<and> w_left w e \<le> j + k}"
    and u: "w_tracked u = {e \<in> w_tracked w. j + k < w_left w e}"
    using assms(2) left v by (auto simp: w_elapsed_def)
  have "set xs \<inter> set ys = {}" "set (xs @ ys) = {e \<in> w_tracked w. w_left w e \<le> j + k}"
    by (auto simp: xs ys)
  moreover have "w_left u e = w_left w e - (j + k) \<and>
      expireAtNs (w_entry u e) = expireAtNs (w_entry w e)" if "e \<in> w_tracked u" for e
  proof -
    have "e \<in> w_tracked v" using that u v by simp
    then have "w_left v e = w_left w e - j \<and> expireAtNs (w_entry v e) = expireAtNs (w_entry w e)"
      using assms(1) by (simp add: w_elapsed_def)
    moreover have "w_left u e = w_left v e - k \<and> expireAtNs (w_entry u e) = expireAtNs (w_entry v e)"
      using assms(2) that by (simp add: w_elapsed_def)
    ultimately show ?thesis by simp
  qed
  moreover have "wheel_ok u" "distinct xs" "distinct ys" "slotCount u = slotCount w"
    "tickNs u = tickNs w" "cursorAtNs u = cursorAtNs w" "originNs u = originNs w"
    using assms by (simp_all add: w_elapsed_def)
  ultimately show ?thesis
    unfolding w_elapsed_def fst_conv snd_conv u distinct_append by blast
qed

lemma w_left_pos: "0 < w_left w e"
  by (simp add: w_left_def w_distance_def)

lemma w_distance_le: "0 < slotCount w \<Longrightarrow> w_distance w s \<le> slotCount w"
  using mod_less_divisor[of "slotCount w" "s + slotCount w - cursor w - 1"]
  by (simp add: w_distance_def Suc_le_eq)

lemma ring_step:
  fixes c n s :: nat
  assumes "c < n" and "s < n" and "d = (if Suc c = n then 0 else Suc c)"
  shows "(if c < s then s - c else s + n - c) =
    (if s = d then 1 else Suc (if d < s then s - d else s + n - d))"
  using assms by auto

text \<open>One step of the cursor brings every slot one tick nearer, and the slot it reaches becomes
  the farthest.\<close>

lemma w_distance_step:
  assumes "cursor w < slotCount w" and "s < slotCount w"
    and v: "v = w\<lparr>cursor := (cursor w + 1) mod slotCount w\<rparr>"
  shows "w_distance w s = (if s = cursor v then 1 else Suc (w_distance v s))"
    and "w_distance v (cursor v) = slotCount w"
proof -
  let ?n = "slotCount w" and ?c = "cursor w"
  have dist: "w_distance u t = (if cursor u < t then t - cursor u else t + slotCount u - cursor u)"
    if "cursor u < slotCount u" "t < slotCount u" for u :: "'b wheel" and t
  proof (cases "cursor u < t")
    case True
    then have eq: "t + slotCount u - cursor u - 1 = (t - cursor u - 1) + slotCount u" by simp
    have "(t + slotCount u - cursor u - 1) mod slotCount u = t - cursor u - 1"
      unfolding eq using that by simp
    then show ?thesis using True by (simp add: w_distance_def)
  next
    case False
    then show ?thesis using that by (simp add: w_distance_def)
  qed
  have c': "cursor v = (if Suc ?c = ?n then 0 else Suc ?c)"
    using assms(1) v by (simp add: mod_Suc)
  have v': "slotCount v = ?n" "cursor v < ?n" using assms by (simp_all add: c')
  show "w_distance w s = (if s = cursor v then 1 else Suc (w_distance v s))"
    unfolding dist[OF assms(1,2)] dist[of v s, unfolded v'(1), OF v'(2) assms(2)]
    by (rule ring_step[OF assms(1,2) c'])
  show "w_distance v (cursor v) = ?n"
    using v' by (simp add: dist)
qed

lemma w_tracked_slot:
  assumes "w_linked w" and "e \<in> w_tracked w"
  obtains s where "e \<in> set (w_slots w s)" "we_slot (w_entry w e) = int s" "s < slotCount w"
  using assms w_linked_slot w_linked_bound by (fastforce simp: w_tracked_def)

text \<open>One step of the cursor followed by the scan of the slot it reaches.\<close>

abbreviation w_stepped :: "'a wheel \<Rightarrow> 'a wheel" where
  "w_stepped w \<equiv> w\<lparr>cursor := (cursor w + 1) mod slotCount w\<rparr>"

abbreviation w_ticked :: "'a wheel \<Rightarrow> 'a wheel" where
  "w_ticked w \<equiv> w_scan (\<lambda>n. revolutions n = 0) (revolutions_update (\<lambda>r. r - 1))
     ((cursor w + 1) mod slotCount w) (w_stepped w)"

lemma w_stepped_same:
  "w_tracked (w_stepped w) = w_tracked w"
  "wheel_ok w \<Longrightarrow> w_linked w \<and> w_linked (w_stepped w) \<and> cursor w < slotCount w \<and> 0 < slotCount w"
  by (auto simp: w_tracked_def wheel_ok_def w_linked_def)

lemma w_left_at:
  assumes "wheel_ok w" and "e \<in> set (w_slots w s)"
  shows "w_left w e = (if s = (cursor w + 1) mod slotCount w then 1 else Suc (w_distance (w_stepped w) s))
    + revolutions (w_entry w e) * slotCount w"
proof -
  have link: "w_linked w" "cursor w < slotCount w" using w_stepped_same(2)[OF assms(1)] by simp_all
  have "s < slotCount w" using w_linked_bound[OF link(1) assms(2)] .
  from w_distance_step(1)[OF link(2) this refl] w_linked_slot[OF link(1) assms(2)]
  show ?thesis by (simp add: w_left_def)
qed

lemma w_fires_now:
  assumes ok: "wheel_ok w" and e: "e \<in> w_tracked w"
  shows "e \<in> set (w_slots w ((cursor w + 1) mod slotCount w)) \<and> revolutions (w_entry w e) = 0
    \<longleftrightarrow> w_left w e \<le> 1"
proof -
  have link: "w_linked w" "0 < slotCount w" using w_stepped_same(2)[OF ok] by simp_all
  obtain s where s: "e \<in> set (w_slots w s)" using e by (auto simp: w_tracked_def)
  then have "e \<in> set (w_slots w ((cursor w + 1) mod slotCount w)) \<longleftrightarrow> s = (cursor w + 1) mod slotCount w"
    using w_linked_unique[OF link(1)] by metis
  then show ?thesis using w_left_at[OF ok s] link(2) by (auto simp: w_distance_def)
qed

lemma w_ticked_tracked:
  assumes "wheel_ok w"
  shows "w_tracked (w_ticked w) = {e \<in> w_tracked w. 1 < w_left w e}"
proof -
  have link: "w_linked (w_stepped w)" using w_stepped_same(2)[OF assms] by simp
  have "\<not> (e \<in> set (w_slots w ((cursor w + 1) mod slotCount w)) \<and> revolutions (w_entry w e) = 0)
      \<longleftrightarrow> 1 < w_left w e" if "e \<in> w_tracked w" for e
    using w_fires_now[OF assms that] by linarith
  then show ?thesis
    unfolding w_scan_tracked[OF link] w_stepped_same(1) by auto
qed

lemma w_ticked_left:
  assumes ok: "wheel_ok w" and e: "e \<in> w_tracked (w_ticked w)"
  shows "w_left (w_ticked w) e = w_left w e - 1"
    and "expireAtNs (w_entry (w_ticked w) e) = expireAtNs (w_entry w e)"
proof -
  let ?c = "(cursor w + 1) mod slotCount w"
  have link: "w_linked w" "w_linked (w_stepped w)" "cursor w < slotCount w"
    using w_stepped_same(2)[OF ok] by simp_all
  have ew: "e \<in> w_tracked w" "1 < w_left w e" using e w_ticked_tracked[OF ok] by auto
  obtain s where s: "e \<in> set (w_slots w s)" "we_slot (w_entry w e) = int s" "s < slotCount w"
    using w_tracked_slot[OF link(1) ew(1)] by metis
  have here: "e \<in> set (w_slots w ?c) \<longleftrightarrow> s = ?c"
    using s(1) w_linked_unique[OF link(1)] by metis
  have ent: "w_entry (w_ticked w) e =
      (if s = ?c then (w_entry w e)\<lparr>revolutions := revolutions (w_entry w e) - 1\<rparr> else w_entry w e)"
    using w_scan_entry[OF e link(2)] here by simp
  then show "expireAtNs (w_entry (w_ticked w) e) = expireAtNs (w_entry w e)" by simp
  have far: "w_distance (w_stepped w) ?c = slotCount w"
    using w_distance_step(2)[OF link(3) s(3) refl] by simp
  have "0 < revolutions (w_entry w e)" if "s = ?c"
    using w_fires_now[OF ok ew(1)] ew(2) here that by auto
  then show "w_left (w_ticked w) e = w_left w e - 1"
    using w_left_at[OF ok s(1)] s(2) far unfolding w_left_def[of "w_ticked w"] ent
    by (cases "s = ?c") (simp_all add: mult_eq_if)
qed

lemma wheel_tick:
  assumes ok: "wheel_ok w"
  shows "w_elapsed 1 w (wheel_processSlot ((cursor w + 1) mod slotCount w) (w_stepped w))"
proof -
  let ?c = "(cursor w + 1) mod slotCount w"
  have link: "w_linked w" "w_linked (w_stepped w)" "cursor w < slotCount w" and c: "?c < slotCount w"
    using w_stepped_same(2)[OF ok] by simp_all
  have r: "wheel_processSlot ?c (w_stepped w) =
      (filter (\<lambda>e. revolutions (w_entry w e) = 0) (w_slots w ?c), w_ticked w)"
    using wheel_walk_slot[OF link(2), of ?c] c by (simp add: wheel_processSlot_def)
  have "set (filter (\<lambda>e. revolutions (w_entry w e) = 0) (w_slots w ?c)) =
      {e \<in> w_tracked w. w_left w e \<le> 1}"
    using w_fires_now[OF ok] by (auto simp: w_tracked_def)
  moreover have "wheel_ok (w_ticked w)"
    using ok c w_scan_linked[OF link(2), of ?c] by (simp add: wheel_ok_def)
  moreover have "distinct (w_slots w ?c)" using link(1) by (simp add: w_linked_def)
  moreover note w_ticked_left[OF ok] w_ticked_tracked[OF ok]
  ultimately show ?thesis
    unfolding w_elapsed_def r fst_conv snd_conv by simp
qed

lemma w_elapsed_zero: "wheel_ok w \<Longrightarrow> w_elapsed 0 w ([], w)"
  using w_left_pos[of w] by (auto simp: w_elapsed_def)

lemma wheel_partial_elapsed: "wheel_ok w \<Longrightarrow> w_elapsed k w (wheel_partial k w)"
proof (induction k arbitrary: w)
  case 0
  then show ?case by (simp add: w_elapsed_zero)
next
  case (Suc k)
  obtain xs u where xu: "wheel_processSlot ((cursor w + 1) mod slotCount w) (w_stepped w) = (xs, u)"
    by force
  obtain ys t where yt: "wheel_partial k u = (ys, t)" by force
  have step: "w_elapsed 1 w (xs, u)"
    using wheel_tick[OF Suc.prems] unfolding xu .
  then have "wheel_ok u" by (simp add: w_elapsed_def)
  then have "w_elapsed k u (ys, t)" using Suc.IH[of u] unfolding yt by blast
  with step have "w_elapsed (1 + k) w (xs @ ys, t)" by (rule w_elapsed_compose)
  then show ?case using xu yt by simp
qed

section \<open>Full rotations\<close>

definition w_rotated :: "nat \<Rightarrow> nat set \<Rightarrow> 'a wheel \<Rightarrow> 'a list \<times> 'a wheel \<Rightarrow> bool" where
  "w_rotated n S w r \<longleftrightarrow>
     w_linked (snd r) \<and> distinct (fst r) \<and>
     set (fst r) = {e. \<exists>s \<in> S. e \<in> set (w_slots w s) \<and> revolutions (w_entry w e) < n} \<and>
     w_tracked (snd r) = w_tracked w - set (fst r) \<and>
     (\<forall>s. s \<notin> S \<longrightarrow> w_slots (snd r) s = w_slots w s) \<and>
     (\<forall>e s. e \<in> w_tracked (snd r) \<longrightarrow> e \<in> set (w_slots w s) \<longrightarrow>
        w_entry (snd r) e =
          (if s \<in> S then (w_entry w e)\<lparr>revolutions := revolutions (w_entry w e) - n\<rparr> else w_entry w e)) \<and>
     slotCount (snd r) = slotCount w \<and> tickNs (snd r) = tickNs w \<and> cursor (snd r) = cursor w \<and>
     cursorAtNs (snd r) = cursorAtNs w \<and> originNs (snd r) = originNs w"

lemma w_rotatedD:
  assumes "w_rotated n S w (xs, u)"
  shows "set xs = {e. \<exists>s \<in> S. e \<in> set (w_slots w s) \<and> revolutions (w_entry w e) < n}"
    and "w_tracked u = w_tracked w - set xs"
    and "s \<notin> S \<Longrightarrow> w_slots u s = w_slots w s"
    and "e \<in> w_tracked u \<Longrightarrow> e \<in> set (w_slots w s) \<Longrightarrow> w_entry u e =
      (if s \<in> S then (w_entry w e)\<lparr>revolutions := revolutions (w_entry w e) - n\<rparr> else w_entry w e)"
  using assms unfolding w_rotated_def fst_conv snd_conv by blast+

lemma w_rotated_slot:
  assumes "w_linked w" and "s < slotCount w"
  shows "w_rotated n {s} w (wheel_decrementSlot n s w)"
proof -
  let ?u = "w_scan (\<lambda>d. \<not> n \<le> revolutions d) (revolutions_update (\<lambda>r. r - n)) s w"
  have r: "wheel_decrementSlot n s w = (filter (\<lambda>e. \<not> n \<le> revolutions (w_entry w e)) (w_slots w s), ?u)"
    using wheel_walk_slot[OF assms] by (simp add: wheel_decrementSlot_def)
  have "w_linked ?u" using assms by (rule w_scan_linked) simp
  moreover have "distinct (w_slots w s)" using assms(1) by (simp add: w_linked_def)
  moreover have "w_tracked ?u = w_tracked w - {e \<in> set (w_slots w s). \<not> n \<le> revolutions (w_entry w e)}"
    unfolding w_scan_tracked[OF assms(1)] by auto
  moreover have "w_entry ?u e = (if t \<in> {s} then (w_entry w e)\<lparr>revolutions := revolutions (w_entry w e) - n\<rparr>
      else w_entry w e)" if "e \<in> w_tracked ?u" "e \<in> set (w_slots w t)" for e t
  proof -
    have "e \<in> set (w_slots w s) \<longleftrightarrow> t = s" using that(2) w_linked_unique[OF assms(1)] by metis
    then show ?thesis using w_scan_entry[OF that(1) assms(1)] by simp
  qed
  moreover have "w_slots ?u t = w_slots w t" if "t \<noteq> s" for t using that by (simp add: w_scan_def)
  ultimately show ?thesis unfolding w_rotated_def r fst_conv snd_conv by (auto simp: not_le)
qed

text \<open>Rotating two disjoint groups of slots one after the other rotates their union.\<close>

lemma w_rotated_compose:
  assumes link: "w_linked w" and a: "w_rotated n S w (xs, v)" and b: "w_rotated n R v (ys, u)"
    and disj: "S \<inter> R = {}"
  shows "w_rotated n (S \<union> R) w (xs @ ys, u)"
proof -
  have slots: "w_slots v s = w_slots w s" if "s \<in> R" for s
    using w_rotatedD(3)[OF a] disj that by blast
  note xs = w_rotatedD(1)[OF a]
  have entry: "w_entry v e = w_entry w e" if "s \<in> R" "e \<in> set (w_slots w s)" for e s
  proof -
    have "e \<in> w_tracked v"
      unfolding w_tracked_def using that slots by (intro CollectI exI[of _ s]) simp
    moreover have "s \<notin> S" using disj that(1) by blast
    ultimately show ?thesis using w_rotatedD(4)[OF a _ that(2)] by simp
  qed
  have ys: "set ys = {e. \<exists>s \<in> R. e \<in> set (w_slots w s) \<and> revolutions (w_entry w e) < n}"
    unfolding w_rotatedD(1)[OF b] using slots entry by auto
  have "set xs \<inter> set ys = {}"
    using xs ys disj w_linked_unique[OF link] by blast
  moreover have "w_tracked u = w_tracked w - set (xs @ ys)"
    unfolding w_rotatedD(2)[OF b] w_rotatedD(2)[OF a] by auto
  moreover have "w_slots u s = w_slots w s" if "s \<notin> S \<union> R" for s
    using w_rotatedD(3)[OF a] w_rotatedD(3)[OF b] that by simp
  moreover have "w_entry u e =
      (if s \<in> S \<union> R then (w_entry w e)\<lparr>revolutions := revolutions (w_entry w e) - n\<rparr> else w_entry w e)"
    if e: "e \<in> w_tracked u" "e \<in> set (w_slots w s)" for e s
  proof -
    have ev: "e \<in> w_tracked v" using e(1) w_rotatedD(2)[OF b] by simp
    note v = w_rotatedD(4)[OF a ev e(2)]
    obtain t where t: "e \<in> set (w_slots v t)" using ev by (auto simp: w_tracked_def)
    moreover have "t \<in> R \<longleftrightarrow> s \<in> R"
    proof
      assume "t \<in> R"
      then have "e \<in> set (w_slots w t)" using t slots by simp
      then show "s \<in> R" using e(2) \<open>t \<in> R\<close> w_linked_unique[OF link] by metis
    next
      assume "s \<in> R"
      moreover have "w_linked v" using a by (simp add: w_rotated_def)
      ultimately show "t \<in> R" using e(2) t slots w_linked_unique by metis
    qed
    ultimately show ?thesis using w_rotatedD(4)[OF b e(1) t] v disj by auto
  qed
  moreover have "w_linked u" "distinct xs" "distinct ys" "slotCount u = slotCount w"
    "tickNs u = tickNs w" "cursor u = cursor w" "cursorAtNs u = cursorAtNs w" "originNs u = originNs w"
    using a b by (simp_all add: w_rotated_def)
  moreover have "set (xs @ ys) = {e. \<exists>s \<in> S \<union> R. e \<in> set (w_slots w s) \<and> revolutions (w_entry w e) < n}"
    unfolding set_append xs ys by blast
  ultimately show ?thesis
    unfolding w_rotated_def fst_conv snd_conv distinct_append by (intro conjI allI impI)
qed

lemma wheel_decrementFrom_rotated:
  assumes "w_linked w" and "distinct ss" and "set ss \<subseteq> {..<slotCount w}"
  shows "w_rotated n (set ss) w (wheel_decrementFrom n ss w)"
  using assms
proof (induction ss arbitrary: w)
  case Nil
  then show ?case by (simp add: w_rotated_def)
next
  case (Cons s ss)
  obtain xs v where xv: "wheel_decrementSlot n s w = (xs, v)" by force
  obtain ys u where yu: "wheel_decrementFrom n ss v = (ys, u)" by force
  have a: "w_rotated n {s} w (xs, v)" using w_rotated_slot[of w s n] Cons.prems xv by simp
  then have "w_linked v" "slotCount v = slotCount w" by (simp_all add: w_rotated_def)
  then have b: "w_rotated n (set ss) v (ys, u)" using Cons.IH[of v] Cons.prems yu by simp
  have "w_rotated n ({s} \<union> set ss) w (xs @ ys, u)"
    by (rule w_rotated_compose[OF Cons.prems(1) a b]) (use Cons.prems in simp)
  then show ?case using xv yu by simp
qed

lemma w_left_rotations:
  assumes "0 < slotCount w"
  shows "revolutions (w_entry w e) < n \<longleftrightarrow> w_left w e \<le> n * slotCount w"
proof -
  let ?d = "w_distance w (nat (we_slot (w_entry w e)))"
  have dist: "0 < ?d" "?d \<le> slotCount w"
    using w_distance_le[OF assms] by (simp_all add: w_distance_def)
  show ?thesis
  proof
    assume "revolutions (w_entry w e) < n"
    then have "(revolutions (w_entry w e) + 1) * slotCount w \<le> n * slotCount w"
      by (intro mult_right_mono) simp_all
    then show "w_left w e \<le> n * slotCount w" using dist(2) by (simp add: w_left_def)
  next
    assume "w_left w e \<le> n * slotCount w"
    then have "revolutions (w_entry w e) * slotCount w < n * slotCount w"
      using dist(1) unfolding w_left_def by linarith
    then show "revolutions (w_entry w e) < n" by simp
  qed
qed

lemma wheel_decrementAll_elapsed:
  assumes ok: "wheel_ok w"
  shows "w_elapsed (n * slotCount w) w (wheel_decrementAllRevolutions n w)"
proof -
  obtain xs u where r: "wheel_decrementAllRevolutions n w = (xs, u)" by force
  have link: "w_linked w" "0 < slotCount w" using ok by (simp_all add: wheel_ok_def)
  have rot: "w_rotated n {..<slotCount w} w (xs, u)"
    using wheel_decrementFrom_rotated[OF link(1), of "[0..<slotCount w]" n] r
    by (simp add: wheel_decrementAllRevolutions_def atLeast0LessThan)
  note late = w_left_rotations[OF link(2)]
  have xs: "set xs = {e \<in> w_tracked w. w_left w e \<le> n * slotCount w}"
    using rot late w_linked_bound[OF link(1)] by (fastforce simp: w_rotated_def w_tracked_def)
  moreover have "w_tracked u = w_tracked w - set xs" using rot by (simp add: w_rotated_def)
  ultimately have u: "w_tracked u = {e \<in> w_tracked w. n * slotCount w < w_left w e}"
    by auto
  have "w_left u e = w_left w e - n * slotCount w \<and>
      expireAtNs (w_entry u e) = expireAtNs (w_entry w e)" if e: "e \<in> w_tracked u" for e
  proof -
    have ew: "e \<in> w_tracked w" "\<not> revolutions (w_entry w e) < n" using e u late by auto
    obtain s where s: "e \<in> set (w_slots w s)" "s < slotCount w"
      using w_tracked_slot[OF link(1) ew(1)] by metis
    have "w_entry u e = (w_entry w e)\<lparr>revolutions := revolutions (w_entry w e) - n\<rparr>"
      using rot e s by (simp add: w_rotated_def)
    moreover have "slotCount u = slotCount w" "cursor u = cursor w" using rot by (simp_all add: w_rotated_def)
    moreover obtain m where "revolutions (w_entry w e) = n + m" using ew(2) by (metis le_Suc_ex not_less)
    ultimately show ?thesis by (simp add: w_left_def w_distance_def distrib_right)
  qed
  moreover have "wheel_ok u" "distinct xs" "slotCount u = slotCount w" "tickNs u = tickNs w"
    "cursorAtNs u = cursorAtNs w" "originNs u = originNs w"
    using rot ok by (simp_all add: w_rotated_def wheel_ok_def)
  ultimately show ?thesis
    unfolding r w_elapsed_def fst_conv snd_conv using xs u by blast
qed

section \<open>The operations\<close>

lemma wheel_New_ok: "wheel_ok (wheel_New n t a)" "w_tracked (wheel_New n t a) = {}"
  by (auto simp: wheel_New_def wheel_ok_def w_linked_def w_tracked_def Let_def)

lemma wheel_Reset_ok: "wheel_ok w \<Longrightarrow> wheel_ok (wheel_Reset w)" "w_tracked (wheel_Reset w) = {}"
  by (auto simp: wheel_Reset_def wheel_ok_def w_linked_def w_tracked_def)

lemma wheel_steps:
  assumes ok: "wheel_ok w" and k: "0 \<le> k"
  obtains xs u where "w_elapsed (nat k) w (xs, u)"
    and "(let fullRevs = k div int (slotCount w); part = k mod int (slotCount w);
           (xs, w) = (if fullRevs > 0 then wheel_decrementAllRevolutions (nat fullRevs) w else ([], w));
           (ys, w) = wheel_partial (nat part) w
          in (xs @ ys, w\<lparr>cursorAtNs := cursorAtNs w + k * tickNs w\<rparr>)) =
         (xs, u\<lparr>cursorAtNs := cursorAtNs u + k * tickNs u\<rparr>)"
proof -
  let ?n = "int (slotCount w)"
  let ?f = "if k div ?n > 0 then wheel_decrementAllRevolutions (nat (k div ?n)) w else ([], w)"
  have n: "0 < slotCount w" using ok by (simp add: wheel_ok_def)
  obtain xs v where f: "?f = (xs, v)" by force
  have "0 \<le> k div ?n" using k n by (simp add: pos_imp_zdiv_nonneg_iff)
  then have a: "w_elapsed (nat (k div ?n) * slotCount w) w (xs, v)"
    using wheel_decrementAll_elapsed[OF ok, of "nat (k div ?n)"] w_elapsed_zero[OF ok] f
    by (cases "k div ?n > 0") auto
  then have "wheel_ok v" by (simp add: w_elapsed_def)
  obtain ys u where g: "wheel_partial (nat (k mod ?n)) v = (ys, u)" by force
  have "w_elapsed (nat (k mod ?n)) v (ys, u)"
    using wheel_partial_elapsed[OF \<open>wheel_ok v\<close>, of "nat (k mod ?n)"] unfolding g .
  with a have "w_elapsed (nat (k div ?n) * slotCount w + nat (k mod ?n)) w (xs @ ys, u)"
    by (rule w_elapsed_compose)
  moreover have "nat (k div ?n) * slotCount w + nat (k mod ?n) = nat k"
    using k n by (simp add: nat_div_distrib nat_mod_distrib)
  ultimately show ?thesis
    using that[of "xs @ ys" u] f g by (simp add: Let_def)
qed

lemma w_due_shift:
  "w_due (w\<lparr>cursorAtNs := c\<rparr>) e = c + tickNs w * int (w_left w e)"
  "w_tracked (w\<lparr>cursorAtNs := c\<rparr>) = w_tracked w" "wheel_ok (w\<lparr>cursorAtNs := c\<rparr>) = wheel_ok w"
  by (simp_all add: w_due_def w_left_def w_distance_def w_tracked_def wheel_ok_def w_linked_def)

lemma w_due_after: "0 < tickNs w \<Longrightarrow> cursorAtNs w + tickNs w \<le> w_due w e"
  using mult_left_mono[of 1 "int (w_left w e)" "tickNs w"] w_left_pos[of w e]
  by (simp add: w_due_def)

lemma ticks_le:
  fixes t d m :: int
  assumes "0 < t"
  shows "m \<le> d div t \<longleftrightarrow> t * m \<le> d"
proof
  assume "m \<le> d div t"
  then have "t * m \<le> t * (d div t)" using assms by simp
  also have "\<dots> \<le> d" using assms by (simp add: minus_mod_eq_mult_div[symmetric])
  finally show "t * m \<le> d" .
next
  assume "t * m \<le> d"
  then have "t * m div t \<le> d div t" using assms by (rule zdiv_mono1)
  then show "m \<le> d div t" using assms by simp
qed

lemma wheel_AdvanceTo_due:
  assumes ok: "wheel_ok w" and range: "nowNs - cursorAtNs w < 2 ^ 63"
    and r: "wheel_AdvanceTo nowNs w = (xs, w')"
  shows "wheel_ok w' \<and> distinct xs \<and> set xs = {e \<in> w_tracked w. w_due w e \<le> nowNs} \<and>
     w_tracked w' = {e \<in> w_tracked w. nowNs < w_due w e} \<and>
     (\<forall>e \<in> w_tracked w'. w_due w' e = w_due w e \<and> expireAtNs (w_entry w' e) = expireAtNs (w_entry w e)) \<and>
     tickNs w' = tickNs w \<and> originNs w' = originNs w \<and> nowNs < cursorAtNs w' + tickNs w \<and> cursorAtNs w \<le> cursorAtNs w' \<and>
     cursorAtNs w' \<le> max (cursorAtNs w) nowNs"
proof -
  let ?t = "tickNs w" and ?k = "(nowNs - cursorAtNs w) div tickNs w"
  have t: "0 < ?t" using ok by (simp add: wheel_ok_def)
  show ?thesis
  proof (cases "nowNs \<le> cursorAtNs w \<or> ?k \<le> 0")
    case True
    then have small: "nowNs < cursorAtNs w + ?t"
      using t ticks_le[OF t, of 1 "nowNs - cursorAtNs w"] by auto
    then have "wheel_AdvanceTo nowNs w = ([], w)"
      using True range by (auto simp: wheel_AdvanceTo_def wrap64_id Let_def)
    moreover have "nowNs < w_due w e" for e using small w_due_after[OF t, of e] by linarith
    ultimately show ?thesis using r ok small by (auto simp: less_le_not_le)
  next
    case False
    then have k: "0 \<le> ?k" "cursorAtNs w < nowNs" by simp_all
    obtain ys u where el: "w_elapsed (nat ?k) w (ys, u)"
      and w': "(xs, w') = (ys, u\<lparr>cursorAtNs := cursorAtNs u + ?k * tickNs u\<rparr>)"
      using wheel_steps[OF ok k(1)] r False range unfolding wheel_AdvanceTo_def
      by (auto simp: wrap64_id Let_def)
    have u: "tickNs u = ?t" "cursorAtNs u = cursorAtNs w" using el by (simp_all add: w_elapsed_def)
    have left: "w_left w e \<le> nat ?k \<longleftrightarrow> w_due w e \<le> nowNs" for e
      using ticks_le[OF t, of "int (w_left w e)" "nowNs - cursorAtNs w"] k(1)
      by (auto simp: w_due_def)
    have "w_due w' e = w_due w e" if "e \<in> w_tracked u" for e
    proof -
      have "w_left u e = w_left w e - nat ?k" "nat ?k < w_left w e"
        using el that by (auto simp: w_elapsed_def)
      then have eq: "int (w_left w e) = int (w_left u e) + ?k" using k(1) by simp
      show ?thesis
        using w' unfolding w_due_def[of w] eq by (simp add: w_due_shift u distrib_left mult.commute)
    qed
    moreover have "?k * ?t \<le> nowNs - cursorAtNs w" "nowNs - cursorAtNs w < ?k * ?t + ?t"
      using ticks_le[OF t, of ?k "nowNs - cursorAtNs w"] ticks_le[OF t, of "?k + 1" "nowNs - cursorAtNs w"]
      by (simp_all add: algebra_simps)
    moreover have "0 \<le> ?k * ?t" using k(1) t by simp
    ultimately show ?thesis
      using el w' left by (simp add: w_elapsed_def w_due_shift u not_le[symmetric])
  qed
qed

lemma wheel_Add_tracked:
  assumes ok: "wheel_ok w" and e: "e \<notin> w_tracked w"
  shows "wheel_ok (wheel_Add e w)" "w_tracked (wheel_Add e w) = insert e (w_tracked w)"
    "\<And>x. x \<noteq> e \<Longrightarrow> w_entry (wheel_Add e w) x = w_entry w x"
proof -
  let ?s = "(cursor w + nat (wheel_ticksAhead (expireAtNs (w_entry w e)) w mod int (slotCount w))) mod slotCount w"
  have s: "?s < slotCount w" using ok by (simp add: wheel_ok_def)
  have none: "e \<notin> set (w_slots w t)" for t using e by (auto simp: w_tracked_def)
  have slots: "w_slots (wheel_Add e w) = (w_slots w)(?s := e # w_slots w ?s)"
    by (simp add: wheel_Add_def w_setEntry_def wheel_linkHead_def Let_def)
  have "(\<Sum>t < slotCount w. int (length (w_slots (wheel_Add e w) t))) =
      (\<Sum>t < slotCount w. int (length (w_slots w t))) + 1"
    using s unfolding slots by (subst (1 2) sum.remove[of _ ?s]) (auto intro!: sum.cong)
  moreover have frame: "totalEntries (wheel_Add e w) = totalEntries w + 1"
    "slotCount (wheel_Add e w) = slotCount w" "cursor (wheel_Add e w) = cursor w"
    "tickNs (wheel_Add e w) = tickNs w" "we_slot (w_entry (wheel_Add e w) e) = int ?s"
    by (simp_all add: wheel_Add_def w_setEntry_def wheel_linkHead_def Let_def)
  moreover show other: "w_entry (wheel_Add e w) x = w_entry w x" if "x \<noteq> e" for x
    using that by (simp add: wheel_Add_def w_setEntry_def wheel_linkHead_def Let_def)
  moreover have "we_slot (w_entry (wheel_Add e w) x) = int t" if "x \<in> set (w_slots (wheel_Add e w) t)" for x t
    using that none ok frame(5) other[of x] unfolding slots
    by (cases "x = e") (auto simp: wheel_ok_def w_linked_def split: if_splits)
  moreover have "distinct (w_slots (wheel_Add e w) t)" for t
    using ok none by (simp add: slots wheel_ok_def w_linked_def)
  moreover have "w_slots (wheel_Add e w) t = []" if "slotCount w \<le> t" for t
  proof -
    have "t \<noteq> ?s" using that s by (metis not_le)
    then show ?thesis using that ok by (simp add: slots wheel_ok_def w_linked_def)
  qed
  ultimately show "wheel_ok (wheel_Add e w)"
    using ok unfolding wheel_ok_def w_linked_def by simp
  show "w_tracked (wheel_Add e w) = insert e (w_tracked w)"
  proof -
    have "x \<in> set (w_slots (wheel_Add e w) t) \<longleftrightarrow> x \<in> set (w_slots w t) \<or> t = ?s \<and> x = e" for x t
      by (auto simp: slots)
    then show ?thesis unfolding w_tracked_def by blast
  qed
qed

lemma wheel_ticksAhead_bounds:
  assumes "0 < tickNs w" and "\<bar>expireAt - cursorAtNs w\<bar> < 2 ^ 63"
  shows "1 \<le> wheel_ticksAhead expireAt w"
    "expireAt \<le> cursorAtNs w + tickNs w * wheel_ticksAhead expireAt w"
    "cursorAtNs w < expireAt \<Longrightarrow> cursorAtNs w + tickNs w * wheel_ticksAhead expireAt w < expireAt + tickNs w"
    "expireAt \<le> cursorAtNs w \<Longrightarrow> wheel_ticksAhead expireAt w = 1"
proof -
  let ?t = "tickNs w" and ?d = "expireAt - cursorAtNs w"
  let ?q = "?d div ?t + (if ?d mod ?t \<noteq> 0 then 1 else 0)"
  have w: "wrap64 ?d = ?d" using assms(2) by (intro wrap64_id) auto
  have dm: "?t * (?d div ?t) + ?d mod ?t = ?d" "0 \<le> ?d mod ?t" "?d mod ?t < ?t"
    using assms(1) by simp_all
  obtain k m where km: "?d div ?t = k" "?d mod ?t = m" by blast
  have q: "?d \<le> ?t * ?q" "?t * ?q < ?d + ?t"
    using dm[unfolded km] unfolding km by (auto simp: distrib_left)
  have pos: "1 \<le> ?q" if "0 < ?d"
  proof (rule ccontr)
    assume "\<not> 1 \<le> ?q"
    then have "?t * ?q \<le> 0" using assms(1) by (simp add: mult_nonneg_nonpos)
    then show False using q(1) that by linarith
  qed
  have ta: "wheel_ticksAhead expireAt w = (if 0 < ?d then ?q else 1)"
    using pos by (auto simp: wheel_ticksAhead_def w Let_def)
  show "1 \<le> wheel_ticksAhead expireAt w" using ta pos by simp
  show "expireAt \<le> cursorAtNs w + ?t * wheel_ticksAhead expireAt w"
    using q(1) assms(1) unfolding ta by auto
  show "cursorAtNs w < expireAt \<Longrightarrow> cursorAtNs w + ?t * wheel_ticksAhead expireAt w < expireAt + ?t"
    using q(2) unfolding ta by auto
  show "expireAt \<le> cursorAtNs w \<Longrightarrow> wheel_ticksAhead expireAt w = 1"
    unfolding ta by simp
qed

lemma ring_offset:
  fixes c n m :: nat
  assumes "c < n" and "0 < m"
  shows "((c + m mod n) mod n + n - c - 1) mod n = (m - 1) mod n"
proof -
  have "int (((c + m mod n) mod n + n - c - 1) mod n) =
      ((int c + int m mod int n) mod int n + (int n - int c - 1)) mod int n"
    using assms(1) by (simp add: of_nat_mod of_nat_diff algebra_simps)
  also have "\<dots> = (int c + int m mod int n + (int n - int c - 1)) mod int n"
    by (rule mod_add_left_eq)
  also have "\<dots> = (int m mod int n + (int n - 1)) mod int n"
    by (simp add: algebra_simps)
  also have "\<dots> = (int m + (int n - 1)) mod int n"
    by (rule mod_add_left_eq)
  also have "\<dots> = (int m - 1) mod int n"
    using mod_add_self2[of "int m - 1" "int n"] by (simp add: algebra_simps)
  also have "\<dots> = int ((m - 1) mod n)" using assms(2) by (simp add: of_nat_mod of_nat_diff)
  finally show ?thesis by simp
qed

text \<open>Adding an entry schedules it at the first tick at or after its expiry (the next tick when it
  has expired already) and leaves the schedule of the others alone.\<close>

lemma wheel_Add_due:
  assumes ok: "wheel_ok w" and e: "e \<notin> w_tracked w"
    and range: "\<bar>expireAtNs (w_entry w e) - cursorAtNs w\<bar> < 2 ^ 63"
  shows "w_due (wheel_Add e w) e = cursorAtNs w + tickNs w * wheel_ticksAhead (expireAtNs (w_entry w e)) w"
    and "x \<noteq> e \<Longrightarrow> w_due (wheel_Add e w) x = w_due w x"
proof -
  let ?n = "slotCount w" and ?k = "wheel_ticksAhead (expireAtNs (w_entry w e)) w"
  have n: "0 < ?n" "cursor w < ?n" and t: "0 < tickNs w" using ok by (simp_all add: wheel_ok_def)
  have k: "1 \<le> ?k" using wheel_ticksAhead_bounds(1)[OF t range] .
  define m where "m = nat ?k"
  have m: "?k = int m" "0 < m" using k by (simp_all add: m_def)
  let ?s = "(cursor w + m mod ?n) mod ?n"
  have frame: "cursorAtNs (wheel_Add e w) = cursorAtNs w" "tickNs (wheel_Add e w) = tickNs w"
    "slotCount (wheel_Add e w) = ?n" "cursor (wheel_Add e w) = cursor w"
    by (simp_all add: wheel_Add_def w_setEntry_def wheel_linkHead_def Let_def)
  have ent: "we_slot (w_entry (wheel_Add e w) e) = int ?s"
    "revolutions (w_entry (wheel_Add e w) e) = (m - 1) div ?n"
    using m by (simp_all add: wheel_Add_def w_setEntry_def wheel_linkHead_def Let_def nat_div_distrib
        nat_diff_distrib nat_mod_distrib flip: of_nat_mod)
  have "(?s + ?n - cursor w - 1) mod ?n = (m - 1) mod ?n"
    using ring_offset[OF n(2) m(2)] by simp
  then have "w_left (wheel_Add e w) e = (m - 1) mod ?n + 1 + (m - 1) div ?n * ?n"
    by (simp add: w_left_def w_distance_def frame ent)
  also have "\<dots> = m" using m(2) by simp
  finally show "w_due (wheel_Add e w) e = cursorAtNs w + tickNs w * ?k"
    using m by (simp add: w_due_def frame)
  show "w_due (wheel_Add e w) x = w_due w x" if "x \<noteq> e"
    using wheel_Add_tracked(3)[OF ok e that] by (simp add: w_due_def w_left_def w_distance_def frame)
qed

lemma wheel_Remove_tracked:
  assumes ok: "wheel_ok w" and e: "e \<in> w_tracked w"
  shows "wheel_ok (wheel_Remove e w)" "w_tracked (wheel_Remove e w) = w_tracked w - {e}"
    "\<And>x. x \<noteq> e \<Longrightarrow> w_due (wheel_Remove e w) x = w_due w x"
    "\<And>x. x \<noteq> e \<Longrightarrow> w_entry (wheel_Remove e w) x = w_entry w x"
    "we_slot (w_entry (wheel_Remove e w) e) = - 1"
proof -
  have link: "w_linked w" using ok by (simp add: wheel_ok_def)
  obtain s where s: "e \<in> set (w_slots w s)" "we_slot (w_entry w e) = int s" "s < slotCount w"
    using w_tracked_slot[OF link e] by metis
  have d: "distinct (w_slots w s)" using link by (simp add: w_linked_def)
  have w': "wheel_Remove e w = w\<lparr>w_slots := (w_slots w)(s := remove1 e (w_slots w s)),
      w_entry := (w_entry w)(e := (w_entry w e)\<lparr>we_slot := - 1\<rparr>), totalEntries := totalEntries w - 1\<rparr>"
    using s by (simp add: wheel_Remove_def wheel_unlink_def w_setEntry_def Let_def)
  have mem: "x \<in> set (w_slots (wheel_Remove e w) t) \<longleftrightarrow> x \<in> set (w_slots w t) \<and> x \<noteq> e" for x t
  proof (cases "t = s")
    case True
    then show ?thesis using d by (simp add: w')
  next
    case False
    then have "e \<notin> set (w_slots w t)" using w_linked_unique[OF link s(1)] by blast
    then show ?thesis using False by (auto simp: w')
  qed
  then show "w_tracked (wheel_Remove e w) = w_tracked w - {e}"
    unfolding w_tracked_def by blast
  have "(\<Sum>t < slotCount w. int (length (w_slots (wheel_Remove e w) t))) =
      (\<Sum>t < slotCount w. int (length (w_slots w t))) - 1"
    using s unfolding w' by (subst (1 2) sum.remove[of _ s]) (auto intro!: sum.cong)
  then show "wheel_ok (wheel_Remove e w)"
    using ok s mem by (simp add: wheel_ok_def w_linked_def) (auto simp: w')
  show "w_due (wheel_Remove e w) x = w_due w x" "w_entry (wheel_Remove e w) x = w_entry w x" if "x \<noteq> e" for x
    using that by (simp_all add: w_due_def w_left_def w_distance_def w')
  show "we_slot (w_entry (wheel_Remove e w) e) = - 1" by (simp add: w')
qed

lemma wheel_Len_card:
  assumes "wheel_ok w"
  shows "finite (w_tracked w)" "wheel_Len w = int (card (w_tracked w))"
proof -
  have link: "w_linked w" using assms by (simp add: wheel_ok_def)
  have T: "w_tracked w = (\<Union>s < slotCount w. set (w_slots w s))"
    using w_linked_bound[OF link] by (fastforce simp: w_tracked_def)
  show "finite (w_tracked w)" unfolding T by simp
  have "set (w_slots w s) \<inter> set (w_slots w r) = {}" if "s \<noteq> r" for s r
    using w_linked_unique[OF link] that by blast
  then have "card (w_tracked w) = (\<Sum>s < slotCount w. card (set (w_slots w s)))"
    unfolding T by (intro card_UN_disjoint) simp_all
  also have "\<dots> = (\<Sum>s < slotCount w. length (w_slots w s))"
    using link by (simp add: w_linked_def distinct_card)
  finally show "wheel_Len w = int (card (w_tracked w))"
    using link by (simp add: wheel_Len_def w_linked_def)
qed

text \<open>C23: \<open>AdvanceTo\<close> of the timing wheel is exact. In a well-formed wheel, advancing to any time
  (less than \<open>2^63\<close> ns ahead of the cursor) returns each entry whose firing instant has come, once,
  and no other, whether the advance spans part of a rotation or many; every entry that stays keeps
  its firing instant and its expiry, and the cursor ends within one tick of the time given.\<close>
theorem wheel_advance_exact:
  assumes "wheel_ok w" and "nowNs - cursorAtNs w < 2 ^ 63" and "wheel_AdvanceTo nowNs w = (xs, w')"
  shows "wheel_ok w' \<and> distinct xs \<and> set xs = {e \<in> w_tracked w. w_due w e \<le> nowNs} \<and>
     w_tracked w' = w_tracked w - set xs \<and>
     (\<forall>e \<in> w_tracked w'. w_due w' e = w_due w e \<and> expireAtNs (w_entry w' e) = expireAtNs (w_entry w e)) \<and>
     nowNs < cursorAtNs w' + tickNs w' \<and> wheel_Len w' = wheel_Len w - int (length xs)"
proof -
  note a = wheel_AdvanceTo_due[OF assms]
  have T: "w_tracked w' = w_tracked w - set xs" "set xs \<subseteq> w_tracked w" "distinct xs" using a by auto
  have "wheel_ok w'" using a by simp
  then have "wheel_Len w' = wheel_Len w - int (card (set xs))"
    using T wheel_Len_card[OF assms(1)] wheel_Len_card[of w'] by (simp add: card_Diff_subset finite_subset of_nat_diff card_mono)
  then have "wheel_Len w' = wheel_Len w - int (length xs)"
    using T(3) by (simp add: distinct_card)
  then show ?thesis using a T(1) by simp
qed

definition w_base :: "nat wheel" where
  "w_base = w_setEntry 7 (expireAtNs_update (\<lambda>_. 95)) (wheel_New 4 10 0)"

definition w_example :: "nat wheel" where
  "w_example = wheel_Add 7 w_base"

lemma w_base_facts:
  "wheel_ok w_base" "w_tracked w_base = {}" "cursorAtNs w_base = 0" "tickNs w_base = 10"
  "expireAtNs (w_entry w_base 7) = 95"
  by (simp_all add: w_base_def w_setEntry_def wheel_New_def wheel_ok_def w_linked_def w_tracked_def Let_def)

lemma w_example_facts:
  "wheel_ok w_example" "w_tracked w_example = {7}" "w_due w_example 7 = 100" "cursorAtNs w_example = 0"
proof -
  show "wheel_ok w_example" "w_tracked w_example = {7}"
    using wheel_Add_tracked[OF w_base_facts(1), of 7] w_base_facts(2) by (simp_all add: w_example_def)
  have "w_due w_example 7 = cursorAtNs w_base + tickNs w_base * wheel_ticksAhead (expireAtNs (w_entry w_base 7)) w_base"
    unfolding w_example_def by (intro wheel_Add_due(1)) (simp_all add: w_base_facts)
  then show "w_due w_example 7 = 100"
    by (simp add: w_base_facts wheel_ticksAhead_def wrap64_def)
  show "cursorAtNs w_example = 0"
    using w_base_facts(3) by (simp add: w_example_def wheel_Add_def w_setEntry_def wheel_linkHead_def Let_def)
qed

theorem wheel_advance_exact_witness:
  "fst (wheel_AdvanceTo 99 w_example) = [] \<and> w_tracked (snd (wheel_AdvanceTo 99 w_example)) = {7} \<and>
   set (fst (wheel_AdvanceTo 100 w_example)) = {7}"
proof -
  have at: "set (fst (wheel_AdvanceTo t w_example)) = {e \<in> w_tracked w_example. w_due w_example e \<le> t} \<and>
      w_tracked (snd (wheel_AdvanceTo t w_example)) = w_tracked w_example - set (fst (wheel_AdvanceTo t w_example))"
    if "t < 2 ^ 63" for t
    using wheel_advance_exact[OF w_example_facts(1), of t, OF _ prod.collapse[symmetric]] that
    by (simp add: w_example_facts(4))
  have "{e \<in> w_tracked w_example. w_due w_example e \<le> 99} = {}"
    "{e \<in> w_tracked w_example. w_due w_example e \<le> 100} = {7}"
    using w_example_facts by auto
  with at[of 99] at[of 100] have "set (fst (wheel_AdvanceTo 99 w_example)) = {}"
    "set (fst (wheel_AdvanceTo 100 w_example)) = {7}" by simp_all
  then show ?thesis
    unfolding conjunct2[OF at[of 99, simplified]] w_example_facts(2) by simp
qed

text \<open>C24: The wheel's precision. An entry added with an expiry ahead of the cursor is not returned
  by an advance to any time before its expiry, and is returned by an advance to any time at least
  one tick (less a nanosecond) after it.\<close>
theorem wheel_precision:
  assumes "wheel_ok w" and "e \<notin> w_tracked w" and "0 \<le> cursorAtNs w"
    and "expireAtNs (w_entry w e) = x" and "cursorAtNs w < x" and "x < 2 ^ 63" and "nowNs < 2 ^ 63"
  shows "(nowNs < x \<longrightarrow> e \<notin> set (fst (wheel_AdvanceTo nowNs (wheel_Add e w)))) \<and>
     (x + tickNs w - 1 \<le> nowNs \<longrightarrow> e \<in> set (fst (wheel_AdvanceTo nowNs (wheel_Add e w))))"
proof -
  let ?v = "wheel_Add e w"
  have t: "0 < tickNs w" using assms(1) by (simp add: wheel_ok_def)
  have range: "\<bar>expireAtNs (w_entry w e) - cursorAtNs w\<bar> < 2 ^ 63" using assms by simp
  have v: "wheel_ok ?v" "e \<in> w_tracked ?v" using wheel_Add_tracked(1,2)[OF assms(1,2)] by simp_all
  have c: "cursorAtNs ?v = cursorAtNs w"
    by (simp add: wheel_Add_def w_setEntry_def wheel_linkHead_def Let_def)
  have "x \<le> w_due ?v e" "w_due ?v e < x + tickNs w"
    using wheel_Add_due(1)[OF assms(1,2) range] wheel_ticksAhead_bounds(2,3)[OF t range] assms(4,5)
    by simp_all
  moreover have "set (fst (wheel_AdvanceTo nowNs ?v)) = {e \<in> w_tracked ?v. w_due ?v e \<le> nowNs}"
  proof -
    have "nowNs - cursorAtNs ?v < 2 ^ 63" using assms(3,7) c by linarith
    from wheel_AdvanceTo_due[OF v(1) this prod.collapse[symmetric]] show ?thesis by (elim conjE)
  qed
  ultimately show ?thesis using v(2) by auto
qed

theorem wheel_precision_witness:
  "7 \<notin> set (fst (wheel_AdvanceTo 94 w_example)) \<and> 7 \<in> set (fst (wheel_AdvanceTo 104 w_example))"
  using wheel_precision[of w_base 7 95 94] wheel_precision[of w_base 7 95 104]
  by (simp add: w_example_def w_base_facts)

text \<open>\<open>Remove\<close> is documented as safe on an entry that was never added; Go's zero value makes its
  slot 0 rather than a negative number, so the call lowers the entry count of an empty wheel.\<close>

lemma wheel_remove_never_added: "wheel_Len (wheel_Remove (1::nat) (wheel_New 4 10 0)) = - 1"
  by (simp add: wheel_Len_def wheel_Remove_def wheel_unlink_def wheel_New_def w_setEntry_def Let_def)

end
