(* ===== verification/TTL_Backend.thy ===== *)
theory TTL_Backend
  imports Expiry_Heap Wheel
begin

text \<open>
  The two implementations of \<open>ttlBackend\<close> (ttlbackend.go, wheel_ttl.go) behind one type: the
  expiry heap and the timing wheel. An entry's \<open>wheelHandle\<close> is modelled as the membership of its
  key in \<open>wb_handle\<close>; the wheel entry object a handle points at is the wheel's object of that name,
  reinitialised by each \<open>Add\<close> as the code allocates a new one. \<open>Reset\<close> is only called when the
  cache drops all its entries, so the handles go with them.

  The locale \<open>ttl_tracker\<close> is the contract the shard relies on. It is interpreted on the
  dispatching operations, hence on both implementations.
\<close>

section \<open>The wheel backend\<close>

record 'k wheelb =
  wb_wheel :: "'k wheel"
  wb_handle :: "'k set"

definition newWheelBackend :: "int \<Rightarrow> int \<Rightarrow> int \<Rightarrow> 'k wheelb" where
  "newWheelBackend slots slotTickNs origin =
     \<lparr>wb_wheel = wheel_New slots slotTickNs origin, wb_handle = {}\<rparr>"

definition wheelb_Add :: "('k \<Rightarrow> int) \<Rightarrow> 'k \<Rightarrow> 'k wheelb \<Rightarrow> 'k wheelb" where
  "wheelb_Add ex e b =
     (if ex e = 0 then b\<lparr>wb_handle := wb_handle b - {e}\<rparr>
      else let w = w_setEntry e (\<lambda>_. \<lparr>expireAtNs = ex e, revolutions = 0, we_slot = 0\<rparr>) (wb_wheel b)
           in b\<lparr>wb_wheel := wheel_Add e w, wb_handle := insert e (wb_handle b)\<rparr>)"

definition wheelb_Remove :: "'k \<Rightarrow> 'k wheelb \<Rightarrow> 'k wheelb" where
  "wheelb_Remove e b =
     (if e \<notin> wb_handle b then b
      else b\<lparr>wb_wheel := wheel_Remove e (wb_wheel b), wb_handle := wb_handle b - {e}\<rparr>)"

definition wheelb_Fix :: "('k \<Rightarrow> int) \<Rightarrow> 'k \<Rightarrow> 'k wheelb \<Rightarrow> 'k wheelb" where
  "wheelb_Fix ex e b = wheelb_Add ex e (wheelb_Remove e b)"

definition wheelb_Sweep :: "int \<Rightarrow> 'k wheelb \<Rightarrow> 'k list \<times> 'k wheelb" where
  "wheelb_Sweep now b =
     (let (expired, w) = wheel_AdvanceTo now (wb_wheel b)
      in (expired, b\<lparr>wb_wheel := w, wb_handle := wb_handle b - set expired\<rparr>))"

definition wheelb_Len :: "'k wheelb \<Rightarrow> int" where
  "wheelb_Len b = wheel_Len (wb_wheel b)"

definition wheelb_Reset :: "'k wheelb \<Rightarrow> 'k wheelb" where
  "wheelb_Reset b = b\<lparr>wb_wheel := wheel_Reset (wb_wheel b), wb_handle := {}\<rparr>"

section \<open>The backend of a shard\<close>

datatype 'k ttlBackend = TtlHeap "'k eheap" | TtlWheel "'k wheelb"

text \<open>The configuration fields the choice depends on: the number of buckets, the ticks per bucket,
  the janitor's interval, and the clock's reading (none without a clock).\<close>

definition newTTLBackend :: "int \<Rightarrow> int \<Rightarrow> int \<Rightarrow> int option \<Rightarrow> 'k ttlBackend" where
  "newTTLBackend ttlBuckets tickPerBucket janitorInterval clockNow =
     (if ttlBuckets > 0
      then let ticks = (if tickPerBucket \<le> 0 then 1 else tickPerBucket);
               base = (if janitorInterval \<le> 0 then 30000000000 else janitorInterval);
               tick = max (base div ticks) 1;
               origin = (case clockNow of None \<Rightarrow> 0 | Some t \<Rightarrow> t)
           in TtlWheel (newWheelBackend ttlBuckets tick origin)
      else TtlHeap eheap_empty)"

fun ttl_Add :: "('k \<Rightarrow> int) \<Rightarrow> 'k \<Rightarrow> 'k ttlBackend \<Rightarrow> 'k ttlBackend" where
  "ttl_Add ex e (TtlHeap h) = TtlHeap (heapb_Add ex e h)"
| "ttl_Add ex e (TtlWheel b) = TtlWheel (wheelb_Add ex e b)"

fun ttl_Remove :: "('k \<Rightarrow> int) \<Rightarrow> 'k \<Rightarrow> 'k ttlBackend \<Rightarrow> 'k ttlBackend" where
  "ttl_Remove ex e (TtlHeap h) = TtlHeap (heapb_Remove ex e h)"
| "ttl_Remove ex e (TtlWheel b) = TtlWheel (wheelb_Remove e b)"

fun ttl_Fix :: "('k \<Rightarrow> int) \<Rightarrow> 'k \<Rightarrow> 'k ttlBackend \<Rightarrow> 'k ttlBackend" where
  "ttl_Fix ex e (TtlHeap h) = TtlHeap (heapb_Fix ex e h)"
| "ttl_Fix ex e (TtlWheel b) = TtlWheel (wheelb_Fix ex e b)"

fun ttl_Sweep :: "('k \<Rightarrow> int) \<Rightarrow> int \<Rightarrow> 'k ttlBackend \<Rightarrow> 'k list \<times> 'k ttlBackend" where
  "ttl_Sweep ex now (TtlHeap h) = map_prod id TtlHeap (heapb_Sweep ex now h)"
| "ttl_Sweep ex now (TtlWheel b) = map_prod id TtlWheel (wheelb_Sweep now b)"

fun ttl_Len :: "'k ttlBackend \<Rightarrow> int" where
  "ttl_Len (TtlHeap h) = int (eh_Len h)"
| "ttl_Len (TtlWheel b) = wheelb_Len b"

fun ttl_Reset :: "'k ttlBackend \<Rightarrow> 'k ttlBackend" where
  "ttl_Reset (TtlHeap h) = TtlHeap (heapb_Reset h)"
| "ttl_Reset (TtlWheel b) = TtlWheel (wheelb_Reset b)"

section \<open>The contract\<close>

text \<open>Times are non-negative \<open>int64\<close> values (an expiry of 0 means none). \<open>ok ex b\<close> says that the
  backend is well-formed for the current expiries \<open>ex\<close> of the entries.\<close>

definition time_ok :: "int \<Rightarrow> bool" where
  "time_ok t \<longleftrightarrow> 0 \<le> t \<and> t < 2 ^ 63"

locale ttl_tracker =
  fixes tracked :: "'b \<Rightarrow> 'k set"
    and ok :: "('k \<Rightarrow> int) \<Rightarrow> 'b \<Rightarrow> bool"
    and add :: "('k \<Rightarrow> int) \<Rightarrow> 'k \<Rightarrow> 'b \<Rightarrow> 'b"
    and remove :: "('k \<Rightarrow> int) \<Rightarrow> 'k \<Rightarrow> 'b \<Rightarrow> 'b"
    and fixup :: "('k \<Rightarrow> int) \<Rightarrow> 'k \<Rightarrow> 'b \<Rightarrow> 'b"
    and sweep :: "('k \<Rightarrow> int) \<Rightarrow> int \<Rightarrow> 'b \<Rightarrow> 'k list \<times> 'b"
    and len :: "'b \<Rightarrow> int"
    and reset :: "'b \<Rightarrow> 'b"
  assumes finite_tracked: "ok ex b \<Longrightarrow> finite (tracked b)"
    and len_tracked: "ok ex b \<Longrightarrow> len b = int (card (tracked b))"
    and ok_cong: "ok ex b \<Longrightarrow> (\<And>e. e \<in> tracked b \<Longrightarrow> ex' e = ex e) \<Longrightarrow> ok ex' b"
    and ok_add: "ok ex b \<Longrightarrow> time_ok (ex e) \<Longrightarrow> e \<notin> tracked b \<Longrightarrow> ok ex (add ex e b)"
    and tracked_add: "ok ex b \<Longrightarrow> e \<notin> tracked b \<Longrightarrow>
          tracked (add ex e b) = (if ex e = 0 then tracked b else insert e (tracked b))"
    and ok_remove: "ok ex b \<Longrightarrow> ok ex (remove ex e b)"
    and tracked_remove: "ok ex b \<Longrightarrow> tracked (remove ex e b) = tracked b - {e}"
    and ok_fix: "ok ex b \<Longrightarrow> (\<And>x. x \<noteq> e \<Longrightarrow> ex' x = ex x) \<Longrightarrow> time_ok (ex' e) \<Longrightarrow>
          ok ex' (fixup ex' e b)"
    and tracked_fix: "ok ex b \<Longrightarrow> (\<And>x. x \<noteq> e \<Longrightarrow> ex' x = ex x) \<Longrightarrow> time_ok (ex' e) \<Longrightarrow>
          tracked (fixup ex' e b) = (if ex' e = 0 then tracked b - {e} else insert e (tracked b))"
    and ok_sweep: "ok ex b \<Longrightarrow> time_ok now \<Longrightarrow> sweep ex now b = (xs, b') \<Longrightarrow> ok ex b'"
    and sweep_distinct: "ok ex b \<Longrightarrow> time_ok now \<Longrightarrow> sweep ex now b = (xs, b') \<Longrightarrow> distinct xs"
    and sweep_tracked: "ok ex b \<Longrightarrow> time_ok now \<Longrightarrow> sweep ex now b = (xs, b') \<Longrightarrow>
          set xs \<subseteq> tracked b \<and> tracked b' = tracked b - set xs"
    and sweep_due: "ok ex b \<Longrightarrow> time_ok now \<Longrightarrow> sweep ex now b = (xs, b') \<Longrightarrow> e \<in> set xs \<Longrightarrow> ex e \<le> now"
    and ok_reset: "ok ex b \<Longrightarrow> ok ex' (reset b)"
    and tracked_reset: "ok ex b \<Longrightarrow> tracked (reset b) = {}"
begin

text \<open>A sweep makes the backend smaller by exactly the entries it returns.\<close>

lemma sweep_len:
  assumes "ok ex b" and "time_ok now" and "sweep ex now b = (xs, b')"
  shows "len b' = len b - int (length xs)"
proof -
  note t = sweep_tracked[OF assms]
  have "card (tracked b') = card (tracked b) - card (set xs)" "card (set xs) \<le> card (tracked b)"
    using t finite_tracked[OF assms(1)] by (simp_all add: card_Diff_subset finite_subset card_mono)
  then show ?thesis
    using len_tracked[OF assms(1)] len_tracked[OF ok_sweep[OF assms]] sweep_distinct[OF assms]
    by (simp add: distinct_card of_nat_diff)
qed

end

definition wheelb_ok :: "('k \<Rightarrow> int) \<Rightarrow> 'k wheelb \<Rightarrow> bool" where
  "wheelb_ok ex b \<longleftrightarrow>
     wheel_ok (wb_wheel b) \<and> wb_handle b = w_tracked (wb_wheel b) \<and> time_ok (cursorAtNs (wb_wheel b)) \<and>
     time_ok (originNs (wb_wheel b)) \<and>
     (\<forall>e \<in> w_tracked (wb_wheel b). expireAtNs (w_entry (wb_wheel b) e) = ex e \<and> ex e \<le> w_due (wb_wheel b) e)"

fun ttl_ok :: "('k \<Rightarrow> int) \<Rightarrow> 'k ttlBackend \<Rightarrow> bool" where
  "ttl_ok ex (TtlHeap h) = heap_ok ex h"
| "ttl_ok ex (TtlWheel b) = wheelb_ok ex b"

fun ttl_tracked :: "'k ttlBackend \<Rightarrow> 'k set" where
  "ttl_tracked (TtlHeap h) = set (hp h)"
| "ttl_tracked (TtlWheel b) = wb_handle b"

section \<open>The wheel keeps the contract\<close>

lemma wheel_setEntry_untracked:
  assumes "wheel_ok w" and "e \<notin> w_tracked w"
  shows "wheel_ok (w_setEntry e f w)" "w_tracked (w_setEntry e f w) = w_tracked w"
    "x \<noteq> e \<Longrightarrow> w_due (w_setEntry e f w) x = w_due w x"
proof -
  have "e \<notin> set (w_slots w s)" for s using assms(2) by (auto simp: w_tracked_def)
  then show "wheel_ok (w_setEntry e f w)" using assms(1) by (auto simp: wheel_ok_def w_linked_def w_setEntry_def)
  show "w_tracked (w_setEntry e f w) = w_tracked w" by (simp add: w_tracked_def w_setEntry_def)
  show "x \<noteq> e \<Longrightarrow> w_due (w_setEntry e f w) x = w_due w x"
    by (simp add: w_due_def w_left_def w_distance_def w_setEntry_def)
qed

lemma wheel_Add_frame [simp]:
  "cursorAtNs (wheel_Add e w) = cursorAtNs w" "originNs (wheel_Add e w) = originNs w"
  "tickNs (wheel_Add e w) = tickNs w" "expireAtNs (w_entry (wheel_Add e w) x) = expireAtNs (w_entry w x)"
  by (simp_all add: wheel_Add_def w_setEntry_def wheel_linkHead_def Let_def)

lemma wheel_Remove_frame [simp]:
  "cursorAtNs (wheel_Remove e w) = cursorAtNs w" "originNs (wheel_Remove e w) = originNs w"
  by (simp_all add: wheel_Remove_def wheel_unlink_def w_setEntry_def Let_def)

lemma wheelb_Add_ok:
  assumes ok: "wheelb_ok ex b" and t: "time_ok (ex e)" and e: "e \<notin> wb_handle b"
  shows "wheelb_ok ex (wheelb_Add ex e b)"
proof (cases "ex e = 0")
  case True
  then show ?thesis using ok e by (simp add: wheelb_Add_def)
next
  case False
  let ?w = "wb_wheel b"
  let ?v = "w_setEntry e (\<lambda>_. \<lparr>expireAtNs = ex e, revolutions = 0, we_slot = 0\<rparr>) ?w"
  have w: "wheel_ok ?w" "e \<notin> w_tracked ?w" using ok e by (simp_all add: wheelb_ok_def)
  note v = wheel_setEntry_untracked[OF w, where f = "\<lambda>_. \<lparr>expireAtNs = ex e, revolutions = 0, we_slot = 0\<rparr>"]
  have ve: "e \<notin> w_tracked ?v" using w(2) v(2) by simp
  have vf: "cursorAtNs ?v = cursorAtNs ?w" "originNs ?v = originNs ?w" "expireAtNs (w_entry ?v e) = ex e"
    "\<And>x. x \<noteq> e \<Longrightarrow> w_entry ?v x = w_entry ?w x"
    by (simp_all add: w_setEntry_def)
  have range: "\<bar>expireAtNs (w_entry ?v e) - cursorAtNs ?v\<bar> < 2 ^ 63"
    using ok t unfolding vf by (auto simp: wheelb_ok_def time_ok_def)
  have tick: "0 < tickNs ?v" using v(1) by (simp add: wheel_ok_def)
  have due: "ex e \<le> w_due (wheel_Add e ?v) e"
    using wheel_Add_due(1)[OF v(1) ve range] wheel_ticksAhead_bounds(2)[OF tick range] vf(3) by simp
  have others: "expireAtNs (w_entry (wheel_Add e ?v) x) = ex x \<and> ex x \<le> w_due (wheel_Add e ?v) x"
    if "x \<in> w_tracked ?w" for x
  proof -
    have ne: "x \<noteq> e" using that w(2) by auto
    then show ?thesis
      using wheel_Add_due(2)[OF v(1) ve range ne] v(3)[OF ne] vf(4)[OF ne] ok that by (simp add: wheelb_ok_def)
  qed
  have "wheelb_Add ex e b = b\<lparr>wb_wheel := wheel_Add e ?v, wb_handle := insert e (wb_handle b)\<rparr>"
    using False by (simp add: wheelb_Add_def)
  then show ?thesis
    using wheel_Add_tracked(1,2)[OF v(1) ve] v(2) ok due others vf by (simp add: wheelb_ok_def)
qed

lemma wheelb_Remove_ok:
  assumes ok: "wheelb_ok ex b" and ch: "\<And>x. x \<noteq> e \<Longrightarrow> ex' x = ex x" and e: "e \<in> wb_handle b \<or> ex' = ex"
  shows "wheelb_ok ex' (wheelb_Remove e b)"
proof (cases "e \<in> wb_handle b")
  case True
  have w: "wheel_ok (wb_wheel b)" "e \<in> w_tracked (wb_wheel b)" using ok True by (simp_all add: wheelb_ok_def)
  note r = wheel_Remove_tracked[OF w]
  have "expireAtNs (w_entry (wheel_Remove e (wb_wheel b)) x) = ex' x \<and>
      ex' x \<le> w_due (wheel_Remove e (wb_wheel b)) x" if "x \<in> w_tracked (wb_wheel b) - {e}" for x
    using ok that ch[of x] r(3,4)[of x] by (simp add: wheelb_ok_def)
  then show ?thesis
    using ok True r(1,2) by (simp add: wheelb_ok_def wheelb_Remove_def)
next
  case False
  then show ?thesis using ok e by (simp add: wheelb_Remove_def)
qed

lemma wheelb_ok_cong:
  "wheelb_ok ex b \<Longrightarrow> (\<And>e. e \<in> wb_handle b \<Longrightarrow> ex' e = ex e) \<Longrightarrow> wheelb_ok ex' b"
  by (simp add: wheelb_ok_def)

lemma wheelb_Fix_ok:
  assumes ok: "wheelb_ok ex b" and ch: "\<And>x. x \<noteq> e \<Longrightarrow> ex' x = ex x" and t: "time_ok (ex' e)"
  shows "wheelb_ok ex' (wheelb_Fix ex' e b)"
    "wb_handle (wheelb_Fix ex' e b) = (if ex' e = 0 then wb_handle b - {e} else insert e (wb_handle b))"
proof -
  have h: "wb_handle (wheelb_Remove e b) = wb_handle b - {e}" by (simp add: wheelb_Remove_def)
  have "wheelb_ok ex' (wheelb_Remove e b)"
  proof (cases "e \<in> wb_handle b")
    case True
    then show ?thesis using wheelb_Remove_ok[OF ok ch] by simp
  next
    case False
    then have "wheelb_Remove e b = b" by (simp add: wheelb_Remove_def)
    moreover have "ex' x = ex x" if "x \<in> wb_handle b" for x using that False ch by metis
    ultimately show ?thesis using wheelb_ok_cong[OF ok] by simp
  qed
  then show "wheelb_ok ex' (wheelb_Fix ex' e b)"
    unfolding wheelb_Fix_def by (rule wheelb_Add_ok) (simp_all add: t h)
  show "wb_handle (wheelb_Fix ex' e b) = (if ex' e = 0 then wb_handle b - {e} else insert e (wb_handle b))"
    by (simp add: wheelb_Fix_def wheelb_Add_def h Let_def)
qed

lemma wheelb_Sweep_ok:
  assumes ok: "wheelb_ok ex b" and t: "time_ok now" and r: "wheelb_Sweep now b = (xs, b')"
  shows "wheelb_ok ex b'" "distinct xs" "set xs \<subseteq> wb_handle b" "wb_handle b' = wb_handle b - set xs"
    "\<And>e. e \<in> set xs \<Longrightarrow> ex e \<le> now"
proof -
  let ?w = "wb_wheel b"
  obtain w' where a: "wheel_AdvanceTo now ?w = (xs, w')"
    and b': "b' = b\<lparr>wb_wheel := w', wb_handle := wb_handle b - set xs\<rparr>"
    using r by (auto simp: wheelb_Sweep_def split: prod.splits)
  have w: "wheel_ok ?w" "now - cursorAtNs ?w < 2 ^ 63" and h: "wb_handle b = w_tracked ?w"
    using ok t by (auto simp: wheelb_ok_def time_ok_def)
  note d = wheel_AdvanceTo_due[OF w a]
  have w': "wheel_ok w'" "distinct xs" "set xs = {e \<in> w_tracked ?w. w_due ?w e \<le> now}"
    "w_tracked w' = {e \<in> w_tracked ?w. now < w_due ?w e}" "cursorAtNs ?w \<le> cursorAtNs w'"
    "cursorAtNs w' \<le> max (cursorAtNs ?w) now"
    using d by simp_all
  have keep: "w_due w' e = w_due ?w e" "expireAtNs (w_entry w' e) = expireAtNs (w_entry ?w e)"
    if "e \<in> w_tracked w'" for e
    using d that by simp_all
  have inv: "expireAtNs (w_entry ?w e) = ex e \<and> ex e \<le> w_due ?w e" if "e \<in> w_tracked ?w" for e
    using ok that by (simp add: wheelb_ok_def)
  show "distinct xs" by (rule w'(2))
  show "set xs \<subseteq> wb_handle b" unfolding w'(3) h by blast
  show "wb_handle b' = wb_handle b - set xs" by (simp add: b')
  show "ex e \<le> now" if "e \<in> set xs" for e using that inv[of e] unfolding w'(3) by auto
  have time: "time_ok (cursorAtNs w') \<and> originNs w' = originNs ?w"
    using d w'(5,6) ok t by (auto simp: wheelb_ok_def time_ok_def)
  have tr: "w_tracked w' = w_tracked ?w - set xs" unfolding w'(3,4) by auto
  have "expireAtNs (w_entry w' e) = ex e \<and> ex e \<le> w_due w' e" if "e \<in> w_tracked w'" for e
    using keep[OF that] inv[of e] that tr by simp
  then show "wheelb_ok ex b'"
    using w'(1) time ok tr by (simp add: wheelb_ok_def b')
qed

lemma wheel_Reset_frame: "cursorAtNs (wheel_Reset w) = originNs w" "originNs (wheel_Reset w) = originNs w"
  by (simp_all add: wheel_Reset_def)

lemma wheel_New_frame: "cursorAtNs (wheel_New n t a) = a" "originNs (wheel_New n t a) = a"
  by (simp_all add: wheel_New_def Let_def)

lemma newTTLBackend_ok:
  assumes "\<And>t. clockNow = Some t \<Longrightarrow> time_ok t"
  shows "ttl_ok ex (newTTLBackend n k i clockNow)" "ttl_tracked (newTTLBackend n k i clockNow) = {}"
proof -
  have "wheelb_ok ex (newWheelBackend n t a)" if "time_ok a" for t a
    using that by (simp add: wheelb_ok_def newWheelBackend_def wheel_New_ok wheel_New_frame)
  moreover have "time_ok (case clockNow of None \<Rightarrow> 0 | Some t \<Rightarrow> t)"
    using assms by (auto simp: time_ok_def split: option.split)
  ultimately show "ttl_ok ex (newTTLBackend n k i clockNow)"
    by (simp add: newTTLBackend_def heap_empty_ok Let_def)
  show "ttl_tracked (newTTLBackend n k i clockNow) = {}"
    by (simp add: newTTLBackend_def newWheelBackend_def eheap_empty_def Let_def)
qed

lemma heapb_Sweep_facts:
  assumes "heap_ok ex h" and "heapb_Sweep ex now h = (xs, h')"
  shows "heap_ok ex h'" "distinct xs" "set xs \<subseteq> set (hp h)" "set (hp h') = set (hp h) - set xs"
    "\<And>e. e \<in> set xs \<Longrightarrow> ex e \<le> now"
  using heapb_Sweep_exact[OF assms(1), of now] unfolding heap_swept_def assms(2) by auto

interpretation ttl: ttl_tracker ttl_tracked ttl_ok ttl_Add ttl_Remove ttl_Fix ttl_Sweep ttl_Len ttl_Reset
proof
  fix ex ex' :: "'a \<Rightarrow> int" and b b' :: "'a ttlBackend" and e now xs
  assume ok: "ttl_ok ex b"
  show "finite (ttl_tracked b)"
    using ok by (cases b) (simp_all add: wheelb_ok_def wheel_Len_card)
  show "ttl_Len b = int (card (ttl_tracked b))"
    using ok by (cases b) (simp_all add: wheelb_ok_def wheel_Len_card heap_ok_def eh_ok_def eh_Len_def
        wheelb_Len_def distinct_card)
  show "ttl_ok ex' b" if "\<And>e. e \<in> ttl_tracked b \<Longrightarrow> ex' e = ex e"
  proof (cases b)
    case (TtlHeap h)
    then show ?thesis using heap_ok_cong[of ex h ex'] ok that by simp
  next
    case (TtlWheel w)
    then show ?thesis using wheelb_ok_cong[of ex w ex'] ok that by simp
  qed
  show "ttl_ok ex (ttl_Add ex e b)" if "time_ok (ex e)" "e \<notin> ttl_tracked b"
    using ok that by (cases b) (simp_all add: heapb_Add_ok(1) wheelb_Add_ok)
  show "ttl_tracked (ttl_Add ex e b) = (if ex e = 0 then ttl_tracked b else insert e (ttl_tracked b))"
    if "e \<notin> ttl_tracked b"
    using ok that by (cases b) (simp_all add: heapb_Add_ok(2) wheelb_Add_def Let_def)
  show "ttl_ok ex (ttl_Remove ex e b)"
    using ok by (cases b) (simp_all add: heapb_Remove_ok(1) wheelb_Remove_ok[of ex])
  show "ttl_tracked (ttl_Remove ex e b) = ttl_tracked b - {e}"
    using ok by (cases b) (simp_all add: heapb_Remove_ok(2) wheelb_Remove_def)
  show "ttl_ok ex' (ttl_Fix ex' e b)"
    "ttl_tracked (ttl_Fix ex' e b) = (if ex' e = 0 then ttl_tracked b - {e} else insert e (ttl_tracked b))"
    if ch: "\<And>x. x \<noteq> e \<Longrightarrow> ex' x = ex x" and t: "time_ok (ex' e)"
  proof -
    have pos: "0 \<le> ex' e" using t by (simp add: time_ok_def)
    have "ttl_ok ex' (ttl_Fix ex' e b) \<and> ttl_tracked (ttl_Fix ex' e b) =
        (if ex' e = 0 then ttl_tracked b - {e} else insert e (ttl_tracked b))"
    proof (cases b)
      case (TtlHeap h)
      then have "heap_ok ex h" using ok by simp
      from heapb_Fix_ok[OF this ch pos] show ?thesis unfolding TtlHeap by simp
    next
      case (TtlWheel w)
      then have "wheelb_ok ex w" using ok by simp
      from wheelb_Fix_ok[OF this ch t] show ?thesis unfolding TtlWheel by simp
    qed
    then show "ttl_ok ex' (ttl_Fix ex' e b)" "ttl_tracked (ttl_Fix ex' e b) =
        (if ex' e = 0 then ttl_tracked b - {e} else insert e (ttl_tracked b))" by blast+
  qed
  show "ttl_ok ex b'" "distinct xs" "set xs \<subseteq> ttl_tracked b \<and> ttl_tracked b' = ttl_tracked b - set xs"
    "\<And>e. e \<in> set xs \<Longrightarrow> ex e \<le> now" if t: "time_ok now" and r: "ttl_Sweep ex now b = (xs, b')"
  proof -
    have "ttl_ok ex b' \<and> distinct xs \<and> set xs \<subseteq> ttl_tracked b \<and> ttl_tracked b' = ttl_tracked b - set xs \<and>
        (\<forall>e \<in> set xs. ex e \<le> now)"
    proof (cases b)
      case (TtlHeap h)
      then obtain h' where h: "heapb_Sweep ex now h = (xs, h')" "b' = TtlHeap h'" "heap_ok ex h"
        using r ok by (cases "heapb_Sweep ex now h") auto
      from heapb_Sweep_facts[OF h(3,1)] show ?thesis unfolding TtlHeap h(2) by simp
    next
      case (TtlWheel w)
      then obtain w' where w: "wheelb_Sweep now w = (xs, w')" "b' = TtlWheel w'" "wheelb_ok ex w"
        using r ok by (cases "wheelb_Sweep now w") auto
      from wheelb_Sweep_ok[OF w(3) t w(1)] show ?thesis unfolding TtlWheel w(2) by simp
    qed
    then show "ttl_ok ex b'" "distinct xs" "set xs \<subseteq> ttl_tracked b \<and> ttl_tracked b' = ttl_tracked b - set xs"
      "\<And>e. e \<in> set xs \<Longrightarrow> ex e \<le> now" by blast+
  qed
  show "ttl_ok ex' (ttl_Reset b)"
  proof (cases b)
    case (TtlHeap h)
    then show ?thesis using ok heap_reset_ok(1)[of ex h ex'] by simp
  next
    case (TtlWheel w)
    then show ?thesis
      using ok wheel_Reset_ok(1)[of "wb_wheel w"] wheel_Reset_ok(2)[of "wb_wheel w"]
      by (simp add: wheelb_ok_def wheelb_Reset_def wheel_Reset_frame)
  qed
  show "ttl_tracked (ttl_Reset b) = {}"
    by (cases b) (simp_all add: heapb_Reset_def wheelb_Reset_def)
qed

end
