(* ===== verification/Options.thy ===== *)
theory Options
  imports Prelude
begin

section \<open>Rounding up to a power of two\<close>

text \<open>
  The loop of \<open>nextPowerOfTwo\<close> doubles a 64-bit \<open>int\<close>. For an argument above \<open>2 ^ 62\<close> the doubling
  overflows to a negative number and then to 0, where it stays: the loop never ends. Not returning
  is the value \<^const>\<open>None\<close>.
\<close>

partial_function (option) powUp :: "int \<Rightarrow> int \<Rightarrow> int option" where
  "powUp p n = (if p < n then powUp (wrap64 (p * 2)) n else Some p)"

definition nextPowerOfTwo :: "int \<Rightarrow> int option" where
  "nextPowerOfTwo n = (if n \<le> 1 then Some 1 else powUp 1 n)"

lemma powUp_pow:
  assumes "2 ^ a < n" and "n \<le> 2 ^ 62"
  shows "\<exists>b. a < b \<and> b \<le> 62 \<and> powUp (2 ^ a) n = Some (2 ^ b) \<and> 2 ^ (b - 1) < n \<and> n \<le> 2 ^ b"
  using assms
proof (induction "62 - a" arbitrary: a rule: less_induct)
  case less
  have "(2 :: int) ^ a < 2 ^ 62" using less.prems by linarith
  then have a: "a < 62" by (rule power_less_imp_less_exp [rotated]) simp
  have "(2 :: int) ^ Suc a \<le> 2 ^ 62" using a by (intro power_increasing) auto
  then have w: "wrap64 (2 ^ a * 2) = 2 ^ Suc a"
    by (subst wrap64_id) (auto intro: order_trans [of _ 0])
  have step: "powUp (2 ^ a) n = powUp (2 ^ Suc a) n"
    using less.prems(1) by (subst powUp.simps) (simp only: w if_True)
  show ?case
  proof (cases "2 ^ Suc a < n")
    case True
    have "62 - Suc a < 62 - a" using a by linarith
    from less.hyps [OF this True less.prems(2)] obtain b
      where "Suc a < b" "b \<le> 62" "powUp (2 ^ Suc a) n = Some (2 ^ b)" "2 ^ (b - 1) < n" "n \<le> 2 ^ b"
      by blast
    then show ?thesis using step by (intro exI [of _ b]) simp
  next
    case False
    then have "powUp (2 ^ Suc a) n = Some (2 ^ Suc a)" by (subst powUp.simps) simp
    then show ?thesis using step a False less.prems(1) by (intro exI [of _ "Suc a"]) simp
  qed
qed

lemma nextPowerOfTwo_pow:
  assumes "n \<le> 2 ^ 62"
  shows "\<exists>b. b \<le> 62 \<and> nextPowerOfTwo n = Some (2 ^ b) \<and> n \<le> 2 ^ b \<and> (b = 0 \<or> 2 ^ (b - 1) < n)"
proof (cases "n \<le> 1")
  case True
  then show ?thesis by (intro exI [of _ 0]) (simp add: nextPowerOfTwo_def)
next
  case False
  then obtain b where "b \<le> 62" "powUp 1 n = Some (2 ^ b)" "2 ^ (b - 1) < n" "n \<le> 2 ^ b"
    using powUp_pow [of 0 n] assms by auto
  then show ?thesis using False by (intro exI [of _ b]) (simp add: nextPowerOfTwo_def)
qed

lemma powUp_stuck: "powUp p n = Some y \<Longrightarrow> p = 0 \<longrightarrow> n \<le> 0"
  by (erule powUp.raw_induct [rotated]) (auto simp: wrap64_def split: if_splits)

lemma powUp_diverges:
  assumes "2 ^ 62 < n" and "n < 2 ^ 63" and "a \<le> 62"
  shows "powUp (2 ^ a) n = None"
  using assms(3)
proof (induction "62 - a" arbitrary: a rule: less_induct)
  case less
  have le: "(2 :: int) ^ a \<le> 2 ^ 62" using less.prems by (intro power_increasing) auto
  then have lt: "(2 :: int) ^ a < n" using assms(1) by linarith
  show ?case
  proof (cases "a = 62")
    case True
    have "powUp (2 ^ a) n = powUp (- (2 ^ 63)) n"
      using lt by (subst powUp.simps) (simp add: True wrap64_def)
    also have "\<dots> = powUp 0 n"
      using assms(1) by (subst powUp.simps) (simp add: wrap64_def)
    also have "\<dots> = None"
      using powUp_stuck [of 0 n] assms(1) by (cases "powUp 0 n") auto
    finally show ?thesis .
  next
    case False
    then have a: "a < 62" using less.prems by simp
    have "(2 :: int) ^ Suc a \<le> 2 ^ 62" using a by (intro power_increasing) auto
    then have w: "wrap64 (2 ^ a * 2) = 2 ^ Suc a"
      by (subst wrap64_id) (auto intro: order_trans [of _ 0])
    have "powUp (2 ^ a) n = powUp (2 ^ Suc a) n"
      using lt by (subst powUp.simps) (simp only: w if_True)
    then show ?thesis using less.hyps [of "Suc a"] a by simp
  qed
qed

text \<open>C27: \<open>nextPowerOfTwo\<close> returns the least power of two that is at least \<open>n\<close> for every \<open>n\<close> up to
  \<open>2 ^ 62\<close>, and for every larger \<open>int\<close> its loop never returns: the doubling overflows and sticks
  at 0.\<close>

theorem nextPowerOfTwo_spec:
  assumes "n < 2 ^ 63"
  shows "if n \<le> 2 ^ 62
    then \<exists>b. nextPowerOfTwo n = Some (2 ^ b) \<and> n \<le> 2 ^ b \<and> (b = 0 \<or> 2 ^ (b - 1) < n)
    else nextPowerOfTwo n = None"
proof (cases "n \<le> 2 ^ 62")
  case True
  then show ?thesis using nextPowerOfTwo_pow [of n] by auto
next
  case False
  then show ?thesis using powUp_diverges [of n 0] assms by (simp add: nextPowerOfTwo_def)
qed

theorem nextPowerOfTwo_spec_witness:
  "nextPowerOfTwo (2 ^ 62 + 1) = None \<and> nextPowerOfTwo 100 = Some 128"
proof -
  have "nextPowerOfTwo (2 ^ 62 + 1) = None" using nextPowerOfTwo_spec [of "2 ^ 62 + 1"] by simp
  moreover have "nextPowerOfTwo 100 = Some 128"
    by (simp add: nextPowerOfTwo_def powUp.simps wrap64_def)
  ultimately show ?thesis by simp
qed

end
