(* ===== verification/Flat_Store.thy ===== *)
theory Flat_Store
  imports Options "HOL-Library.Word"
begin

text \<open>
  The flat storage of a shard (flatstore.go): an open-addressing table with linear probing and
  tombstones, whose slot count is a power of two. A slot is empty, occupied by a key with its
  entry, or a tombstone; keys and values of slots that are not occupied are the zero values and are
  never read.

  The probe starts at the slot Fibonacci hashing gives, walks cyclically, and stops at the key, at
  an empty slot, or when it is back at the start. The loop is modelled with the number of slots as
  fuel, and \<open>flat_loop_fuel\<close> shows that more fuel changes nothing: the walk always ends by itself.

  The lemmas show that the table implements a finite map: the abstraction \<open>flat_map\<close> is updated
  by \<open>set\<close> and \<open>del\<close> like a map, through every growth and compaction.
\<close>

unbundle bit_operations_syntax

datatype ('k, 'e) flatSlot = SlotEmpty | SlotOccupied 'k 'e | SlotTombstone

record ('k, 'e) flatStore =
  fs_hasher :: "'k \<Rightarrow> 64 word"
  fs_slots :: "('k, 'e) flatSlot list"
  fs_occupied :: int
  fs_tombstones :: int
  compactCount :: nat

definition flatStoreInitialCap :: int where
  "flatStoreInitialCap = 16"

definition leadingZeros64 :: "64 word \<Rightarrow> nat" where
  "leadingZeros64 w = length (takeWhile Not (map (bit w) (rev [0..<64])))"

definition flat_start :: "('k \<Rightarrow> 64 word) \<Rightarrow> nat \<Rightarrow> 'k \<Rightarrow> nat" where
  "flat_start hasher n key =
     unat (drop_bit (leadingZeros64 (of_nat (n - 1))) (hasher key * 0x9E3779B97F4A7C15))"

definition flat_next :: "nat \<Rightarrow> nat \<Rightarrow> nat" where
  "flat_next n i = (i + 1) AND (n - 1)"

fun flat_loop :: "nat \<Rightarrow> 'k \<Rightarrow> ('k, 'e) flatSlot list \<Rightarrow> nat \<Rightarrow> nat \<Rightarrow> int \<Rightarrow> int \<times> bool" where
  "flat_loop 0 key slots start i insertIdx = (insertIdx, False)"
| "flat_loop (Suc fuel) key slots start i insertIdx =
     (case slots ! i of
        SlotEmpty \<Rightarrow> (if insertIdx = - 1 then int i else insertIdx, False)
      | SlotTombstone \<Rightarrow>
          let insertIdx = (if insertIdx = - 1 then int i else insertIdx);
              i = flat_next (length slots) i
          in if i = start then (insertIdx, False) else flat_loop fuel key slots start i insertIdx
      | SlotOccupied k _ \<Rightarrow>
          if k = key then (int i, True)
          else let i = flat_next (length slots) i
               in if i = start then (insertIdx, False)
                  else flat_loop fuel key slots start i insertIdx)"

definition flat_probe :: "'k \<Rightarrow> ('k, 'e) flatStore \<Rightarrow> int \<times> bool" where
  "flat_probe key s =
     (let slots = fs_slots s; start = flat_start (fs_hasher s) (length slots) key
      in flat_loop (length slots) key slots start start (- 1))"

definition flat_get :: "'k \<Rightarrow> ('k, 'e) flatStore \<Rightarrow> 'e option" where
  "flat_get key s =
     (case flat_probe key s of (idx, found) \<Rightarrow>
        if \<not> found then None
        else case fs_slots s ! nat idx of SlotOccupied _ e \<Rightarrow> Some e | _ \<Rightarrow> None)"

definition flat_shouldGrowBeforeInsert :: "('k, 'e) flatStore \<Rightarrow> bool" where
  "flat_shouldGrowBeforeInsert s =
     ((fs_occupied s + fs_tombstones s) * 4 \<ge> 3 * int (length (fs_slots s)))"

definition flat_shouldCompactAfterDelete :: "('k, 'e) flatStore \<Rightarrow> bool" where
  "flat_shouldCompactAfterDelete s =
     (if fs_tombstones s = 0 then False else fs_tombstones s * 2 \<ge> 1 * int (length (fs_slots s)))"

definition flat_nextRebuildCap :: "('k, 'e) flatStore \<Rightarrow> nat" where
  "flat_nextRebuildCap s =
     (let cur = length (fs_slots s) in if fs_occupied s * 4 \<ge> 3 * int cur then cur * 2 else cur)"

definition flat_put :: "'k \<Rightarrow> 'e \<Rightarrow> ('k, 'e) flatStore \<Rightarrow> ('k, 'e) flatStore" where
  "flat_put key e s =
     (case flat_probe key s of (idx, _) \<Rightarrow>
        s\<lparr>fs_slots := (fs_slots s)[nat idx := SlotOccupied key e], fs_occupied := fs_occupied s + 1\<rparr>)"

fun flat_reinsert :: "('k, 'e) flatSlot list \<Rightarrow> ('k, 'e) flatStore \<Rightarrow> ('k, 'e) flatStore" where
  "flat_reinsert [] s = s"
| "flat_reinsert (SlotOccupied k e # old) s = flat_reinsert old (flat_put k e s)"
| "flat_reinsert (_ # old) s = flat_reinsert old s"

definition flat_rebuild :: "nat \<Rightarrow> ('k, 'e) flatStore \<Rightarrow> ('k, 'e) flatStore" where
  "flat_rebuild newCap s =
     (let old = fs_slots s;
          s = s\<lparr>fs_slots := replicate newCap SlotEmpty, fs_occupied := 0, fs_tombstones := 0\<rparr>;
          s = flat_reinsert old s
      in s\<lparr>compactCount := compactCount s + 1\<rparr>)"

definition flat_write :: "int \<Rightarrow> 'k \<Rightarrow> 'e \<Rightarrow> ('k, 'e) flatStore \<Rightarrow> ('k, 'e) flatStore" where
  "flat_write idx key e s =
     (let put = s\<lparr>fs_slots := (fs_slots s)[nat idx := SlotOccupied key e]\<rparr>
      in case fs_slots s ! nat idx of
           SlotEmpty \<Rightarrow> put\<lparr>fs_occupied := fs_occupied s + 1\<rparr>
         | SlotTombstone \<Rightarrow>
             put\<lparr>fs_occupied := fs_occupied s + 1, fs_tombstones := fs_tombstones s - 1\<rparr>
         | SlotOccupied k _ \<Rightarrow> s\<lparr>fs_slots := (fs_slots s)[nat idx := SlotOccupied k e]\<rparr>)"

definition flat_set :: "'k \<Rightarrow> 'e \<Rightarrow> ('k, 'e) flatStore \<Rightarrow> ('k, 'e) flatStore" where
  "flat_set key e s =
     (case flat_probe key s of (idx, found) \<Rightarrow>
        if found then s\<lparr>fs_slots := (fs_slots s)[nat idx := SlotOccupied key e]\<rparr>
        else if idx < 0 \<or> flat_shouldGrowBeforeInsert s
        then let s = flat_rebuild (flat_nextRebuildCap s) s
             in flat_write (fst (flat_probe key s)) key e s
        else flat_write idx key e s)"

definition flat_del :: "'k \<Rightarrow> ('k, 'e) flatStore \<Rightarrow> bool \<times> ('k, 'e) flatStore" where
  "flat_del key s =
     (case flat_probe key s of (idx, found) \<Rightarrow>
        if \<not> found then (False, s)
        else let s = s\<lparr>fs_slots := (fs_slots s)[nat idx := SlotTombstone],
                       fs_occupied := fs_occupied s - 1, fs_tombstones := fs_tombstones s + 1\<rparr>;
                 s = (if flat_shouldCompactAfterDelete s then flat_rebuild (flat_nextRebuildCap s) s
                      else s)
             in (True, s))"

definition flat_length :: "('k, 'e) flatStore \<Rightarrow> int" where
  "flat_length s = fs_occupied s"

definition flat_clearAll :: "('k, 'e) flatStore \<Rightarrow> ('k, 'e) flatStore" where
  "flat_clearAll s =
     s\<lparr>fs_slots := map (\<lambda>_. SlotEmpty) (fs_slots s), fs_occupied := 0, fs_tombstones := 0\<rparr>"

text \<open>The entries \<open>each\<close> visits, in slot order.\<close>

fun slot_entries :: "('k, 'e) flatSlot list \<Rightarrow> ('k \<times> 'e) list" where
  "slot_entries [] = []"
| "slot_entries (SlotOccupied k e # sl) = (k, e) # slot_entries sl"
| "slot_entries (_ # sl) = slot_entries sl"

definition flat_each :: "('k, 'e) flatStore \<Rightarrow> ('k \<times> 'e) list" where
  "flat_each s = slot_entries (fs_slots s)"

definition newFlatStore :: "('k \<Rightarrow> 64 word) \<Rightarrow> int \<Rightarrow> ('k, 'e) flatStore option" where
  "newFlatStore hasher initialCap =
     (let initialCap = (if initialCap < flatStoreInitialCap then flatStoreInitialCap else initialCap)
      in map_option (\<lambda>slotCount.
           \<lparr>fs_hasher = hasher, fs_slots = replicate (nat slotCount) SlotEmpty,
            fs_occupied = 0, fs_tombstones = 0, compactCount = 0\<rparr>)
         (nextPowerOfTwo initialCap))"

section \<open>The start slot and the cyclic walk\<close>

lemma takeWhile_none: "(\<And>x. x \<in> set xs \<Longrightarrow> \<not> P x) \<Longrightarrow> takeWhile P xs = []"
  by (cases xs) auto

lemma leadingZeros64_mask: "leadingZeros64 (mask b) = 64 - b"
proof -
  let ?m = "min b 64"
  let ?f = "bit (mask b :: 64 word)"
  have "[0..<64] = [0..<?m] @ [?m..<64]"
    using upt_add_eq_append [of 0 ?m "64 - ?m"] by simp
  then have "map ?f (rev [0..<64]) = map ?f (rev [?m..<64]) @ map ?f (rev [0..<?m])"
    by (metis map_append rev_append)
  moreover have "takeWhile Not (map ?f (rev [?m..<64]) @ map ?f (rev [0..<?m]))
      = map ?f (rev [?m..<64]) @ takeWhile Not (map ?f (rev [0..<?m]))"
    by (rule takeWhile_append2) (auto simp: bit_mask_iff)
  moreover have "takeWhile Not (map ?f (rev [0..<?m])) = []"
    by (rule takeWhile_none) (auto simp: bit_mask_iff)
  ultimately show ?thesis unfolding leadingZeros64_def by simp
qed

lemma flat_start_lt:
  assumes "n = 2 ^ b"
  shows "flat_start h n k < n"
proof -
  let ?w = "h k * 0x9E3779B97F4A7C15"
  have "(of_nat (n - 1) :: 64 word) = mask b"
    by (simp add: assms mask_eq_exp_minus_1 of_nat_diff)
  then have st: "flat_start h n k = unat (drop_bit (64 - b) ?w)"
    by (simp add: flat_start_def leadingZeros64_mask)
  show ?thesis
  proof (cases "b \<le> 64")
    case True
    have "unat ?w < 2 ^ (b + (64 - b))" using True unsigned_less [of ?w] by simp
    then have "unat ?w div 2 ^ (64 - b) < 2 ^ b"
      by (simp add: power_add less_mult_imp_div_less)
    then have "flat_start h n k < 2 ^ b" by (subst st, subst unat_drop_bit_eq, subst drop_bit_eq_div) assumption
    then show ?thesis using assms by simp
  next
    case False
    then have "(2 :: nat) ^ 64 \<le> 2 ^ b" by (intro power_increasing) auto
    moreover have "unat (drop_bit (64 - b) ?w) < 2 ^ 64" using unsigned_less [of "drop_bit (64 - b) ?w"] by simp
    ultimately show ?thesis using assms st by linarith
  qed
qed

lemma flat_next_mod:
  assumes "n = 2 ^ b"
  shows "flat_next n i = (i + 1) mod n"
proof -
  have "flat_next n i = (i + 1) AND mask b"
    unfolding flat_next_def assms mask_eq_exp_minus_1 ..
  then show ?thesis unfolding assms by (simp only: flip: take_bit_eq_mask take_bit_eq_mod)
qed

text \<open>The walk as a scan of the slots in probe order; \<open>walk_from d\<close> is what is left after \<open>d\<close> steps.\<close>

definition walk_from :: "('k, 'e) flatSlot list \<Rightarrow> nat \<Rightarrow> nat \<Rightarrow> (nat \<times> ('k, 'e) flatSlot) list" where
  "walk_from slots start d =
     map (\<lambda>d. ((start + d) mod length slots, slots ! ((start + d) mod length slots))) [d..<length slots]"

fun scan :: "'k \<Rightarrow> (nat \<times> ('k, 'e) flatSlot) list \<Rightarrow> int \<Rightarrow> int \<times> bool" where
  "scan key [] insertIdx = (insertIdx, False)"
| "scan key ((i, SlotEmpty) # w) insertIdx = (if insertIdx = - 1 then int i else insertIdx, False)"
| "scan key ((i, SlotTombstone) # w) insertIdx = scan key w (if insertIdx = - 1 then int i else insertIdx)"
| "scan key ((i, SlotOccupied k _) # w) insertIdx = (if k = key then (int i, True) else scan key w insertIdx)"

lemma walk_from_Cons:
  "d < length slots \<Longrightarrow> walk_from slots start d =
     ((start + d) mod length slots, slots ! ((start + d) mod length slots)) # walk_from slots start (Suc d)"
  by (simp add: walk_from_def upt_conv_Cons)

lemma walk_from_end [simp]: "walk_from slots start (length slots) = []"
  by (simp add: walk_from_def)

lemma walk_wraps:
  assumes "start < n" and "d < n"
  shows "(start + Suc d) mod n = start \<longleftrightarrow> Suc d = (n :: nat)"
proof (cases "start + Suc d < n")
  case True
  then show ?thesis by auto
next
  case False
  then have "(start + Suc d) mod n = start + Suc d - n" using assms by (simp add: mod_if)
  then show ?thesis using False assms by auto
qed

lemma flat_loop_scan:
  assumes "length slots = 2 ^ b" and "start < length slots" and "d < length slots"
    and "length slots - d \<le> fuel"
  shows "flat_loop fuel key slots start ((start + d) mod length slots) ins
    = scan key (walk_from slots start d) ins"
  using assms(3,4)
proof (induction fuel arbitrary: d ins)
  case (Suc fuel)
  let ?n = "length slots"
  have "flat_next ?n ((start + d) mod ?n) = ((start + d) mod ?n + 1) mod ?n"
    by (rule flat_next_mod [OF assms(1)])
  then have nx: "flat_next ?n ((start + d) mod ?n) = (start + Suc d) mod ?n"
    by (simp add: mod_Suc_eq)
  have rest: "(if (start + Suc d) mod ?n = start then (j, False)
      else flat_loop fuel key slots start ((start + Suc d) mod ?n) j)
      = scan key (walk_from slots start (Suc d)) j" for j
  proof (cases "Suc d = ?n")
    case True
    then have "(start + Suc d) mod ?n = start"
      using walk_wraps [OF assms(2) Suc.prems(1)] by blast
    then show ?thesis using True walk_from_end [of slots start] by simp
  next
    case False
    then have "(start + Suc d) mod ?n \<noteq> start"
      using walk_wraps [OF assms(2) Suc.prems(1)] by blast
    moreover have "Suc d < ?n" and "?n - Suc d \<le> fuel" using False Suc.prems by linarith+
    ultimately show ?thesis using Suc.IH [of "Suc d" j] by simp
  qed
  show ?case
    unfolding walk_from_Cons [OF Suc.prems(1)] flat_loop.simps Let_def nx rest
    by (simp split: flatSlot.split)
qed simp

text \<open>The walk ends by itself: any fuel from the number of slots on gives the same result.\<close>

lemma flat_loop_fuel:
  assumes "length slots = 2 ^ b" and "start < length slots" and "length slots \<le> fuel"
  shows "flat_loop fuel key slots start start ins = flat_loop (length slots) key slots start start ins"
  using flat_loop_scan [OF assms(1,2), of 0 fuel] flat_loop_scan [OF assms(1,2), of 0 "length slots"] assms
  by simp

definition is_key :: "'k \<Rightarrow> ('k, 'e) flatSlot \<Rightarrow> bool" where
  "is_key key x = (case x of SlotOccupied k _ \<Rightarrow> k = key | _ \<Rightarrow> False)"

definition is_occ :: "('k, 'e) flatSlot \<Rightarrow> bool" where
  "is_occ x = (case x of SlotOccupied _ _ \<Rightarrow> True | _ \<Rightarrow> False)"

lemma slot_kind_simps [simp]:
  "is_key key SlotEmpty = False" "is_key key SlotTombstone = False"
  "is_key key (SlotOccupied k e) = (k = key)"
  "is_occ SlotEmpty = False" "is_occ SlotTombstone = False" "is_occ (SlotOccupied k e) = True"
  by (simp_all add: is_key_def is_occ_def)

lemma scan_hit:
  "\<forall>x \<in> set w. snd x \<noteq> SlotEmpty \<and> \<not> is_key key (snd x)
    \<Longrightarrow> scan key (w @ (j, SlotOccupied key e) # w') ins = (int j, True)"
proof (induction w arbitrary: ins)
  case (Cons x w)
  then show ?case by (cases x; cases "snd x") auto
qed simp

lemma scan_miss_kept:
  "\<forall>x \<in> set w. \<not> is_key key (snd x) \<Longrightarrow> 0 \<le> ins \<Longrightarrow> scan key w ins = (ins, False)"
proof (induction w)
  case (Cons x w)
  then show ?case by (cases x; cases "snd x") auto
qed simp

lemma scan_miss:
  "\<forall>x \<in> set w. is_occ (snd x) \<Longrightarrow> \<not> is_occ y
    \<Longrightarrow> \<forall>x \<in> set (w @ (j, y) # w'). \<not> is_key key (snd x)
    \<Longrightarrow> scan key (w @ (j, y) # w') (- 1) = (int j, False)"
proof (induction w)
  case Nil
  then show ?case by (cases y) (auto simp: scan_miss_kept)
next
  case (Cons x w)
  then show ?case by (cases x; cases "snd x") auto
qed

section \<open>The table invariant\<close>

text \<open>\<open>reach\<close>: the position \<open>p\<close> lies on the probe walk of \<open>k\<close> with no empty slot before it.\<close>

definition reach :: "('k \<Rightarrow> 64 word) \<Rightarrow> ('k, 'e) flatSlot list \<Rightarrow> 'k \<Rightarrow> nat \<Rightarrow> bool" where
  "reach h slots k p \<longleftrightarrow> (\<exists>d < length slots. p = (flat_start h (length slots) k + d) mod length slots \<and>
     (\<forall>d' < d. slots ! ((flat_start h (length slots) k + d') mod length slots) \<noteq> SlotEmpty))"

definition tab_ok :: "('k \<Rightarrow> 64 word) \<Rightarrow> ('k, 'e) flatSlot list \<Rightarrow> bool" where
  "tab_ok h slots \<longleftrightarrow> (\<exists>b. 4 \<le> b \<and> length slots = 2 ^ b) \<and>
     (\<forall>p < length slots. \<forall>k e. slots ! p = SlotOccupied k e \<longrightarrow> reach h slots k p) \<and>
     (\<forall>p < length slots. \<forall>q < length slots. \<forall>k. is_key k (slots ! p) \<longrightarrow> is_key k (slots ! q) \<longrightarrow> p = q)"

definition flat_ok :: "('k, 'e) flatStore \<Rightarrow> bool" where
  "flat_ok s \<longleftrightarrow> tab_ok (fs_hasher s) (fs_slots s) \<and>
     fs_occupied s = int (length (filter is_occ (fs_slots s))) \<and>
     fs_tombstones s = int (length (filter (\<lambda>x. x = SlotTombstone) (fs_slots s))) \<and>
     fs_occupied s + fs_tombstones s < int (length (fs_slots s))"

definition flat_map :: "('k, 'e) flatStore \<Rightarrow> 'k \<Rightarrow> 'e option" where
  "flat_map s = map_of (flat_each s)"

lemma tab_okD:
  assumes "tab_ok h slots"
  shows "\<exists>b. length slots = 2 ^ b" "16 \<le> length slots"
    "\<And>p k e. p < length slots \<Longrightarrow> slots ! p = SlotOccupied k e \<Longrightarrow> reach h slots k p"
    "\<And>p q k. p < length slots \<Longrightarrow> q < length slots \<Longrightarrow> is_key k (slots ! p)
      \<Longrightarrow> is_key k (slots ! q) \<Longrightarrow> p = q"
proof -
  obtain b where b: "4 \<le> b" "length slots = 2 ^ b" using assms by (auto simp: tab_ok_def)
  then show "\<exists>b. length slots = 2 ^ b" by blast
  have "(2 :: nat) ^ 4 \<le> 2 ^ b" using b(1) by (intro power_increasing) auto
  then show "16 \<le> length slots" using b(2) by simp
qed (use assms in \<open>auto simp: tab_ok_def\<close>)

lemma set_slot_entries [simp]: "(k, e) \<in> set (slot_entries slots) \<longleftrightarrow> SlotOccupied k e \<in> set slots"
  by (induction slots rule: slot_entries.induct) auto

lemma length_slot_entries [simp]: "length (slot_entries slots) = length (filter is_occ slots)"
  by (induction slots rule: slot_entries.induct) auto

lemma map_of_slot_entries:
  assumes "tab_ok h slots"
  shows "map_of (slot_entries slots) k = Some e \<longleftrightarrow> (\<exists>p < length slots. slots ! p = SlotOccupied k e)"
proof
  assume "map_of (slot_entries slots) k = Some e"
  then show "\<exists>p < length slots. slots ! p = SlotOccupied k e"
    by (metis in_set_conv_nth map_of_SomeD set_slot_entries)
next
  assume "\<exists>p < length slots. slots ! p = SlotOccupied k e"
  then obtain p where p: "p < length slots" "slots ! p = SlotOccupied k e" by blast
  then have "(k, e) \<in> set (slot_entries slots)" by (metis nth_mem set_slot_entries)
  then obtain e' where e': "map_of (slot_entries slots) k = Some e'"
    by (meson weak_map_of_SomeI)
  then obtain q where q: "q < length slots" "slots ! q = SlotOccupied k e'"
    by (metis in_set_conv_nth map_of_SomeD set_slot_entries)
  then have "p = q" using p tab_okD(4) [OF assms, of p q k] by simp
  then show "map_of (slot_entries slots) k = Some e" using p q e' by simp
qed

lemma flat_map_iff:
  "flat_ok s \<Longrightarrow> flat_map s k = Some e \<longleftrightarrow>
     (\<exists>p < length (fs_slots s). fs_slots s ! p = SlotOccupied k e)"
  unfolding flat_map_def flat_each_def flat_ok_def by (blast intro: map_of_slot_entries [THEN iffD1]
      map_of_slot_entries [THEN iffD2])

lemma walk_covers:
  assumes "start < n" and "p < (n :: nat)"
  shows "\<exists>d < n. p = (start + d) mod n"
proof (cases "start \<le> p")
  case True
  then show ?thesis using assms by (intro exI [of _ "p - start"]) auto
next
  case False
  then have "(start + (n + p - start)) mod n = p" using assms by simp
  then show ?thesis using False assms by (intro exI [of _ "n + p - start"]) auto
qed

lemma walk_inj:
  assumes "d' < d" and "d < (n :: nat)"
  shows "(start + d') mod n \<noteq> (start + d) mod n"
proof
  assume "(start + d') mod n = (start + d) mod n"
  then have "n dvd (start + d) - (start + d')"
    using mod_eq_dvd_iff_nat [of "start + d'" "start + d" n] assms(1) by simp
  then show False using assms by (auto dest: dvd_imp_le)
qed

lemma walk_from_split:
  assumes "d < length slots"
  shows "walk_from slots start 0 =
    map (\<lambda>d. ((start + d) mod length slots, slots ! ((start + d) mod length slots))) [0..<d]
    @ ((start + d) mod length slots, slots ! ((start + d) mod length slots))
    # walk_from slots start (Suc d)"
proof -
  have "[0..<length slots] = [0..<d] @ d # [Suc d..<length slots]"
    using assms upt_add_eq_append [of 0 d "length slots - d"] by (simp add: upt_conv_Cons)
  then show ?thesis by (simp add: walk_from_def)
qed

section \<open>The probe\<close>

definition tab_probe :: "('k \<Rightarrow> 64 word) \<Rightarrow> ('k, 'e) flatSlot list \<Rightarrow> 'k \<Rightarrow> int \<times> bool" where
  "tab_probe h slots key = scan key (walk_from slots (flat_start h (length slots) key) 0) (- 1)"

lemma flat_probe_tab:
  assumes "length (fs_slots s) = 2 ^ b"
  shows "flat_probe key s = tab_probe (fs_hasher s) (fs_slots s) key"
proof -
  let ?st = "flat_start (fs_hasher s) (length (fs_slots s)) key"
  have "?st < length (fs_slots s)" by (rule flat_start_lt [OF assms])
  moreover have "0 < length (fs_slots s)" using assms by simp
  ultimately show ?thesis
    using flat_loop_scan [OF assms, of ?st 0 "length (fs_slots s)" key "- 1"]
    by (simp add: flat_probe_def Let_def tab_probe_def)
qed

lemma tab_probe_hit:
  assumes "tab_ok h slots" and "p < length slots" and "slots ! p = SlotOccupied key e"
  shows "tab_probe h slots key = (int p, True)"
proof -
  let ?st = "flat_start h (length slots) key"
  let ?pos = "\<lambda>d. (?st + d) mod length slots"
  obtain d where d: "d < length slots" "p = ?pos d" "\<forall>d' < d. slots ! ?pos d' \<noteq> SlotEmpty"
    using tab_okD(3) [OF assms(1-3)] by (auto simp: reach_def)
  have "\<not> is_key key (slots ! ?pos d')" if "d' < d" for d'
  proof
    assume k: "is_key key (slots ! ?pos d')"
    have n: "0 < length slots" using d(1) by linarith
    then have "?pos d' = ?pos d"
      using tab_okD(4) [OF assms(1), of "?pos d'" "?pos d" key] k assms(3) d(2) by simp
    then show False using walk_inj [OF that d(1), of ?st] by simp
  qed
  then show ?thesis
    unfolding tab_probe_def walk_from_split [OF d(1)]
    using scan_hit [of "map (\<lambda>d. (?pos d, slots ! ?pos d)) [0..<d]" key "?pos d" e] d(2,3) assms(3)
    by simp
qed

lemma tab_probe_miss:
  assumes "tab_ok h slots" and absent: "\<forall>p < length slots. \<not> is_key key (slots ! p)"
    and "q < length slots" and "\<not> is_occ (slots ! q)"
  shows "\<exists>p < length slots. tab_probe h slots key = (int p, False) \<and> \<not> is_occ (slots ! p) \<and>
    reach h slots key p"
proof -
  let ?st = "flat_start h (length slots) key"
  let ?pos = "\<lambda>d. (?st + d) mod length slots"
  obtain b where b: "length slots = 2 ^ b" using tab_okD(1) [OF assms(1)] by blast
  have n: "0 < length slots" using assms(3) by linarith
  obtain dq where dq: "dq < length slots" "q = ?pos dq"
    using walk_covers [OF flat_start_lt [OF b, of h key] assms(3)] by auto
  define d where "d = (LEAST d. \<not> is_occ (slots ! ?pos d))"
  have "\<not> is_occ (slots ! ?pos dq)" using assms(4) unfolding dq(2) .
  then have d: "d < length slots" "\<not> is_occ (slots ! ?pos d)" "\<forall>d' < d. is_occ (slots ! ?pos d')"
    using dq(1) LeastI [of "\<lambda>d. \<not> is_occ (slots ! ?pos d)" dq] Least_le [of "\<lambda>d. \<not> is_occ (slots ! ?pos d)" dq]
      not_less_Least [of _ "\<lambda>d. \<not> is_occ (slots ! ?pos d)"]
    unfolding d_def by (auto intro: le_less_trans)
  have "scan key (walk_from slots ?st 0) (- 1) = (int (?pos d), False)"
    unfolding walk_from_split [OF d(1)]
    by (rule scan_miss) (use d absent n in \<open>auto simp: walk_from_def\<close>)
  moreover have "reach h slots key (?pos d)"
    unfolding reach_def using d by (metis slot_kind_simps(4))
  ultimately show ?thesis using n d(2) by (intro exI [of _ "?pos d"]) (simp add: tab_probe_def)
qed

section \<open>Updating one slot\<close>

lemma filter_update:
  assumes "p < length xs"
  shows "int (length (filter P (xs[p := x]))) =
    int (length (filter P xs)) - (if P (xs ! p) then 1 else 0) + (if P x then 1 else 0)"
proof -
  have "xs = take p xs @ xs ! p # drop (Suc p) xs" using assms by (rule id_take_nth_drop)
  then have "filter P xs = filter P (take p xs) @ filter P [xs ! p] @ filter P (drop (Suc p) xs)"
    by (metis append_Cons append_Nil filter_append)
  then show ?thesis unfolding upd_conv_take_nth_drop [OF assms] by simp
qed

lemma nth_update_ne: "xs ! i \<noteq> E \<Longrightarrow> x \<noteq> E \<Longrightarrow> xs[q := x] ! i \<noteq> E"
  by (cases "q = i"; cases "q < length xs") (simp_all add: list_update_beyond)

lemma reach_update:
  assumes "reach h slots k p" and "x \<noteq> SlotEmpty"
  shows "reach h (slots[q := x]) k p"
proof -
  let ?pos = "\<lambda>d. (flat_start h (length slots) k + d) mod length slots"
  obtain d where d: "d < length slots" "p = ?pos d" "\<forall>d' < d. slots ! ?pos d' \<noteq> SlotEmpty"
    using assms(1) unfolding reach_def by blast
  have "\<forall>d' < d. slots[q := x] ! ?pos d' \<noteq> SlotEmpty"
    using d(3) assms(2) nth_update_ne by metis
  then show ?thesis unfolding reach_def length_list_update using d(1,2) by blast
qed

lemma tab_ok_update:
  assumes "tab_ok h slots" and "p < length slots" and "x \<noteq> SlotEmpty"
    and "\<And>k e. x = SlotOccupied k e \<Longrightarrow> reach h slots k p"
    and "\<And>k q. is_key k x \<Longrightarrow> q < length slots \<Longrightarrow> is_key k (slots ! q) \<Longrightarrow> q = p"
  shows "tab_ok h (slots[p := x])"
  unfolding tab_ok_def
proof (intro conjI allI impI)
  show "\<exists>b \<ge> 4. length (slots[p := x]) = 2 ^ b" using assms(1) by (simp add: tab_ok_def)
next
  fix q k e assume q: "q < length (slots[p := x])" "slots[p := x] ! q = SlotOccupied k e"
  show "reach h (slots[p := x]) k q"
  proof (cases "q = p")
    case True
    then have "x = SlotOccupied k e" using q(2) assms(2) by simp
    then have "reach h slots k p" by (rule assms(4))
    then show ?thesis unfolding True by (rule reach_update [OF _ assms(3)])
  next
    case False
    then have "reach h slots k q" using q by (intro tab_okD(3) [OF assms(1), of q k e]) simp_all
    then show ?thesis by (rule reach_update [OF _ assms(3)])
  qed
next
  fix q r k
  assume "q < length (slots[p := x])" and "r < length (slots[p := x])"
    and "is_key k (slots[p := x] ! q)" and "is_key k (slots[p := x] ! r)"
  then have lt: "q < length slots" "r < length slots"
    and k: "is_key k (if q = p then x else slots ! q)" "is_key k (if r = p then x else slots ! r)"
    using assms(2) by (cases "q = p"; cases "r = p"; simp)+
  show "q = r"
  proof (cases "q = p \<or> r = p")
    case True
    then show ?thesis using lt k assms(5) [of k q] assms(5) [of k r] by (metis (full_types))
  next
    case False
    then show ?thesis using lt k by (intro tab_okD(4) [OF assms(1), of q r k]) simp_all
  qed
qed

lemma option_ext: "(\<And>v. a = Some v \<longleftrightarrow> b = Some v) \<Longrightarrow> a = b"
  by (cases a; cases b) auto

lemma map_of_occupy:
  assumes ok: "tab_ok h slots" "tab_ok h (slots[p := SlotOccupied key e])" and p: "p < length slots"
    and old: "\<And>k. is_key k (slots ! p) \<Longrightarrow> k = key"
  shows "map_of (slot_entries (slots[p := SlotOccupied key e])) = (map_of (slot_entries slots))(key \<mapsto> e)"
proof
  fix k
  show "map_of (slot_entries (slots[p := SlotOccupied key e])) k
      = ((map_of (slot_entries slots))(key \<mapsto> e)) k"
  proof (cases "k = key")
    case True
    then have "map_of (slot_entries (slots[p := SlotOccupied key e])) k = Some e"
      using p by (subst map_of_slot_entries [OF ok(2)]) auto
    then show ?thesis using True by simp
  next
    case False
    have "(slots[p := SlotOccupied key e] ! q = SlotOccupied k v) = (slots ! q = SlotOccupied k v)"
      if "q < length slots" for q v
      using False p old [of k] by (cases "q = p") auto
    then have "map_of (slot_entries (slots[p := SlotOccupied key e])) k = map_of (slot_entries slots) k"
      by (intro option_ext) (auto simp: map_of_slot_entries [OF ok(1)] map_of_slot_entries [OF ok(2)])
    then show ?thesis using False by simp
  qed
qed

lemma map_of_bury:
  assumes ok: "tab_ok h slots" "tab_ok h (slots[p := SlotTombstone])" and p: "p < length slots"
    and old: "slots ! p = SlotOccupied key e"
  shows "map_of (slot_entries (slots[p := SlotTombstone])) = (map_of (slot_entries slots))(key := None)"
proof
  fix k
  have "(slots[p := SlotTombstone] ! q = SlotOccupied k v) = (slots ! q = SlotOccupied k v \<and> k \<noteq> key)"
    if "q < length slots" for q v
    using p old tab_okD(4) [OF ok(1), of q p key] that by (cases "q = p") auto
  then show "map_of (slot_entries (slots[p := SlotTombstone])) k
      = ((map_of (slot_entries slots))(key := None)) k"
    by (intro option_ext) (auto simp: map_of_slot_entries [OF ok(1)] map_of_slot_entries [OF ok(2)])
qed

section \<open>The operations on a well-formed store\<close>

lemma flat_okD:
  assumes "flat_ok s"
  shows "tab_ok (fs_hasher s) (fs_slots s)" "\<exists>b. length (fs_slots s) = 2 ^ b"
    "flat_probe key s = tab_probe (fs_hasher s) (fs_slots s) key"
    "fs_occupied s = int (length (filter is_occ (fs_slots s)))"
    "fs_tombstones s = int (length (filter (\<lambda>x. x = SlotTombstone) (fs_slots s)))"
    "fs_occupied s + fs_tombstones s < int (length (fs_slots s))" "16 \<le> length (fs_slots s)"
proof -
  show t: "tab_ok (fs_hasher s) (fs_slots s)" using assms by (simp add: flat_ok_def)
  then show b: "\<exists>b. length (fs_slots s) = 2 ^ b" by (rule tab_okD(1))
  then show "flat_probe key s = tab_probe (fs_hasher s) (fs_slots s) key"
    by (elim exE) (rule flat_probe_tab)
  show "16 \<le> length (fs_slots s)" using t by (rule tab_okD(2))
  show "fs_occupied s = int (length (filter is_occ (fs_slots s)))"
    "fs_tombstones s = int (length (filter (\<lambda>x. x = SlotTombstone) (fs_slots s)))"
    "fs_occupied s + fs_tombstones s < int (length (fs_slots s))"
    using assms unfolding flat_ok_def by blast+
qed

lemma flat_probe_hit:
  assumes "flat_ok s" and "flat_map s key = Some e"
  shows "\<exists>p < length (fs_slots s). flat_probe key s = (int p, True) \<and> fs_slots s ! p = SlotOccupied key e"
proof -
  obtain p where p: "p < length (fs_slots s)" "fs_slots s ! p = SlotOccupied key e"
    using iffD1 [OF flat_map_iff [OF assms(1)] assms(2)] by (elim exE conjE)
  then have "flat_probe key s = (int p, True)"
    unfolding flat_okD(3) [OF assms(1)] by (rule tab_probe_hit [OF flat_okD(1) [OF assms(1)]])
  then show ?thesis using p by blast
qed

lemma flat_absent:
  assumes "flat_ok s" and "flat_map s key = None"
  shows "\<forall>p < length (fs_slots s). \<not> is_key key (fs_slots s ! p)"
proof (intro allI impI notI)
  fix p assume "p < length (fs_slots s)" and "is_key key (fs_slots s ! p)"
  then obtain e where "flat_map s key = Some e"
    using flat_map_iff [OF assms(1), of key] by (cases "fs_slots s ! p") auto
  then show False using assms(2) by simp
qed

lemma some_unoccupied:
  assumes "int (length (filter P xs)) < int (length xs)"
  shows "\<exists>q < length xs. \<not> P (xs ! q)"
proof (rule ccontr)
  assume "\<not> (\<exists>q < length xs. \<not> P (xs ! q))"
  then have "filter P xs = xs" by (metis filter_id_conv in_set_conv_nth)
  then show False using assms by simp
qed

lemma flat_probe_miss:
  assumes "flat_ok s" and "flat_map s key = None"
  shows "\<exists>p < length (fs_slots s). flat_probe key s = (int p, False) \<and> \<not> is_occ (fs_slots s ! p) \<and>
    reach (fs_hasher s) (fs_slots s) key p"
proof -
  have "int (length (filter is_occ (fs_slots s))) < int (length (fs_slots s))"
    using flat_okD(4-6) [OF assms(1)] by linarith
  then obtain q where "q < length (fs_slots s)" "\<not> is_occ (fs_slots s ! q)"
    using some_unoccupied by blast
  then show ?thesis
    using tab_probe_miss [OF flat_okD(1) [OF assms(1)] flat_absent [OF assms]] flat_okD(3) [OF assms(1)]
    by simp
qed

lemma flat_get_map: "flat_ok s \<Longrightarrow> flat_get key s = flat_map s key"
  using flat_probe_hit [of s key] flat_probe_miss [of s key]
  by (cases "flat_map s key") (auto simp: flat_get_def)

text \<open>Occupying a slot that is empty or a tombstone.\<close>

definition flat_occupy :: "nat \<Rightarrow> 'k \<Rightarrow> 'e \<Rightarrow> ('k, 'e) flatStore \<Rightarrow> ('k, 'e) flatStore" where
  "flat_occupy p key e s = s\<lparr>fs_slots := (fs_slots s)[p := SlotOccupied key e],
     fs_occupied := fs_occupied s + 1,
     fs_tombstones := fs_tombstones s - (if fs_slots s ! p = SlotTombstone then 1 else 0)\<rparr>"

lemma flat_occupy_ok:
  assumes ok: "flat_ok s" and absent: "flat_map s key = None" and p: "p < length (fs_slots s)"
    and free: "\<not> is_occ (fs_slots s ! p)" and r: "reach (fs_hasher s) (fs_slots s) key p"
    and room: "fs_occupied s + fs_tombstones s + 1 < int (length (fs_slots s))"
  shows "flat_ok (flat_occupy p key e s)" "flat_map (flat_occupy p key e s) = (flat_map s)(key \<mapsto> e)"
proof -
  let ?slots = "(fs_slots s)[p := SlotOccupied key e]"
  have tab: "tab_ok (fs_hasher s) ?slots"
  proof (rule tab_ok_update [OF flat_okD(1) [OF ok] p])
    show "is_key k (SlotOccupied key e) \<Longrightarrow> q < length (fs_slots s) \<Longrightarrow> is_key k (fs_slots s ! q) \<Longrightarrow> q = p"
      for k q
      using flat_absent [OF ok absent] by simp
  qed (use r in simp_all)
  have "int (length (filter is_occ ?slots)) = fs_occupied s + 1"
    unfolding filter_update [OF p] flat_okD(4) [OF ok] using free by simp
  moreover have "int (length (filter (\<lambda>x. x = SlotTombstone) ?slots))
      = fs_tombstones s - (if fs_slots s ! p = SlotTombstone then 1 else 0)"
    unfolding filter_update [OF p] flat_okD(5) [OF ok] by simp
  ultimately show "flat_ok (flat_occupy p key e s)"
    using tab room by (simp add: flat_ok_def flat_occupy_def)
  have "is_key k (fs_slots s ! p) \<Longrightarrow> k = key" for k using free by (cases "fs_slots s ! p") auto
  then show "flat_map (flat_occupy p key e s) = (flat_map s)(key \<mapsto> e)"
    using map_of_occupy [OF flat_okD(1) [OF ok] tab p]
    by (simp add: flat_map_def flat_each_def flat_occupy_def)
qed

lemma flat_occupy_fields [simp]:
  "fs_hasher (flat_occupy p key e s) = fs_hasher s"
  "length (fs_slots (flat_occupy p key e s)) = length (fs_slots s)"
  "fs_occupied (flat_occupy p key e s) = fs_occupied s + 1"
  by (simp_all add: flat_occupy_def)

lemma flat_write_occupy:
  "p < length (fs_slots s) \<Longrightarrow> \<not> is_occ (fs_slots s ! p) \<Longrightarrow> flat_write (int p) key e s = flat_occupy p key e s"
  by (cases "fs_slots s ! p") (simp_all add: flat_write_def flat_occupy_def Let_def)

lemma flat_write_ok:
  assumes "flat_ok s" and "flat_map s key = None"
    and "fs_occupied s + fs_tombstones s + 1 < int (length (fs_slots s))"
  shows "flat_ok (flat_write (fst (flat_probe key s)) key e s)"
    "flat_map (flat_write (fst (flat_probe key s)) key e s) = (flat_map s)(key \<mapsto> e)"
proof -
  obtain p where p: "p < length (fs_slots s)" "flat_probe key s = (int p, False)"
      "\<not> is_occ (fs_slots s ! p)" "reach (fs_hasher s) (fs_slots s) key p"
    using flat_probe_miss [OF assms(1,2)] by (elim exE conjE)
  then have "flat_write (fst (flat_probe key s)) key e s = flat_occupy p key e s"
    using flat_write_occupy [OF p(1,3)] by simp
  then show "flat_ok (flat_write (fst (flat_probe key s)) key e s)"
    "flat_map (flat_write (fst (flat_probe key s)) key e s) = (flat_map s)(key \<mapsto> e)"
    using flat_occupy_ok [OF assms(1,2) p(1,3,4) assms(3)] by simp_all
qed

lemma entries_distinct:
  "(\<And>p q k. p < length slots \<Longrightarrow> q < length slots \<Longrightarrow> is_key k (slots ! p) \<Longrightarrow> is_key k (slots ! q) \<Longrightarrow> p = q)
    \<Longrightarrow> distinct (map fst (slot_entries slots))"
proof (induction slots)
  case (Cons x slots)
  have IH: "distinct (map fst (slot_entries slots))"
    using Cons.prems [of "Suc _" "Suc _"] by (intro Cons.IH) simp
  have "k \<notin> fst ` set (slot_entries slots)" if "x = SlotOccupied k e" for k e
  proof
    assume "k \<in> fst ` set (slot_entries slots)"
    then obtain e' where "SlotOccupied k e' \<in> set slots" by force
    then obtain q where "q < length slots" "slots ! q = SlotOccupied k e'"
      by (auto simp: in_set_conv_nth)
    then show False using Cons.prems [of 0 "Suc q" k] that by simp
  qed
  then show ?case using IH by (cases x) auto
qed simp

section \<open>Rebuilding\<close>

lemma flat_put_occupy:
  assumes "flat_ok s" and "flat_map s key = None" and "fs_tombstones s = 0"
  shows "\<exists>p < length (fs_slots s). flat_put key e s = flat_occupy p key e s \<and>
    \<not> is_occ (fs_slots s ! p) \<and> reach (fs_hasher s) (fs_slots s) key p \<and>
    fs_slots s ! p \<noteq> SlotTombstone"
proof -
  obtain p where p: "p < length (fs_slots s)" "flat_probe key s = (int p, False)"
      "\<not> is_occ (fs_slots s ! p)" "reach (fs_hasher s) (fs_slots s) key p"
    using flat_probe_miss [OF assms(1,2)] by (elim exE conjE)
  have "filter (\<lambda>x. x = SlotTombstone) (fs_slots s) = []"
    using flat_okD(5) [OF assms(1)] assms(3) by simp
  then have nt: "fs_slots s ! p \<noteq> SlotTombstone" using p(1) by (auto simp: filter_empty_conv)
  then have "flat_put key e s = flat_occupy p key e s"
    by (simp add: flat_put_def flat_occupy_def p(2))
  then show ?thesis using p nt by (intro exI [of _ p] conjI)
qed

lemma flat_reinsert_ok:
  assumes "flat_ok s" and "fs_tombstones s = 0" and "distinct (map fst (slot_entries old))"
    and "\<forall>k \<in> fst ` set (slot_entries old). flat_map s k = None"
    and "fs_occupied s + int (length (filter is_occ old)) < int (length (fs_slots s))"
  shows "flat_ok (flat_reinsert old s) \<and> fs_tombstones (flat_reinsert old s) = 0 \<and>
    flat_map (flat_reinsert old s) = flat_map s ++ map_of (slot_entries old) \<and>
    length (fs_slots (flat_reinsert old s)) = length (fs_slots s) \<and>
    fs_occupied (flat_reinsert old s) = fs_occupied s + int (length (filter is_occ old)) \<and>
    fs_hasher (flat_reinsert old s) = fs_hasher s"
  using assms
proof (induction old s rule: flat_reinsert.induct)
  case (2 k e old s)
  have ab: "flat_map s k = None" using 2(5) by simp
  obtain p where p: "p < length (fs_slots s)" "flat_put k e s = flat_occupy p k e s"
      "\<not> is_occ (fs_slots s ! p)" "reach (fs_hasher s) (fs_slots s) k p"
      "fs_slots s ! p \<noteq> SlotTombstone"
    using flat_put_occupy [OF 2(2) ab 2(3), of e] by (elim exE conjE)
  have room: "fs_occupied s + fs_tombstones s + 1 < int (length (fs_slots s))"
    using 2(3,6) by simp
  note put = flat_occupy_ok [OF 2(2) ab p(1,3,4) room, of e]
  have "fs_tombstones (flat_occupy p k e s) = 0" using p(5) 2(3) by (simp add: flat_occupy_def)
  moreover have "\<forall>k' \<in> fst ` set (slot_entries old). flat_map (flat_occupy p k e s) k' = None"
    using 2(4,5) put(2) by auto
  ultimately have "flat_ok (flat_reinsert old (flat_put k e s)) \<and>
      fs_tombstones (flat_reinsert old (flat_put k e s)) = 0 \<and>
      flat_map (flat_reinsert old (flat_put k e s))
        = flat_map (flat_put k e s) ++ map_of (slot_entries old) \<and>
      length (fs_slots (flat_reinsert old (flat_put k e s))) = length (fs_slots (flat_put k e s)) \<and>
      fs_occupied (flat_reinsert old (flat_put k e s))
        = fs_occupied (flat_put k e s) + int (length (filter is_occ old)) \<and>
      fs_hasher (flat_reinsert old (flat_put k e s)) = fs_hasher (flat_put k e s)"
    using 2(4,6) put(1) by (intro 2(1)) (simp_all add: p(2))
  moreover have "map_of (slot_entries old) k = None" using 2(4) by (simp add: map_of_eq_None_iff)
  then have "(flat_map s)(k \<mapsto> e) ++ map_of (slot_entries old)
      = flat_map s ++ map_of (slot_entries (SlotOccupied k e # old))"
    by (simp add: map_add_def fun_eq_iff split: option.split)
  ultimately show ?case using put(2) by (simp add: p(2) del: map_of.simps slot_entries.simps)
qed simp_all

lemma fresh_ok:
  assumes "4 \<le> b"
  shows "flat_ok (s\<lparr>fs_slots := replicate (2 ^ b) SlotEmpty, fs_occupied := 0, fs_tombstones := 0\<rparr>)"
  using assms by (auto simp: flat_ok_def tab_ok_def)

lemma slot_entries_empty [simp]: "slot_entries (replicate n SlotEmpty) = []"
  by (induction n) simp_all

lemma compactCount_irrelevant [simp]:
  "flat_ok (s\<lparr>compactCount := c\<rparr>) = flat_ok s" "flat_map (s\<lparr>compactCount := c\<rparr>) = flat_map s"
  by (simp_all add: flat_ok_def flat_map_def flat_each_def)

lemma flat_rebuild_ok:
  assumes ok: "flat_ok s" and cap: "newCap = 2 ^ b" "4 \<le> b" and room: "fs_occupied s < int newCap"
  shows "flat_ok (flat_rebuild newCap s) \<and> flat_map (flat_rebuild newCap s) = flat_map s \<and>
    fs_tombstones (flat_rebuild newCap s) = 0 \<and> fs_occupied (flat_rebuild newCap s) = fs_occupied s \<and>
    length (fs_slots (flat_rebuild newCap s)) = newCap"
proof -
  let ?s = "s\<lparr>fs_slots := replicate newCap SlotEmpty, fs_occupied := 0, fs_tombstones := 0\<rparr>"
  have d: "distinct (map fst (slot_entries (fs_slots s)))"
    using tab_okD(4) [OF flat_okD(1) [OF ok]] by (rule entries_distinct)
  define r where "r = flat_reinsert (fs_slots s) ?s"
  have "flat_ok r \<and> fs_tombstones r = 0 \<and> flat_map r = flat_map ?s ++ map_of (slot_entries (fs_slots s)) \<and>
    length (fs_slots r) = length (fs_slots ?s) \<and>
    fs_occupied r = fs_occupied ?s + int (length (filter is_occ (fs_slots s))) \<and> fs_hasher r = fs_hasher ?s"
    unfolding r_def using d room fresh_ok [OF cap(2), of s]
    by (intro flat_reinsert_ok)
      (simp_all add: cap(1) flat_map_def flat_each_def flat_okD(4) [OF ok, symmetric])
  moreover have "flat_rebuild newCap s = r\<lparr>compactCount := compactCount r + 1\<rparr>"
    by (simp add: flat_rebuild_def r_def Let_def)
  moreover have "flat_map ?s ++ map_of (slot_entries (fs_slots s)) = flat_map s"
    by (simp add: flat_map_def flat_each_def)
  ultimately show ?thesis by (simp add: flat_okD(4) [OF ok])
qed

lemma flat_nextRebuildCap_ok:
  assumes ok: "flat_ok s"
  shows "\<exists>b. flat_nextRebuildCap s = 2 ^ b \<and> 4 \<le> b" and "fs_occupied s + 1 < int (flat_nextRebuildCap s)"
proof -
  obtain b where b: "4 \<le> b" "length (fs_slots s) = 2 ^ b"
    using flat_okD(1) [OF ok] by (auto simp: tab_ok_def)
  then have "flat_nextRebuildCap s = 2 ^ b \<or> flat_nextRebuildCap s = 2 ^ Suc b"
    by (simp add: flat_nextRebuildCap_def Let_def)
  then show "\<exists>b. flat_nextRebuildCap s = 2 ^ b \<and> 4 \<le> b" using b(1) by (metis le_SucI)
  have "0 \<le> fs_tombstones s" using flat_okD(5) [OF ok] by linarith
  then show "fs_occupied s + 1 < int (flat_nextRebuildCap s)"
    using flat_okD(6,7) [OF ok] unfolding flat_nextRebuildCap_def Let_def
    by (cases "3 * int (length (fs_slots s)) \<le> fs_occupied s * 4") simp_all
qed

lemma flat_rebuild_next:
  assumes ok: "flat_ok s"
  defines "s' \<equiv> flat_rebuild (flat_nextRebuildCap s) s"
  shows "flat_ok s'" "flat_map s' = flat_map s"
    "fs_occupied s' + fs_tombstones s' + 1 < int (length (fs_slots s'))"
proof -
  obtain b where "flat_nextRebuildCap s = 2 ^ b" "4 \<le> b" using flat_nextRebuildCap_ok(1) [OF ok] by blast
  moreover have "fs_occupied s < int (flat_nextRebuildCap s)"
    using flat_nextRebuildCap_ok(2) [OF ok] by linarith
  ultimately have "flat_ok s' \<and> flat_map s' = flat_map s \<and> fs_tombstones s' = 0 \<and>
      fs_occupied s' = fs_occupied s \<and> length (fs_slots s') = flat_nextRebuildCap s"
    unfolding s'_def by (intro flat_rebuild_ok [OF ok])
  then show "flat_ok s'" "flat_map s' = flat_map s"
    "fs_occupied s' + fs_tombstones s' + 1 < int (length (fs_slots s'))"
    using flat_nextRebuildCap_ok(2) [OF ok] by simp_all
qed

section \<open>The store implements a map\<close>

lemma flat_map_replace:
  fixes e' :: 'e and s :: "('k, 'e) flatStore"
  assumes ok: "flat_ok s" and p: "p < length (fs_slots s)" "fs_slots s ! p = SlotOccupied key e"
  defines "s' \<equiv> s\<lparr>fs_slots := (fs_slots s)[p := SlotOccupied key e']\<rparr>"
  shows "flat_ok s'" "flat_map s' = (flat_map s)(key \<mapsto> e')"
proof -
  let ?slots = "(fs_slots s)[p := SlotOccupied key e']"
  note t = flat_okD(1) [OF ok]
  have tab: "tab_ok (fs_hasher s) ?slots"
  proof (rule tab_ok_update [OF t p(1)])
    show "SlotOccupied key e' = SlotOccupied k v \<Longrightarrow> reach (fs_hasher s) (fs_slots s) k p" for k v
      using tab_okD(3) [OF t p] by simp
    show "is_key k (SlotOccupied key e') \<Longrightarrow> q < length (fs_slots s) \<Longrightarrow> is_key k (fs_slots s ! q) \<Longrightarrow> q = p"
      for k q
      using tab_okD(4) [OF t, of q p key] p by simp
  qed simp
  have "int (length (filter is_occ ?slots)) = fs_occupied s"
    unfolding filter_update [OF p(1)] flat_okD(4) [OF ok] by (simp add: p(2))
  moreover have "int (length (filter (\<lambda>x. x = SlotTombstone) ?slots)) = fs_tombstones s"
    unfolding filter_update [OF p(1)] flat_okD(5) [OF ok] by (simp add: p(2))
  ultimately show "flat_ok s'" using tab flat_okD(6) [OF ok] by (simp add: flat_ok_def s'_def)
  show "flat_map s' = (flat_map s)(key \<mapsto> e')"
    using map_of_occupy [OF t tab p(1)] p(2) by (simp add: flat_map_def flat_each_def s'_def)
qed

lemma flat_set_ok:
  assumes ok: "flat_ok s"
  shows "flat_ok (flat_set key e s)" "flat_map (flat_set key e s) = (flat_map s)(key \<mapsto> e)"
proof -
  have "flat_ok (flat_set key e s) \<and> flat_map (flat_set key e s) = (flat_map s)(key \<mapsto> e)"
  proof (cases "flat_map s key")
    case (Some e0)
    then obtain p where "p < length (fs_slots s)" "flat_probe key s = (int p, True)"
        "fs_slots s ! p = SlotOccupied key e0"
      using flat_probe_hit [OF ok] by blast
    then show ?thesis using flat_map_replace [OF ok] by (simp add: flat_set_def)
  next
    case None
    then obtain p where p: "flat_probe key s = (int p, False)" using flat_probe_miss [OF ok] by blast
    show ?thesis
    proof (cases "flat_shouldGrowBeforeInsert s")
      case True
      let ?s = "flat_rebuild (flat_nextRebuildCap s) s"
      have "flat_set key e s = flat_write (fst (flat_probe key ?s)) key e ?s"
        using p True by (simp add: flat_set_def Let_def)
      then show ?thesis
        using flat_write_ok [of ?s key e] flat_rebuild_next [OF ok] None by simp
    next
      case False
      then have "fs_occupied s + fs_tombstones s + 1 < int (length (fs_slots s))"
        using flat_okD(7) [OF ok] by (simp add: flat_shouldGrowBeforeInsert_def)
      moreover have "flat_set key e s = flat_write (fst (flat_probe key s)) key e s"
        using p False by (simp add: flat_set_def)
      ultimately show ?thesis using flat_write_ok [OF ok None, of e] by simp
    qed
  qed
  then show "flat_ok (flat_set key e s)" "flat_map (flat_set key e s) = (flat_map s)(key \<mapsto> e)"
    by blast+
qed

lemma flat_del_bury:
  assumes ok: "flat_ok s" and p: "p < length (fs_slots s)" "fs_slots s ! p = SlotOccupied key e"
  defines "s' \<equiv> s\<lparr>fs_slots := (fs_slots s)[p := SlotTombstone],
                  fs_occupied := fs_occupied s - 1, fs_tombstones := fs_tombstones s + 1\<rparr>"
  shows "flat_ok s'" "flat_map s' = (flat_map s)(key := None)"
proof -
  let ?slots = "(fs_slots s)[p := SlotTombstone]"
  note t = flat_okD(1) [OF ok]
  have tab: "tab_ok (fs_hasher s) ?slots" by (rule tab_ok_update [OF t p(1)]) simp_all
  have "int (length (filter is_occ ?slots)) = fs_occupied s - 1"
    unfolding filter_update [OF p(1)] flat_okD(4) [OF ok] by (simp add: p(2))
  moreover have "int (length (filter (\<lambda>x. x = SlotTombstone) ?slots)) = fs_tombstones s + 1"
    unfolding filter_update [OF p(1)] flat_okD(5) [OF ok] by (simp add: p(2))
  ultimately show "flat_ok s'" using tab flat_okD(6) [OF ok] by (simp add: flat_ok_def s'_def)
  show "flat_map s' = (flat_map s)(key := None)"
    using map_of_bury [OF t tab p] by (simp add: flat_map_def flat_each_def s'_def)
qed

lemma flat_del_ok:
  assumes ok: "flat_ok s"
  shows "flat_ok (snd (flat_del key s))" "flat_map (snd (flat_del key s)) = (flat_map s)(key := None)"
    "fst (flat_del key s) = (flat_map s key \<noteq> None)"
proof -
  have "flat_ok (snd (flat_del key s)) \<and> flat_map (snd (flat_del key s)) = (flat_map s)(key := None) \<and>
    fst (flat_del key s) = (flat_map s key \<noteq> None)"
  proof (cases "flat_map s key")
    case None
    then show ?thesis using flat_probe_miss [OF ok None] ok by (auto simp: flat_del_def fun_upd_idem)
  next
    case (Some e)
    then obtain p where p: "p < length (fs_slots s)" "flat_probe key s = (int p, True)"
        "fs_slots s ! p = SlotOccupied key e"
      using flat_probe_hit [OF ok] by blast
    define s' where "s' = s\<lparr>fs_slots := (fs_slots s)[p := SlotTombstone],
        fs_occupied := fs_occupied s - 1, fs_tombstones := fs_tombstones s + 1\<rparr>"
    have "flat_del key s = (True, if flat_shouldCompactAfterDelete s'
        then flat_rebuild (flat_nextRebuildCap s') s' else s')"
      by (simp add: flat_del_def p(2) Let_def s'_def)
    then show ?thesis
      using flat_del_bury [OF ok p(1,3), folded s'_def] flat_rebuild_next(1,2) [of s'] Some by simp
  qed
  then show "flat_ok (snd (flat_del key s))" "flat_map (snd (flat_del key s)) = (flat_map s)(key := None)"
    "fst (flat_del key s) = (flat_map s key \<noteq> None)"
    by blast+
qed

lemma flat_clearAll_ok:
  assumes "flat_ok s"
  shows "flat_ok (flat_clearAll s)" "flat_map (flat_clearAll s) = Map.empty"
proof -
  obtain b where b: "4 \<le> b" "length (fs_slots s) = 2 ^ b"
    using flat_okD(1) [OF assms] by (auto simp: tab_ok_def)
  have c: "flat_clearAll s = s\<lparr>fs_slots := replicate (2 ^ b) SlotEmpty, fs_occupied := 0, fs_tombstones := 0\<rparr>"
    using b(2) by (simp add: flat_clearAll_def map_replicate_const)
  show "flat_ok (flat_clearAll s)" unfolding c by (rule fresh_ok [OF b(1)])
  show "flat_map (flat_clearAll s) = Map.empty" by (simp add: c flat_map_def flat_each_def)
qed

lemma newFlatStore_ok:
  assumes "initialCap \<le> 2 ^ 62"
  shows "\<exists>s. newFlatStore hasher initialCap = Some s \<and> flat_ok s \<and> flat_map s = Map.empty"
proof -
  let ?c = "if initialCap < flatStoreInitialCap then flatStoreInitialCap else initialCap"
  have "?c \<le> 2 ^ 62" using assms by (simp add: flatStoreInitialCap_def)
  then obtain b where b: "nextPowerOfTwo ?c = Some (2 ^ b)" "?c \<le> 2 ^ b"
    using nextPowerOfTwo_pow by blast
  have "(2 :: int) ^ 4 \<le> 2 ^ b" using b(2) by (simp add: flatStoreInitialCap_def split: if_splits)
  then have "4 \<le> b" by (rule power_le_imp_le_exp [rotated]) simp
  then have ok: "flat_ok \<lparr>fs_hasher = hasher, fs_slots = replicate (2 ^ b) SlotEmpty, fs_occupied = 0,
      fs_tombstones = 0, compactCount = 0\<rparr>"
    using fresh_ok [of b "\<lparr>fs_hasher = hasher, fs_slots = [], fs_occupied = 0, fs_tombstones = 0,
      compactCount = 0\<rparr>"] by simp
  have "nat (2 ^ b) = 2 ^ b" by (simp add: nat_power_eq)
  then have "newFlatStore hasher initialCap = Some \<lparr>fs_hasher = hasher,
      fs_slots = replicate (2 ^ b) SlotEmpty, fs_occupied = 0, fs_tombstones = 0, compactCount = 0\<rparr>"
    using b(1) by (simp add: newFlatStore_def Let_def)
  then show ?thesis using ok by (intro exI conjI) (auto simp: flat_map_def flat_each_def)
qed

lemma flat_each_distinct: "flat_ok s \<Longrightarrow> distinct (map fst (flat_each s))"
  unfolding flat_each_def by (rule entries_distinct) (rule tab_okD(4) [OF flat_okD(1)])

lemma flat_length_each: "flat_ok s \<Longrightarrow> flat_length s = int (length (flat_each s))"
  by (simp add: flat_length_def flat_each_def flat_okD(4))

end
