(* ===== verification/Shard_Store.thy ===== *)
theory Shard_Store
  imports Flat_Store "HOL-Library.AList"
begin

text \<open>
  The storage interface of a shard (shardstore.go) and its two implementations, the Go map of
  \<open>mapStore\<close> and the flat table of theory \<open>Flat_Store\<close>. A Go map is an association list without
  duplicate keys; the order \<open>range\<close> visits it in is unspecified, and the list's order stands for
  one such order, so what is proved of every well-formed list holds for each.

  The locale \<open>key_store\<close> is the contract a shard relies on: with respect to an abstract map, \<open>get\<close>
  looks up, \<open>set\<close> and \<open>del\<close> update, \<open>each\<close> lists the graph of the map without repetition and
  \<open>length\<close> is its size. Both implementations satisfy it, through one interpretation.
\<close>

type_synonym ('k, 'e) mapStore = "('k \<times> 'e) list"

definition newMapStore :: "('k, 'e) mapStore" where
  "newMapStore = []"

definition map_get :: "'k \<Rightarrow> ('k, 'e) mapStore \<Rightarrow> 'e option" where
  "map_get key m = map_of m key"

definition map_set :: "'k \<Rightarrow> 'e \<Rightarrow> ('k, 'e) mapStore \<Rightarrow> ('k, 'e) mapStore" where
  "map_set key e m = AList.update key e m"

definition map_del :: "'k \<Rightarrow> ('k, 'e) mapStore \<Rightarrow> bool \<times> ('k, 'e) mapStore" where
  "map_del key m = (if map_of m key = None then (False, m) else (True, AList.delete key m))"

definition map_length :: "('k, 'e) mapStore \<Rightarrow> int" where
  "map_length m = int (length m)"

definition map_clearAll :: "('k, 'e) mapStore \<Rightarrow> ('k, 'e) mapStore" where
  "map_clearAll m = []"

definition map_each :: "('k, 'e) mapStore \<Rightarrow> ('k \<times> 'e) list" where
  "map_each m = m"

datatype ('k, 'e) shardStore = StMap "('k, 'e) mapStore" | StFlat "('k, 'e) flatStore"

definition newShardStore :: "bool \<Rightarrow> ('k \<Rightarrow> 64 word) \<Rightarrow> ('k, 'e) shardStore option" where
  "newShardStore flatStorage hasher =
     (if flatStorage then map_option StFlat (newFlatStore hasher flatStoreInitialCap)
      else Some (StMap newMapStore))"

fun st_get :: "'k \<Rightarrow> ('k, 'e) shardStore \<Rightarrow> 'e option" where
  "st_get key (StMap m) = map_get key m"
| "st_get key (StFlat s) = flat_get key s"

fun st_set :: "'k \<Rightarrow> 'e \<Rightarrow> ('k, 'e) shardStore \<Rightarrow> ('k, 'e) shardStore" where
  "st_set key e (StMap m) = StMap (map_set key e m)"
| "st_set key e (StFlat s) = StFlat (flat_set key e s)"

fun st_del :: "'k \<Rightarrow> ('k, 'e) shardStore \<Rightarrow> bool \<times> ('k, 'e) shardStore" where
  "st_del key (StMap m) = (case map_del key m of (ok, m) \<Rightarrow> (ok, StMap m))"
| "st_del key (StFlat s) = (case flat_del key s of (ok, s) \<Rightarrow> (ok, StFlat s))"

fun st_length :: "('k, 'e) shardStore \<Rightarrow> int" where
  "st_length (StMap m) = map_length m"
| "st_length (StFlat s) = flat_length s"

fun st_clearAll :: "('k, 'e) shardStore \<Rightarrow> ('k, 'e) shardStore" where
  "st_clearAll (StMap m) = StMap (map_clearAll m)"
| "st_clearAll (StFlat s) = StFlat (flat_clearAll s)"

fun st_each :: "('k, 'e) shardStore \<Rightarrow> ('k \<times> 'e) list" where
  "st_each (StMap m) = map_each m"
| "st_each (StFlat s) = flat_each s"

fun st_compactions :: "('k, 'e) shardStore \<Rightarrow> nat" where
  "st_compactions (StMap m) = 0"
| "st_compactions (StFlat s) = compactCount s"

section \<open>The contract\<close>

locale key_store =
  fixes get :: "'k \<Rightarrow> 's \<Rightarrow> 'e option"
    and put :: "'k \<Rightarrow> 'e \<Rightarrow> 's \<Rightarrow> 's"
    and del :: "'k \<Rightarrow> 's \<Rightarrow> bool \<times> 's"
    and size_of :: "'s \<Rightarrow> int"
    and clear :: "'s \<Rightarrow> 's"
    and each :: "'s \<Rightarrow> ('k \<times> 'e) list"
    and ok :: "'s \<Rightarrow> bool"
  assumes get_each: "ok s \<Longrightarrow> get key s = map_of (each s) key"
    and set_ok: "ok s \<Longrightarrow> ok (put key e s)"
    and set_each: "ok s \<Longrightarrow> map_of (each (put key e s)) = (map_of (each s))(key \<mapsto> e)"
    and del_ok: "ok s \<Longrightarrow> ok (snd (del key s))"
    and del_each: "ok s \<Longrightarrow> map_of (each (snd (del key s))) = (map_of (each s))(key := None)"
    and del_found: "ok s \<Longrightarrow> fst (del key s) = (map_of (each s) key \<noteq> None)"
    and clear_ok: "ok s \<Longrightarrow> ok (clear s)"
    and clear_each: "ok s \<Longrightarrow> each (clear s) = []"
    and each_distinct: "ok s \<Longrightarrow> distinct (map fst (each s))"
    and size_each: "ok s \<Longrightarrow> size_of s = int (length (each s))"
begin

lemma size_card: "ok s \<Longrightarrow> size_of s = int (card (dom (map_of (each s))))"
  using size_each each_distinct by (metis distinct_card dom_map_of_conv_image_fst length_map list.set_map)

lemma get_set: "ok s \<Longrightarrow> get k (put key e s) = (if k = key then Some e else get k s)"
  by (simp add: get_each set_ok set_each)

lemma get_del: "ok s \<Longrightarrow> get k (snd (del key s)) = (if k = key then None else get k s)"
  by (simp add: get_each del_ok del_each)

lemma get_clear: "ok s \<Longrightarrow> get k (clear s) = None"
  by (simp add: get_each clear_ok clear_each)

lemma in_each: "ok s \<Longrightarrow> (k, e) \<in> set (each s) \<longleftrightarrow> get k s = Some e"
  by (simp add: get_each each_distinct)

lemma finite_keys: "finite (dom (\<lambda>k. map_of (each s) k))"
  by (simp add: finite_dom_map_of)

lemma size_set_new: "ok s \<Longrightarrow> get key s = None \<Longrightarrow> size_of (put key e s) = size_of s + 1"
  using finite_keys [of s] by (auto simp: size_card set_ok set_each get_each domIff)

lemma size_set_old: "ok s \<Longrightarrow> get key s = Some e0 \<Longrightarrow> size_of (put key e s) = size_of s"
  by (auto simp: size_card set_ok set_each get_each insert_absorb domI)

lemma size_del: "ok s \<Longrightarrow> get key s = Some e0 \<Longrightarrow> size_of (snd (del key s)) = size_of s - 1"
proof -
  assume ok: "ok s" and g: "get key s = Some e0"
  then have k: "key \<in> dom (map_of (each s))" by (auto simp: get_each)
  then have "0 < card (dom (map_of (each s)))" using finite_keys [of s] by (auto simp: card_gt_0_iff)
  then show ?thesis using ok k finite_keys [of s] by (simp add: size_card del_ok del_each of_nat_diff)
qed

end

fun st_ok :: "('k, 'e) shardStore \<Rightarrow> bool" where
  "st_ok (StMap m) = distinct (map fst m)"
| "st_ok (StFlat s) = flat_ok s"

interpretation st: key_store st_get st_set st_del st_length st_clearAll st_each st_ok
proof
  fix s :: "('k, 'e) shardStore" and key :: 'k and e :: 'e
  assume ok: "st_ok s"
  show "st_get key s = map_of (st_each s) key"
    using ok by (cases s) (simp_all add: map_get_def map_each_def flat_get_map flat_map_def)
  show "st_ok (st_set key e s)"
    using ok by (cases s) (simp_all add: map_set_def distinct_update flat_set_ok)
  show "map_of (st_each (st_set key e s)) = (map_of (st_each s))(key \<mapsto> e)"
    using ok flat_set_ok(2) by (cases s)
      (simp_all add: map_set_def map_each_def update_conv' flat_map_def)
  show "st_ok (snd (st_del key s))"
    using ok flat_del_ok(1) by (cases s)
      (auto simp: map_del_def distinct_delete split_beta)
  show "map_of (st_each (snd (st_del key s))) = (map_of (st_each s))(key := None)"
    using ok flat_del_ok(2) [of _ key] by (cases s)
      (auto simp: map_del_def map_each_def delete_conv' flat_map_def fun_upd_idem split_beta)
  show "fst (st_del key s) = (map_of (st_each s) key \<noteq> None)"
    using ok flat_del_ok(3) [of _ key] by (cases s)
      (auto simp: map_del_def map_each_def flat_map_def split_beta)
  show "st_ok (st_clearAll s)"
    using ok by (cases s) (simp_all add: map_clearAll_def flat_clearAll_ok)
  show "st_each (st_clearAll s) = []"
    by (cases s) (simp_all add: map_clearAll_def map_each_def flat_each_def flat_clearAll_def
        map_replicate_const)
  show "distinct (map fst (st_each s))"
    using ok by (cases s) (simp_all add: map_each_def flat_each_distinct)
  show "st_length s = int (length (st_each s))"
    using ok by (cases s) (simp_all add: map_length_def map_each_def flat_length_each)
qed

lemma newShardStore_ok:
  fixes hasher :: "'k \<Rightarrow> 64 word"
  shows "\<exists>s :: ('k, 'e) shardStore. newShardStore flatStorage hasher = Some s \<and> st_ok s \<and> st_each s = []"
proof (cases flatStorage)
  case True
  obtain s :: "('k, 'e) flatStore"
    where s: "newFlatStore hasher flatStoreInitialCap = Some s" "flat_ok s" "flat_map s = Map.empty"
    using newFlatStore_ok [of flatStoreInitialCap hasher] by (auto simp: flatStoreInitialCap_def)
  then have "flat_each s = []" by (simp add: flat_map_def)
  then show ?thesis using s True by (intro exI [of _ "StFlat s"]) (simp add: newShardStore_def)
qed (simp add: newShardStore_def newMapStore_def map_each_def)

section \<open>The two storages are interchangeable\<close>

datatype ('k, 'e) store_op = OpSet 'k 'e | OpDel 'k | OpClear

fun store_step :: "('k, 'e) store_op \<Rightarrow> ('k, 'e) shardStore \<Rightarrow> ('k, 'e) shardStore" where
  "store_step (OpSet k e) s = st_set k e s"
| "store_step (OpDel k) s = snd (st_del k s)"
| "store_step OpClear s = st_clearAll s"

fun map_step :: "('k, 'e) store_op \<Rightarrow> ('k \<Rightarrow> 'e option) \<Rightarrow> 'k \<Rightarrow> 'e option" where
  "map_step (OpSet k e) m = m(k \<mapsto> e)"
| "map_step (OpDel k) m = m(k := None)"
| "map_step OpClear m = Map.empty"

lemma store_steps_map:
  "st_ok s \<Longrightarrow> st_ok (fold store_step ops s) \<and>
    (\<lambda>k. st_get k (fold store_step ops s)) = fold map_step ops (\<lambda>k. st_get k s)"
proof (induction ops arbitrary: s)
  case (Cons x ops)
  have "st_ok (store_step x s)" using Cons.prems by (cases x) (simp_all add: st.set_ok st.del_ok st.clear_ok)
  moreover have "(\<lambda>k. st_get k (store_step x s)) = map_step x (\<lambda>k. st_get k s)"
    using Cons.prems by (cases x) (auto simp: st.get_set st.get_del st.get_clear fun_eq_iff)
  ultimately show ?case using Cons.IH [of "store_step x s"] by simp
qed simp

text \<open>C26: Refinement of a map by both storages. Whatever sequence of \<open>set\<close>, \<open>del\<close> and \<open>clearAll\<close> a
  shard performs on a new store, and whichever hash function it uses, \<open>get\<close> answers exactly as the
  mathematical map built by the same sequence, with the flat table (through its probes, tombstones,
  growth and compaction) as with the Go map, and \<open>length\<close> is the number of keys of that map.\<close>

theorem shard_store_refines_map:
  fixes hasher :: "'k \<Rightarrow> 64 word" and ops :: "('k, 'e) store_op list"
  shows "\<exists>s. newShardStore flatStorage hasher = Some s \<and>
     (\<lambda>k. st_get k (fold store_step ops s)) = fold map_step ops Map.empty \<and>
     st_length (fold store_step ops s) = int (card (dom (fold map_step ops Map.empty)))"
proof -
  obtain s :: "('k, 'e) shardStore" where s: "newShardStore flatStorage hasher = Some s" "st_ok s" "st_each s = []"
    using newShardStore_ok by blast
  have "(\<lambda>k. st_get k s) = Map.empty" using s(2,3) by (simp add: st.get_each)
  then have m: "st_ok (fold store_step ops s)"
      "(\<lambda>k. st_get k (fold store_step ops s)) = fold map_step ops Map.empty"
    using store_steps_map [OF s(2), of ops] by simp_all
  then have "map_of (st_each (fold store_step ops s)) = fold map_step ops Map.empty"
    by (simp add: st.get_each)
  then show ?thesis using s(1) m st.size_card [OF m(1)] by simp
qed

end
