(* ===== verification/Latency_Histogram.thy ===== *)
theory Latency_Histogram
  imports Prelude
begin

text \<open>
  The latency histogram behind \<open>Stats.LoadLatency\<close>, \<open>P50\<close> and \<open>P99\<close> (internal/tdigest/tdigest.go):
  24 fixed buckets with inclusive upper bounds, a binary search for the bucket of a duration, and
  quantiles read off the cumulative counts. The counters are \<open>uint64\<close>; \<open>sumNs\<close> is an \<open>int64\<close> and
  wraps.
\<close>

definition numBuckets :: nat where
  "numBuckets = 24"

definition boundsNs :: "int list" where
  "boundsNs =
     [100, 200, 500,
      1000, 2000, 5000,
      10000, 20000, 50000,
      100000, 200000, 500000,
      1000000, 2000000, 5000000,
      10000000, 20000000, 50000000,
      100000000, 200000000, 500000000,
      1000000000, 2000000000, 5000000000]"

record histogram =
  h_counts :: "nat list"
  h_sumNs :: int
  h_count :: nat

definition newHistogram :: histogram where
  "newHistogram = \<lparr>h_counts = replicate numBuckets 0, h_sumNs = 0, h_count = 0\<rparr>"

function bucketLoop :: "int \<Rightarrow> nat \<Rightarrow> nat \<Rightarrow> nat" where
  "bucketLoop ns lo hi =
     (if lo < hi
      then let mid = (lo + hi) div 2
           in if boundsNs ! mid < ns then bucketLoop ns (mid + 1) hi else bucketLoop ns lo mid
      else lo)"
  by auto
termination
  by (relation "measure (\<lambda>(ns, lo, hi). hi - lo)") auto

declare bucketLoop.simps [simp del]

definition bucketFor :: "int \<Rightarrow> nat" where
  "bucketFor ns = bucketLoop ns 0 (numBuckets - 1)"

definition hist_Record :: "int \<Rightarrow> histogram \<Rightarrow> histogram" where
  "hist_Record d h =
     (if d < 0 then h
      else let idx = bucketFor d
           in h\<lparr>h_counts := (h_counts h)[idx := (h_counts h ! idx + 1) mod 2 ^ 64],
                h_sumNs := wrap64 (h_sumNs h + d), h_count := (h_count h + 1) mod 2 ^ 64\<rparr>)"

definition hist_Reset :: "histogram \<Rightarrow> histogram" where
  "hist_Reset h = h\<lparr>h_counts := map (\<lambda>_. 0) (h_counts h), h_sumNs := 0, h_count := 0\<rparr>"

fun quantileLoop :: "nat \<Rightarrow> nat \<Rightarrow> nat list \<Rightarrow> int list \<Rightarrow> int" where
  "quantileLoop target cum (c # cs) (b # bs) =
     (let cum = (cum + c) mod 2 ^ 64 in if cum \<ge> target then b else quantileLoop target cum cs bs)"
| "quantileLoop target cum _ _ = boundsNs ! (numBuckets - 1)"

definition hist_quantile :: "nat \<Rightarrow> nat \<Rightarrow> histogram \<Rightarrow> int" where
  "hist_quantile tot pct h =
     (let target = (tot * pct mod 2 ^ 64) div 100;
          target = (if target = 0 then 1 else target)
      in quantileLoop target 0 (h_counts h) boundsNs)"

record hist_snapshot =
  sn_Count :: nat
  sn_Mean :: int
  sn_P50 :: int
  sn_P99 :: int

definition hist_Snapshot :: "histogram \<Rightarrow> hist_snapshot" where
  "hist_Snapshot h =
     (if h_count h = 0 then \<lparr>sn_Count = 0, sn_Mean = 0, sn_P50 = 0, sn_P99 = 0\<rparr>
      else \<lparr>sn_Count = h_count h, sn_Mean = quot64 (h_sumNs h) (int (h_count h)),
            sn_P50 = hist_quantile (h_count h) 50 h, sn_P99 = hist_quantile (h_count h) 99 h\<rparr>)"

section \<open>The bucket of a duration\<close>

lemma length_boundsNs [simp]: "length boundsNs = numBuckets"
  by (simp add: boundsNs_def numBuckets_def)

lemma boundsNs_sorted: "sorted boundsNs"
  by (simp add: boundsNs_def)

lemma boundsNs_mono: "i \<le> j \<Longrightarrow> j < numBuckets \<Longrightarrow> boundsNs ! i \<le> boundsNs ! j"
  using boundsNs_sorted by (simp add: sorted_iff_nth_mono)

lemma bucketLoop_spec:
  assumes "lo \<le> hi" and "hi < numBuckets" and "\<forall>i < lo. boundsNs ! i < ns"
    and "hi = numBuckets - 1 \<or> ns \<le> boundsNs ! hi"
  shows "bucketLoop ns lo hi \<le> hi \<and> (\<forall>i < bucketLoop ns lo hi. boundsNs ! i < ns) \<and>
    (bucketLoop ns lo hi = numBuckets - 1 \<or> ns \<le> boundsNs ! bucketLoop ns lo hi)"
  using assms
proof (induction ns lo hi rule: bucketLoop.induct)
  case (1 ns lo hi)
  show ?case
  proof (cases "lo < hi")
    case False
    then have "bucketLoop ns lo hi = lo" by (simp add: bucketLoop.simps [of ns lo hi])
    moreover have "lo = hi" using False 1(3) by simp
    ultimately show ?thesis using 1(5,6) by simp
  next
    case True
    let ?mid = "(lo + hi) div 2"
    have mid: "lo \<le> ?mid" "?mid < hi" using True by auto
    show ?thesis
    proof (cases "boundsNs ! ?mid < ns")
      case less: True
      have "boundsNs ! i < ns" if "i < ?mid + 1" for i
        using that less mid 1(4) boundsNs_mono [of i ?mid] by (simp add: less_Suc_eq_le)
      then have "bucketLoop ns (?mid + 1) hi \<le> hi \<and> (\<forall>i < bucketLoop ns (?mid + 1) hi. boundsNs ! i < ns) \<and>
          (bucketLoop ns (?mid + 1) hi = numBuckets - 1 \<or> ns \<le> boundsNs ! bucketLoop ns (?mid + 1) hi)"
        using 1(3-6) True less mid by (intro 1(1)) auto
      then show ?thesis using True less by (simp add: bucketLoop.simps [of ns lo hi])
    next
      case ge: False
      then have "bucketLoop ns lo ?mid \<le> ?mid \<and> (\<forall>i < bucketLoop ns lo ?mid. boundsNs ! i < ns) \<and>
          (bucketLoop ns lo ?mid = numBuckets - 1 \<or> ns \<le> boundsNs ! bucketLoop ns lo ?mid)"
        using 1(3-6) True mid by (intro 1(2)) auto
      then show ?thesis using True ge mid by (simp add: bucketLoop.simps [of ns lo hi])
    qed
  qed
qed

text \<open>The search returns the smallest bucket that covers the duration, or the last.\<close>

lemma bucketFor_spec:
  "bucketFor ns < numBuckets" "i < bucketFor ns \<Longrightarrow> boundsNs ! i < ns"
  "bucketFor ns = numBuckets - 1 \<or> ns \<le> boundsNs ! bucketFor ns"
  using bucketLoop_spec [of 0 "numBuckets - 1" ns] by (auto simp: bucketFor_def numBuckets_def)

lemma bucketFor_le:
  assumes "i < numBuckets - 1"
  shows "bucketFor ns \<le> i \<longleftrightarrow> ns \<le> boundsNs ! i"
proof
  assume le: "bucketFor ns \<le> i"
  then have "ns \<le> boundsNs ! bucketFor ns" using assms bucketFor_spec(3) [of ns] by auto
  then show "ns \<le> boundsNs ! i" using le assms boundsNs_mono [of "bucketFor ns" i] by linarith
next
  assume "ns \<le> boundsNs ! i"
  then show "bucketFor ns \<le> i" using bucketFor_spec(2) [of i ns] by linarith
qed

section \<open>What a histogram records\<close>

text \<open>\<open>hist_of ds\<close> is the histogram after recording the durations \<open>ds\<close>; \<open>in_bucket\<close> and \<open>up_to\<close>
  count the recorded durations of a bucket and of the buckets up to one.\<close>

definition hist_of :: "int list \<Rightarrow> histogram" where
  "hist_of ds = fold hist_Record ds newHistogram"

definition in_bucket :: "int list \<Rightarrow> nat \<Rightarrow> nat" where
  "in_bucket ds i = length (filter (\<lambda>d. 0 \<le> d \<and> bucketFor d = i) ds)"

definition up_to :: "int list \<Rightarrow> nat \<Rightarrow> nat" where
  "up_to ds i = length (filter (\<lambda>d. 0 \<le> d \<and> bucketFor d < i) ds)"

definition recorded :: "int list \<Rightarrow> nat" where
  "recorded ds = length (filter (\<lambda>d. 0 \<le> d) ds)"

lemma in_bucket_le:
  shows "in_bucket ds i \<le> length ds" and "recorded ds \<le> length ds" and "up_to ds i \<le> length ds"
  by (simp_all add: in_bucket_def recorded_def up_to_def)

lemma hist_of_counts:
  "length ds < 2 ^ 64 \<Longrightarrow> h_counts (hist_of ds) = map (in_bucket ds) [0..<numBuckets] \<and>
    h_count (hist_of ds) = recorded ds"
proof (induction ds rule: rev_induct)
  case Nil
  then show ?case
    by (simp add: hist_of_def newHistogram_def in_bucket_def recorded_def map_replicate_const)
next
  case (snoc d ds)
  then have IH: "h_counts (hist_of ds) = map (in_bucket ds) [0..<numBuckets]"
    "h_count (hist_of ds) = recorded ds" and len: "length ds + 1 < 2 ^ 64" by simp_all
  have step: "hist_of (ds @ [d]) = hist_Record d (hist_of ds)" by (simp add: hist_of_def)
  show ?case
  proof (cases "d < 0")
    case True
    then show ?thesis using IH by (simp add: step hist_Record_def in_bucket_def recorded_def)
  next
    case False
    have b: "bucketFor d < numBuckets" by (rule bucketFor_spec)
    have "(in_bucket ds (bucketFor d) + 1) mod 2 ^ 64 = in_bucket ds (bucketFor d) + 1"
      "(recorded ds + 1) mod 2 ^ 64 = recorded ds + 1"
      using len in_bucket_le(1) [of ds "bucketFor d"] in_bucket_le(2) [of ds] by (simp_all add: mod_less)
    then show ?thesis
      using IH b False
      by (auto simp: step hist_Record_def Let_def in_bucket_def recorded_def list_eq_iff_nth_eq
          nth_list_update)
  qed
qed

lemma up_to_Suc: "up_to ds (Suc i) = up_to ds i + in_bucket ds i"
  by (induction ds) (auto simp: up_to_def in_bucket_def less_Suc_eq)

lemma up_to_all: "up_to ds numBuckets = recorded ds"
  using bucketFor_spec(1) by (simp add: up_to_def recorded_def)

lemma quantileLoop_spec:
  assumes "length ds < 2 ^ 64" and "i \<le> numBuckets" and "up_to ds i < target" and "target \<le> recorded ds"
  shows "\<exists>j < numBuckets. quantileLoop target (up_to ds i) (map (in_bucket ds) [i..<numBuckets]) (drop i boundsNs)
    = boundsNs ! j \<and> target \<le> up_to ds (Suc j) \<and> up_to ds j < target"
  using assms(2,3)
proof (induction "numBuckets - i" arbitrary: i)
  case 0
  then show ?case using up_to_all [of ds] assms(4) by simp
next
  case (Suc n)
  then have i: "i < numBuckets" by simp
  have dr: "drop i boundsNs = boundsNs ! i # drop (Suc i) boundsNs"
    using i by (simp add: Cons_nth_drop_Suc)
  have m: "(up_to ds i + in_bucket ds i) mod 2 ^ 64 = up_to ds (Suc i)"
    using in_bucket_le(3) [of ds "Suc i"] assms(1) by (simp add: up_to_Suc mod_less)
  show ?case
  proof (cases "target \<le> up_to ds (Suc i)")
    case True
    then show ?thesis
      using i Suc.prems m by (intro exI [of _ i]) (simp add: dr upt_conv_Cons Let_def)
  next
    case False
    have "\<exists>j < numBuckets. quantileLoop target (up_to ds (Suc i)) (map (in_bucket ds) [Suc i..<numBuckets])
        (drop (Suc i) boundsNs) = boundsNs ! j \<and> target \<le> up_to ds (Suc j) \<and> up_to ds j < target"
      using Suc False i by (intro Suc.hyps(1)) auto
    then show ?thesis using False m i by (simp add: dr upt_conv_Cons Let_def)
  qed
qed

text \<open>C28: The quantiles are right up to the bucket. After recording the durations \<open>ds\<close>, the value
  reported for percentile \<open>pct\<close> is the upper bound of a bucket \<open>j\<close> such that the buckets up to \<open>j\<close>
  hold at least the target rank \<open>max 1 (pct * n / 100)\<close> of the \<open>n\<close> recorded durations, and the
  buckets before \<open>j\<close> hold fewer; and a duration of at most that bound lies in these buckets.\<close>

theorem quantile_bucket:
  assumes "length ds * 100 < 2 ^ 64" and "0 < recorded ds" and "pct \<le> 100"
  shows "\<exists>j < numBuckets. hist_quantile (h_count (hist_of ds)) pct (hist_of ds) = boundsNs ! j \<and>
    max 1 (recorded ds * pct div 100) \<le> up_to ds (Suc j) \<and> up_to ds j < max 1 (recorded ds * pct div 100) \<and>
    (\<forall>d. j < numBuckets - 1 \<longrightarrow> (d \<le> boundsNs ! j \<longleftrightarrow> bucketFor d < Suc j))"
proof -
  define t where "t = max 1 (recorded ds * pct div 100)"
  have len: "length ds < 2 ^ 64" using assms(1) by simp
  have "recorded ds * pct \<le> length ds * 100" using in_bucket_le(2) assms(3) by (intro mult_le_mono) auto
  then have "recorded ds * pct mod 2 ^ 64 = recorded ds * pct" using assms(1) by (intro mod_less) linarith
  then have q: "hist_quantile (recorded ds) pct (hist_of ds) =
      quantileLoop t 0 (h_counts (hist_of ds)) boundsNs"
    by (simp add: hist_quantile_def Let_def max_def t_def)
  have "recorded ds * pct div 100 \<le> recorded ds * 100 div 100"
    using assms(3) by (intro div_le_mono) simp
  then have t: "t \<le> recorded ds" "up_to ds 0 < t" using assms(2) by (simp_all add: t_def up_to_def)
  obtain j where "j < numBuckets" "quantileLoop t (up_to ds 0) (map (in_bucket ds) [0..<numBuckets])
      (drop 0 boundsNs) = boundsNs ! j" "t \<le> up_to ds (Suc j)" "up_to ds j < t"
    using quantileLoop_spec [OF len _ t(2,1)] by blast
  moreover have "up_to ds 0 = 0" by (simp add: up_to_def)
  moreover have "d \<le> boundsNs ! j \<longleftrightarrow> bucketFor d < Suc j" if "j < numBuckets - 1" for d
    using bucketFor_le [OF that, of d] by (simp add: less_Suc_eq_le)
  ultimately show ?thesis
    unfolding t_def [symmetric] using hist_of_counts [OF len] q by (intro exI [of _ j]) simp
qed

theorem quantile_bucket_witness:
  "recorded [150, 300, 1000000] = 3 \<and>
   (\<exists>j < numBuckets. hist_quantile 3 99 (hist_of [150, 300, 1000000]) = boundsNs ! j \<and>
      2 \<le> up_to [150, 300, 1000000] (Suc j))"
proof -
  have r: "recorded [150, 300, 1000000] = 3" by (simp add: recorded_def)
  have "h_count (hist_of [150, 300, 1000000]) = 3"
    using hist_of_counts [of "[150, 300, 1000000]"] r by simp
  then show ?thesis using quantile_bucket [of "[150, 300, 1000000]" 99] r by auto
qed


end
