(* ===== verification/Entry.thy ===== *)
theory Entry
  imports Options "HOL-Library.Word"
begin

text \<open>
  The entries of a shard and the enumerations of the package (entry.go, types.go, weigher.go), with
  the arithmetic of expiry times: jitter, the per-shard budget (cache.go) and the sliding refresh.

  A time is a number of nanoseconds (\<open>int64\<close>); as an expiry, 0 means none. An entry's value is a
  pointer, \<^const>\<open>None\<close> when nil. The fields an entry lends to the eviction policy and to the TTL
  backend (\<open>policyData\<close>, \<open>heapIndex\<close>, \<open>wheelHandle\<close>) live in the states of those components, keyed
  by the entry.
\<close>

unbundle bit_operations_syntax

section \<open>Enumerations\<close>

datatype evictionReason =
    EvictReasonCapacity | EvictReasonExpired | EvictReasonExpireFunc | EvictReasonReplaced
  | EvictReasonDeleted | EvictReasonDeletedPrefix | EvictReasonDeletedWhere | EvictReasonTag
  | EvictReasonRemote | EvictReasonResize | EvictReasonComputed | EvictReasonClear
  | EvictReasonStoreRollback

fun reason_String :: "evictionReason \<Rightarrow> string" where
  "reason_String EvictReasonCapacity = ''capacity''"
| "reason_String EvictReasonExpired = ''expired''"
| "reason_String EvictReasonExpireFunc = ''expire-func''"
| "reason_String EvictReasonReplaced = ''replaced''"
| "reason_String EvictReasonDeleted = ''deleted''"
| "reason_String EvictReasonDeletedPrefix = ''deleted-prefix''"
| "reason_String EvictReasonDeletedWhere = ''deleted-where''"
| "reason_String EvictReasonTag = ''tag''"
| "reason_String EvictReasonRemote = ''remote''"
| "reason_String EvictReasonResize = ''resize''"
| "reason_String EvictReasonComputed = ''computed''"
| "reason_String EvictReasonClear = ''clear''"
| "reason_String EvictReasonStoreRollback = ''store-rollback''"

datatype eventKind =
    EventInsert | EventUpdate | EventEvict | EventExpire | EventLoad | EventLoadError
  | EventLoadTimeout | EventLoadRateLimited | EventInvalidateTag | EventResize | EventSnapshot

fun eventKind_String :: "eventKind \<Rightarrow> string" where
  "eventKind_String EventInsert = ''insert''"
| "eventKind_String EventUpdate = ''update''"
| "eventKind_String EventEvict = ''evict''"
| "eventKind_String EventExpire = ''expire''"
| "eventKind_String EventLoad = ''load''"
| "eventKind_String EventLoadError = ''load-error''"
| "eventKind_String EventLoadTimeout = ''load-timeout''"
| "eventKind_String EventLoadRateLimited = ''load-rate-limited''"
| "eventKind_String EventInvalidateTag = ''invalidate-tag''"
| "eventKind_String EventResize = ''resize''"
| "eventKind_String EventSnapshot = ''snapshot''"

section \<open>Weights\<close>

definition maxEntryWeight :: int where
  "maxEntryWeight = 2 ^ 40"

definition clampWeight :: "int \<Rightarrow> int" where
  "clampWeight w = min (max w 1) maxEntryWeight"

definition UnitWeigher :: "'v \<Rightarrow> int" where
  "UnitWeigher v = 1"

definition StringWeigher :: "string \<Rightarrow> int" where
  "StringWeigher s = int (length s)"

lemma clampWeight_range: "1 \<le> clampWeight w" "clampWeight w \<le> maxEntryWeight"
  by (simp_all add: clampWeight_def maxEntryWeight_def)

section \<open>Flags\<close>

definition flagSliding :: "8 word" where
  "flagSliding = 1"

definition flagNegative :: "8 word" where
  "flagNegative = 2"

definition flags_has :: "8 word \<Rightarrow> 8 word \<Rightarrow> bool" where
  "flags_has e f \<longleftrightarrow> e AND f = f"

definition flags_set :: "8 word \<Rightarrow> 8 word \<Rightarrow> 8 word" where
  "flags_set e f = e OR f"

definition flags_clear :: "8 word \<Rightarrow> 8 word \<Rightarrow> 8 word" where
  "flags_clear e f = e AND NOT f"

lemma and_sub_iff: "(a :: 'a :: ring_bit_operations) AND b = b \<longleftrightarrow> (\<forall>n. possible_bit TYPE('a) n \<longrightarrow> bit b n \<longrightarrow> bit a n)"
  by (auto simp: bit_eq_iff [of "a AND b" b] bit_and_iff)

lemma bit_two_word: "bit (2 :: 8 word) n \<longleftrightarrow> n = 1"
  using bit_exp_iff [where 'a = "8 word", of 1 n] by auto

lemma flags_has_bit:
  "flags_has e flagSliding = bit e 0" "flags_has e flagNegative = bit e 1"
  unfolding flags_has_def and_sub_iff flagSliding_def flagNegative_def bit_two_word bit_1_iff
  by simp_all

lemma flags_update [simp]:
  "flags_has (flags_set e flagSliding) flagSliding"
  "flags_has (flags_set e flagNegative) flagNegative"
  "flags_has (flags_set e flagSliding) flagNegative = flags_has e flagNegative"
  "flags_has (flags_set e flagNegative) flagSliding = flags_has e flagSliding"
  "\<not> flags_has (flags_clear e flagSliding) flagSliding"
  "\<not> flags_has (flags_clear e flagNegative) flagNegative"
  "flags_has (flags_clear e flagSliding) flagNegative = flags_has e flagNegative"
  "flags_has (flags_clear e flagNegative) flagSliding = flags_has e flagSliding"
  "\<not> flags_has (flags_clear e (flagSliding OR flagNegative)) flagSliding"
  "\<not> flags_has (flags_clear e (flagSliding OR flagNegative)) flagNegative"
  "\<not> flags_has 0 flagSliding" "\<not> flags_has 0 flagNegative"
  unfolding flags_has_bit flags_set_def flags_clear_def bit_and_iff bit_or_iff bit_not_iff
  unfolding flagSliding_def flagNegative_def bit_1_iff bit_two_word
  by simp_all

section \<open>Entries\<close>

record ('k, 'v) entry =
  e_key :: 'k
  e_value :: "'v option"
  e_expireAt :: int
  e_lastAccess :: int
  e_inserted :: int
  e_hits :: "32 word"
  e_weight :: int
  e_slidingTTL :: int
  e_tags :: "string list"
  e_flags :: "8 word"
  e_invalidated :: bool

definition e_markInvalidated :: "('k, 'v) entry \<Rightarrow> ('k, 'v) entry" where
  "e_markInvalidated e = e\<lparr>e_invalidated := True\<rparr>"

definition e_expired :: "('k, 'v) entry \<Rightarrow> int \<Rightarrow> bool" where
  "e_expired e now \<longleftrightarrow> e_expireAt e \<noteq> 0 \<and> now \<ge> e_expireAt e"

definition touchAccess :: "int \<Rightarrow> ('k, 'v) entry \<Rightarrow> bool \<times> ('k, 'v) entry" where
  "touchAccess now e =
     (if \<not> flags_has (e_flags e) flagSliding \<or> e_slidingTTL e \<le> 0
      then (False, e\<lparr>e_lastAccess := now\<rparr>)
      else if wrap64 (now - e_lastAccess e) < quot64 (e_slidingTTL e) 4 then (False, e)
      else (True, e\<lparr>e_lastAccess := now, e_expireAt := wrap64 (now + e_slidingTTL e)\<rparr>))"

record metadata =
  md_Expiry :: "int option"
  md_Inserted :: int
  md_LastAccess :: "int option"
  md_Hits :: "32 word"
  md_Weight :: int
  md_Tags :: "string list"
  md_Sliding :: bool

definition e_metadata :: "('k, 'v) entry \<Rightarrow> metadata" where
  "e_metadata e = \<lparr>
     md_Expiry = (if e_expireAt e \<noteq> 0 then Some (e_expireAt e) else None),
     md_Inserted = e_inserted e,
     md_LastAccess = (if e_lastAccess e \<noteq> 0 then Some (e_lastAccess e) else None),
     md_Hits = e_hits e, md_Weight = e_weight e, md_Tags = e_tags e,
     md_Sliding = flags_has (e_flags e) flagSliding\<rparr>"

definition e_loadValue :: "'v \<Rightarrow> ('k, 'v) entry \<Rightarrow> 'v" where
  "e_loadValue zero e = (case e_value e of None \<Rightarrow> zero | Some v \<Rightarrow> v)"

definition e_storeValue :: "'v \<Rightarrow> ('k, 'v) entry \<Rightarrow> ('k, 'v) entry" where
  "e_storeValue v e = e\<lparr>e_value := Some v\<rparr>"

text \<open>\<open>entry.reset\<close>, and the entry a pool hands out: a new one, or a recycled one that was reset.\<close>

definition e_reset :: "'k \<Rightarrow> ('k, 'v) entry \<Rightarrow> ('k, 'v) entry" where
  "e_reset zeroK e = e\<lparr>e_key := zeroK, e_value := None, e_expireAt := 0, e_inserted := 0,
     e_lastAccess := 0, e_hits := 0, e_weight := 0, e_tags := [], e_flags := 0, e_slidingTTL := 0,
     e_invalidated := False\<rparr>"

definition pool_get :: "'k \<Rightarrow> ('k, 'v) entry" where
  "pool_get zeroK = \<lparr>e_key = zeroK, e_value = None, e_expireAt = 0, e_lastAccess = 0, e_inserted = 0,
     e_hits = 0, e_weight = 0, e_slidingTTL = 0, e_tags = [], e_flags = 0, e_invalidated = False\<rparr>"

lemma pool_recycles: "e_reset zeroK e = pool_get zeroK"
  by (simp add: e_reset_def pool_get_def)

lemma touchAccess_fields [simp]:
  "e_key (snd (touchAccess now e)) = e_key e" "e_value (snd (touchAccess now e)) = e_value e"
  "e_weight (snd (touchAccess now e)) = e_weight e" "e_tags (snd (touchAccess now e)) = e_tags e"
  "e_flags (snd (touchAccess now e)) = e_flags e" "e_inserted (snd (touchAccess now e)) = e_inserted e"
  by (simp_all add: touchAccess_def)

lemma touchAccess_unshifted:
  "\<not> fst (touchAccess now e) \<Longrightarrow> e_expireAt (snd (touchAccess now e)) = e_expireAt e"
  by (auto simp: touchAccess_def split: if_splits)

section \<open>Expiry arithmetic\<close>

text \<open>\<open>applyJitter\<close>; \<open>draw\<close> is the result of \<open>rand.Int64N(2j+1)\<close>, a number from 0 to \<open>2j\<close>.\<close>

definition applyJitter :: "int \<Rightarrow> int \<Rightarrow> int \<Rightarrow> int" where
  "applyJitter ttl j draw =
     (if j \<le> 0 then ttl
      else let j = (if j > quot64 ttl 4 then quot64 ttl 4 else j)
           in if j \<le> 0 then ttl else wrap64 (ttl + (draw - j)))"

definition jitterWindow :: "int \<Rightarrow> int \<Rightarrow> int" where
  "jitterWindow ttl j = (if j > quot64 ttl 4 then quot64 ttl 4 else j)"

definition perShardBudget :: "int \<Rightarrow> int \<Rightarrow> int" where
  "perShardBudget maxEntries shardCount =
     (if maxEntries \<le> 0 \<or> shardCount \<le> 0 then 0
      else let per = quot64 (wrap64 (maxEntries + shardCount - 1)) shardCount;
               slop = max (quot64 (wrap64 (per * 10)) 100) 1
           in wrap64 (per + slop))"

lemma applyJitter_bounds:
  assumes "0 < ttl" and "ttl < 2 ^ 62" and "0 \<le> draw" and "draw \<le> 2 * jitterWindow ttl j"
  shows "applyJitter ttl j draw = ttl \<or>
    (ttl - jitterWindow ttl j \<le> applyJitter ttl j draw \<and> applyJitter ttl j draw \<le> ttl + jitterWindow ttl j)"
    and "3 * ttl \<le> 4 * applyJitter ttl j draw" "4 * applyJitter ttl j draw \<le> 5 * ttl"
proof -
  define w where "w = jitterWindow ttl j"
  have w: "4 * w \<le> ttl" using assms(1) by (auto simp: w_def jitterWindow_def)
  have "applyJitter ttl j draw = ttl \<or> (0 < w \<and> applyJitter ttl j draw = wrap64 (ttl + (draw - w)))"
    by (simp add: applyJitter_def w_def jitterWindow_def Let_def)
  moreover have "wrap64 (ttl + (draw - w)) = ttl + (draw - w)" if "0 < w"
    using that w assms unfolding w_def [symmetric] by (intro wrap64_id) simp_all
  ultimately have r: "applyJitter ttl j draw = ttl \<or> (0 < w \<and> applyJitter ttl j draw = ttl + (draw - w))"
    by auto
  then show "applyJitter ttl j draw = ttl \<or>
    (ttl - jitterWindow ttl j \<le> applyJitter ttl j draw \<and> applyJitter ttl j draw \<le> ttl + jitterWindow ttl j)"
    using assms(3,4) unfolding w_def [symmetric] by auto
  show "3 * ttl \<le> 4 * applyJitter ttl j draw" "4 * applyJitter ttl j draw \<le> 5 * ttl"
    using r w assms(1,3,4) unfolding w_def [symmetric] by auto
qed

lemma perShardBudget_covers:
  assumes "0 < maxEntries" and "0 < shardCount" and "maxEntries + shardCount < 2 ^ 58"
  shows "maxEntries \<le> shardCount * perShardBudget maxEntries shardCount"
    "0 < perShardBudget maxEntries shardCount"
proof -
  define per where "per = (maxEntries + shardCount - 1) div shardCount"
  have ge: "maxEntries \<le> shardCount * per" and pos: "0 < per" and up: "per < 2 ^ 58"
  proof -
    have eq: "shardCount * per + (maxEntries + shardCount - 1) mod shardCount = maxEntries + shardCount - 1"
      unfolding per_def by simp
    have "(maxEntries + shardCount - 1) mod shardCount < shardCount" using assms(2) by simp
    then show ge: "maxEntries \<le> shardCount * per" using eq by linarith
    then show pos: "0 < per" using assms(1,2) by (metis less_le_trans zero_less_mult_pos)
    have "1 * per \<le> shardCount * per" using assms(2) pos by (intro mult_right_mono) auto
    then have "per \<le> maxEntries + shardCount - 1"
      using eq assms(2) pos_mod_sign [of shardCount "maxEntries + shardCount - 1"] by linarith
    then show "per < 2 ^ 58" using assms(3) by linarith
  qed
  have q: "quot64 (wrap64 (maxEntries + shardCount - 1)) shardCount = per"
    using assms by (subst wrap64_id) (simp_all add: per_def)
  have "wrap64 (per * 10) = per * 10" using pos up by (intro wrap64_id) simp_all
  then have "perShardBudget maxEntries shardCount = wrap64 (per + max (per * 10 div 100) 1)"
    using assms pos by (simp add: perShardBudget_def q Let_def)
  also have "\<dots> = per + max (per * 10 div 100) 1" using pos up by (intro wrap64_id) simp_all
  finally have b: "per \<le> perShardBudget maxEntries shardCount" by simp
  then have "shardCount * per \<le> shardCount * perShardBudget maxEntries shardCount"
    using assms(2) by (intro mult_left_mono) auto
  then show "maxEntries \<le> shardCount * perShardBudget maxEntries shardCount" using ge by linarith
  show "0 < perShardBudget maxEntries shardCount" using b pos by linarith
qed

end
