(* ===== verification/Stats.thy ===== *)
theory Stats
  imports Entry Latency_Histogram Policy
begin

text \<open>
  The statistics of a cache (stats.go) and the sharded counter behind its hits and misses
  (sharded_counter.go).

  A counter is a \<open>uint64\<close> and wraps; the live counts \<open>entries\<close> and \<open>bytes\<close> are \<open>int64\<close>. A
  \<open>time.Time\<close> is a number of nanoseconds, \<^const>\<open>None\<close> when it is the zero time. The slot that
  \<open>shardedCounter.Add\<close> draws at random is an argument.

  The lemmas show that a sharded counter cannot be told from a plain one, whatever slots are drawn.
\<close>

section \<open>The sharded counter\<close>

record shardedCounter =
  sl_slots :: "64 word list"
  sl_mask :: "64 word"

definition newShardedCounter :: "int \<Rightarrow> shardedCounter option" where
  "newShardedCounter slots =
     (let slots = (if slots < 1 then 1 else slots)
      in map_option (\<lambda>n. \<lparr>sl_slots = replicate (nat n) 0, sl_mask = word_of_int (n - 1)\<rparr>) (nextPowerOfTwo slots))"

definition sl_Add :: "64 word \<Rightarrow> 64 word \<Rightarrow> shardedCounter \<Rightarrow> shardedCounter" where
  "sl_Add draw delta c =
     (let i = unat (draw AND sl_mask c) in c\<lparr>sl_slots := (sl_slots c)[i := sl_slots c ! i + delta]\<rparr>)"

definition sl_Load :: "shardedCounter \<Rightarrow> 64 word" where
  "sl_Load c = fold (\<lambda>x sum. sum + x) (sl_slots c) 0"

definition sl_Store :: "64 word \<Rightarrow> shardedCounter \<Rightarrow> shardedCounter" where
  "sl_Store v c =
     (if length (sl_slots c) = 1 then c\<lparr>sl_slots := (sl_slots c)[0 := v]\<rparr>
      else let n = of_nat (length (sl_slots c));
               share = v div n;
               rem = v - share * n
           in c\<lparr>sl_slots := map (\<lambda>i. if of_nat i < rem then share + 1 else share) [0..<length (sl_slots c)]\<rparr>)"

definition shardedStatsSize :: "int \<Rightarrow> int" where
  "shardedStatsSize p =
     (let p = (if p \<le> 0 then 1 else p); n = wrap64 (p * 4) in if n > 256 then 256 else n)"

section \<open>The counters of a cache\<close>

record statsCounters =
  sc_hits :: "64 word"
  sc_misses :: "64 word"
  sc_hitsShard :: "shardedCounter option"
  sc_missesShard :: "shardedCounter option"
  sc_inserts :: "64 word"
  sc_updates :: "64 word"
  sc_deletes :: "64 word"
  sc_evictions :: "64 word"
  sc_expirations :: "64 word"
  sc_evictionsByReason :: "evictionReason \<Rightarrow> 64 word"
  sc_loadsTotal :: "64 word"
  sc_loadHits :: "64 word"
  sc_loadErrors :: "64 word"
  sc_loadCoalesced :: "64 word"
  sc_eventsDropped :: "64 word"
  sc_hashCollisions :: "64 word"
  sc_admissionRejects :: "64 word"
  sc_loadTimeouts :: "64 word"
  sc_loadRateLimited :: "64 word"
  sc_loadCachedError :: "64 word"
  sc_refreshAhead :: "64 word"
  sc_staleWhileRevalidate :: "64 word"
  sc_negativeHits :: "64 word"
  sc_resizes :: "64 word"
  sc_tagInvalidations :: "64 word"
  sc_loadLatency :: histogram
  sc_createdAt :: "int option"
  sc_lastSnapshotAt :: "int option"
  sc_lastResetAt :: "int option"
  sc_entries :: int
  sc_bytes :: int

definition zeroCounters :: statsCounters where
  "zeroCounters = \<lparr>sc_hits = 0, sc_misses = 0, sc_hitsShard = None, sc_missesShard = None, sc_inserts = 0,
     sc_updates = 0, sc_deletes = 0, sc_evictions = 0, sc_expirations = 0, sc_evictionsByReason = (\<lambda>_. 0),
     sc_loadsTotal = 0, sc_loadHits = 0, sc_loadErrors = 0, sc_loadCoalesced = 0, sc_eventsDropped = 0,
     sc_hashCollisions = 0, sc_admissionRejects = 0, sc_loadTimeouts = 0, sc_loadRateLimited = 0,
     sc_loadCachedError = 0, sc_refreshAhead = 0, sc_staleWhileRevalidate = 0, sc_negativeHits = 0,
     sc_resizes = 0, sc_tagInvalidations = 0, sc_loadLatency = newHistogram, sc_createdAt = None,
     sc_lastSnapshotAt = None, sc_lastResetAt = None, sc_entries = 0, sc_bytes = 0\<rparr>"

text \<open>\<open>newStatsCounters\<close>; \<open>procs\<close> is \<open>runtime.GOMAXPROCS(0)\<close>.\<close>

definition newStatsCounters :: "bool \<Rightarrow> int \<Rightarrow> int \<Rightarrow> statsCounters" where
  "newStatsCounters sharded procs now =
     (let c = zeroCounters\<lparr>sc_createdAt := Some now\<rparr>
      in if sharded
         then let slots = shardedStatsSize procs
              in c\<lparr>sc_hitsShard := newShardedCounter slots, sc_missesShard := newShardedCounter slots\<rparr>
         else c)"

definition stampSnapshot :: "int \<Rightarrow> statsCounters \<Rightarrow> statsCounters" where
  "stampSnapshot at s = s\<lparr>sc_lastSnapshotAt := Some at\<rparr>"

definition stampReset :: "int \<Rightarrow> statsCounters \<Rightarrow> statsCounters" where
  "stampReset at s = s\<lparr>sc_lastResetAt := Some at\<rparr>"

definition addHit :: "64 word \<Rightarrow> statsCounters \<Rightarrow> statsCounters" where
  "addHit draw s = (case sc_hitsShard s of
     Some c \<Rightarrow> s\<lparr>sc_hitsShard := Some (sl_Add draw 1 c)\<rparr> | None \<Rightarrow> s\<lparr>sc_hits := sc_hits s + 1\<rparr>)"

definition addMiss :: "64 word \<Rightarrow> statsCounters \<Rightarrow> statsCounters" where
  "addMiss draw s = (case sc_missesShard s of
     Some c \<Rightarrow> s\<lparr>sc_missesShard := Some (sl_Add draw 1 c)\<rparr> | None \<Rightarrow> s\<lparr>sc_misses := sc_misses s + 1\<rparr>)"

definition readHits :: "statsCounters \<Rightarrow> 64 word" where
  "readHits s = (case sc_hitsShard s of Some c \<Rightarrow> sl_Load c | None \<Rightarrow> sc_hits s)"

definition readMisses :: "statsCounters \<Rightarrow> 64 word" where
  "readMisses s = (case sc_missesShard s of Some c \<Rightarrow> sl_Load c | None \<Rightarrow> sc_misses s)"

text \<open>\<open>t.Sub(u)\<close> saturates at the ends of the \<open>int64\<close> range.\<close>

definition time_Sub :: "int \<Rightarrow> int \<Rightarrow> int" where
  "time_Sub t u = max (- (2 ^ 63)) (min (2 ^ 63 - 1) (t - u))"

record stats =
  s_Hits :: "64 word"
  s_Misses :: "64 word"
  s_Inserts :: "64 word"
  s_Updates :: "64 word"
  s_Deletes :: "64 word"
  s_Evictions :: "64 word"
  s_Expirations :: "64 word"
  s_EvictionsByReason :: "evictionReason \<Rightarrow> 64 word"
  s_LoadsTotal :: "64 word"
  s_LoadHits :: "64 word"
  s_LoadErrors :: "64 word"
  s_LoadCoalesced :: "64 word"
  s_EventsDropped :: "64 word"
  s_HashCollisions :: "64 word"
  s_AdmissionRejects :: "64 word"
  s_LoadTimeouts :: "64 word"
  s_LoadRateLimited :: "64 word"
  s_LoadCachedError :: "64 word"
  s_RefreshAhead :: "64 word"
  s_StaleWhileRevalidate :: "64 word"
  s_NegativeHits :: "64 word"
  s_Resizes :: "64 word"
  s_TagInvalidations :: "64 word"
  s_TagsTracked :: int
  s_TagCleanupBacklog :: int
  s_Compactions :: "64 word"
  s_Uptime :: int
  s_LastSnapshotAt :: "int option"
  s_LastResetAt :: "int option"
  s_PolicyName :: string
  s_PolicyDetail :: "policyDetail option"
  s_LoadLatency :: int
  s_LoadLatencyP50 :: int
  s_LoadLatencyP99 :: int
  s_Entries :: int
  s_Bytes :: int
  s_Capacity :: int
  s_At :: int

definition sc_snapshot :: "int \<Rightarrow> statsCounters \<Rightarrow> stats" where
  "sc_snapshot now s =
     (let ls = hist_Snapshot (sc_loadLatency s)
      in \<lparr>s_Hits = readHits s, s_Misses = readMisses s, s_Inserts = sc_inserts s,
          s_Updates = sc_updates s, s_Deletes = sc_deletes s, s_Evictions = sc_evictions s,
          s_Expirations = sc_expirations s, s_EvictionsByReason = sc_evictionsByReason s,
          s_LoadsTotal = sc_loadsTotal s, s_LoadHits = sc_loadHits s, s_LoadErrors = sc_loadErrors s,
          s_LoadCoalesced = sc_loadCoalesced s, s_EventsDropped = sc_eventsDropped s,
          s_HashCollisions = sc_hashCollisions s, s_AdmissionRejects = sc_admissionRejects s,
          s_LoadTimeouts = sc_loadTimeouts s, s_LoadRateLimited = sc_loadRateLimited s,
          s_LoadCachedError = sc_loadCachedError s, s_RefreshAhead = sc_refreshAhead s,
          s_StaleWhileRevalidate = sc_staleWhileRevalidate s, s_NegativeHits = sc_negativeHits s,
          s_Resizes = sc_resizes s, s_TagInvalidations = sc_tagInvalidations s,
          s_TagsTracked = 0, s_TagCleanupBacklog = 0, s_Compactions = 0,
          s_Uptime = (case sc_createdAt s of Some t \<Rightarrow> time_Sub now t | None \<Rightarrow> 0),
          s_LastSnapshotAt = sc_lastSnapshotAt s, s_LastResetAt = sc_lastResetAt s,
          s_PolicyName = [], s_PolicyDetail = None,
          s_LoadLatency = sn_Mean ls, s_LoadLatencyP50 = sn_P50 ls, s_LoadLatencyP99 = sn_P99 ls,
          s_Entries = sc_entries s, s_Bytes = sc_bytes s, s_Capacity = 0, s_At = now\<rparr>)"

definition sc_reset :: "statsCounters \<Rightarrow> statsCounters" where
  "sc_reset s = s\<lparr>sc_hits := 0, sc_misses := 0, sc_hitsShard := map_option (sl_Store 0) (sc_hitsShard s),
     sc_missesShard := map_option (sl_Store 0) (sc_missesShard s), sc_inserts := 0, sc_updates := 0,
     sc_deletes := 0, sc_evictions := 0, sc_expirations := 0, sc_loadsTotal := 0, sc_loadHits := 0,
     sc_loadErrors := 0, sc_loadCoalesced := 0, sc_eventsDropped := 0, sc_hashCollisions := 0,
     sc_admissionRejects := 0, sc_loadTimeouts := 0, sc_loadRateLimited := 0, sc_loadCachedError := 0,
     sc_refreshAhead := 0, sc_staleWhileRevalidate := 0, sc_negativeHits := 0, sc_resizes := 0,
     sc_tagInvalidations := 0, sc_loadLatency := hist_Reset (sc_loadLatency s),
     sc_evictionsByReason := (\<lambda>_. 0)\<rparr>"

section \<open>A sharded counter counts\<close>

text \<open>The shape every counter has: \<open>2 ^ b\<close> slots and the mask \<open>2 ^ b - 1\<close>.\<close>

definition sl_ok :: "shardedCounter \<Rightarrow> bool" where
  "sl_ok c \<longleftrightarrow> (\<exists>b \<le> 62. length (sl_slots c) = 2 ^ b \<and> sl_mask c = word_of_int (2 ^ b - 1))"

lemma sl_Load_sum: "sl_Load c = sum_list (sl_slots c)"
proof -
  have "fold (\<lambda>x s. s + x) xs a = a + sum_list xs" for xs :: "64 word list" and a
    by (induction xs arbitrary: a) (simp_all add: add.assoc)
  then show ?thesis by (simp add: sl_Load_def)
qed

lemma newShardedCounter_ok:
  assumes "slots \<le> 2 ^ 62"
  obtains c where "newShardedCounter slots = Some c" and "sl_ok c" and "sl_Load c = 0"
proof -
  have "(if slots < 1 then 1 else slots) \<le> 2 ^ 62" using assms by simp
  from nextPowerOfTwo_pow [OF this]
  obtain b where b: "b \<le> 62" "nextPowerOfTwo (if slots < 1 then 1 else slots) = Some (2 ^ b)" by blast
  have n: "nat ((2 :: int) ^ b) = 2 ^ b" by (simp add: nat_power_eq)
  show ?thesis
    by (rule that [of "\<lparr>sl_slots = replicate (2 ^ b) 0, sl_mask = word_of_int (2 ^ b - 1)\<rparr>"])
      (use b in \<open>auto simp: newShardedCounter_def Let_def sl_ok_def sl_Load_sum sum_list_replicate n\<close>)
qed

lemma sl_index: "sl_ok c \<Longrightarrow> unat (draw AND sl_mask c) < length (sl_slots c)"
proof -
  assume "sl_ok c"
  then obtain b where b: "b \<le> 62" "length (sl_slots c) = 2 ^ b" "sl_mask c = word_of_int (2 ^ b - 1)"
    by (auto simp: sl_ok_def)
  have "sl_mask c = mask b" using b(3) by (simp add: mask_eq_exp_minus_1)
  then have "draw AND sl_mask c = take_bit b draw" by (simp add: take_bit_eq_mask)
  moreover have "unat (take_bit b draw) = take_bit b (unat draw)" by (rule unsigned_take_bit_eq)
  ultimately show ?thesis using b(2) by simp
qed

lemma sl_Add_ok: "sl_ok c \<Longrightarrow> sl_ok (sl_Add draw d c)"
  by (simp add: sl_ok_def sl_Add_def Let_def)

lemma sl_Store_ok: "sl_ok c \<Longrightarrow> sl_ok (sl_Store v c)"
  by (auto simp: sl_ok_def sl_Store_def Let_def)

lemma sum_list_bump: "i < length xs \<Longrightarrow> sum_list (xs[i := xs ! i + d]) = sum_list xs + d"
  for d :: "64 word"
  by (induction xs arbitrary: i) (auto simp: add_ac split: nat.split)

lemma sl_Load_Add: "sl_ok c \<Longrightarrow> sl_Load (sl_Add draw d c) = sl_Load c + d"
  using sl_index [of c draw] by (simp add: sl_Load_sum sl_Add_def Let_def sum_list_bump)

lemma sum_spread:
  "sum_list (map (\<lambda>i. if i < r then share + 1 else share) [0..<n]) = of_nat n * share + of_nat (min r n)"
  for share :: "64 word"
proof (induction n)
  case (Suc n)
  have "min r (Suc n) = (if n < r then Suc (min r n) else min r n)" by auto
  with Suc show ?case by (simp add: algebra_simps)
qed simp

lemma sl_Load_Store: 
  assumes "sl_ok c"
  shows "sl_Load (sl_Store v c) = v"
proof (cases "length (sl_slots c) = 1")
  case True
  then obtain x where "sl_slots c = [x]" by (auto simp: length_Suc_conv)
  then show ?thesis by (simp add: sl_Load_sum sl_Store_def)
next
  case False
  define n where "n = length (sl_slots c)"
  obtain b where b: "b \<le> 62" "n = 2 ^ b" using assms by (auto simp: sl_ok_def n_def)
  have "(2 :: nat) ^ b \<le> 2 ^ 62" using b(1) by (intro power_increasing) auto
  then have n: "0 < n" "n < 2 ^ 64" using b(2) by simp_all
  have un: "unat (of_nat n :: 64 word) = n" using n(2) by (simp add: unsigned_of_nat take_bit_nat_eq_self)
  define share where "share = v div of_nat n"
  define r where "r = unat v mod n"
  have r: "r < n" using n(1) by (simp add: r_def)
  have rem: "v - share * of_nat n = of_nat r"
    unfolding share_def minus_div_mult_eq_mod r_def
    using r n(2) by (simp add: word_unat_eq_iff unat_mod_distrib un unsigned_of_nat take_bit_nat_eq_self r_def)
  have cmp: "(of_nat i :: 64 word) < of_nat r \<longleftrightarrow> i < r" if "i < n" for i
    using that r n(2) by (subst of_nat_word_less_iff) (simp add: take_bit_nat_eq_self)
  have "sl_slots (sl_Store v c) = map (\<lambda>i. if of_nat i < v - share * of_nat n then share + 1 else share) [0..<n]"
    using False by (simp add: sl_Store_def Let_def n_def share_def)
  also have "\<dots> = map (\<lambda>i. if i < r then share + 1 else share) [0..<n]"
    using cmp by (simp add: rem)
  finally have "sl_Load (sl_Store v c) = of_nat n * share + of_nat r"
    using sum_spread [where r = r and n = n and share = share] r by (simp add: sl_Load_sum)
  then show ?thesis using rem by (simp add: algebra_simps)
qed

lemma sl_adds_ok: "sl_ok c \<Longrightarrow> sl_ok (fold (\<lambda>(draw, d). sl_Add draw d) adds c)"
  by (induction adds arbitrary: c) (auto simp: sl_Add_ok)

lemma sl_adds_Load:
  "sl_ok c \<Longrightarrow> sl_Load (fold (\<lambda>(draw, d). sl_Add draw d) adds c) = sl_Load c + sum_list (map snd adds)"
  by (induction adds arbitrary: c) (auto simp: sl_Add_ok sl_Load_Add add.assoc)

text \<open>C31: A sharded counter reads back what it was given. Whatever number of slots it was made with and
  whatever slots its additions drew, \<open>Load\<close> after \<open>Store(v)\<close> is \<open>v\<close> although the value is spread over
  the slots, and additions after that raise it by their sum (modulo \<open>2 ^ 64\<close>).\<close>

theorem sharded_counter_roundtrip:
  assumes "slots \<le> 2 ^ 62"
  shows "\<exists>c. newShardedCounter slots = Some c \<and>
    sl_Load (fold (\<lambda>(draw, d). sl_Add draw d) later
      (sl_Store v (fold (\<lambda>(draw, d). sl_Add draw d) before c))) = v + sum_list (map snd later)"
proof -
  obtain c where c: "newShardedCounter slots = Some c" "sl_ok c"
    by (rule newShardedCounter_ok [OF assms]) (rule that)
  show ?thesis
    using sl_adds_Load [OF sl_Store_ok [OF sl_adds_ok [OF c(2)]]] sl_Load_Store [OF sl_adds_ok [OF c(2)]] c(1)
    by simp
qed

theorem sharded_counter_roundtrip_witness:
  "\<exists>c. newShardedCounter 3 = Some c \<and>
    sl_Load (fold (\<lambda>(draw, d). sl_Add draw d) [(6, 5)] (sl_Store 11 (fold (\<lambda>(draw, d). sl_Add draw d) [(9, 1)] c))) = 16"
  using sharded_counter_roundtrip [of 3 "[(6, 5)]" 11 "[(9, 1)]"] by simp

section \<open>Sharding the statistics does not change them\<close>

text \<open>The events that touch the sharded counters, and the plain counters a set of counters stands
  for.\<close>

datatype stats_event = SHit "64 word" | SMiss "64 word" | SReset int

fun stats_step :: "stats_event \<Rightarrow> statsCounters \<Rightarrow> statsCounters" where
  "stats_step (SHit draw) s = addHit draw s"
| "stats_step (SMiss draw) s = addMiss draw s"
| "stats_step (SReset at) s = stampReset at (sc_reset s)"

definition flatten :: "statsCounters \<Rightarrow> statsCounters" where
  "flatten s = s\<lparr>sc_hits := readHits s, sc_misses := readMisses s, sc_hitsShard := None, sc_missesShard := None\<rparr>"

definition shards_ok :: "statsCounters \<Rightarrow> bool" where
  "shards_ok s \<longleftrightarrow> pred_option sl_ok (sc_hitsShard s) \<and> pred_option sl_ok (sc_missesShard s)"

lemma shards_ok_step: "shards_ok s \<Longrightarrow> shards_ok (stats_step e s)"
  by (cases e) (auto simp: shards_ok_def addHit_def addMiss_def stampReset_def sc_reset_def sl_Add_ok
      sl_Store_ok pred_option_def split: option.splits)

lemma flatten_step: "shards_ok s \<Longrightarrow> flatten (stats_step e s) = stats_step e (flatten s)"
  by (cases e) (auto simp: shards_ok_def flatten_def addHit_def addMiss_def stampReset_def sc_reset_def
      readHits_def readMisses_def sl_Load_Add sl_Load_Store split: option.splits)

lemma flatten_run: "shards_ok s \<Longrightarrow> flatten (fold stats_step evs s) = fold stats_step evs (flatten s)"
  by (induction evs arbitrary: s) (simp_all add: shards_ok_step flatten_step)

lemma snapshot_flatten: "sc_snapshot now (flatten s) = sc_snapshot now s"
  by (simp add: sc_snapshot_def flatten_def readHits_def readMisses_def split: option.split)

lemma shardedStatsSize_le: "shardedStatsSize p \<le> 256"
  by (simp add: shardedStatsSize_def Let_def)

lemma new_sharded:
  "shards_ok (newStatsCounters True procs now) \<and>
   flatten (newStatsCounters True procs now) = flatten (newStatsCounters False procs now)"
proof -
  have "shardedStatsSize procs \<le> 2 ^ 62" using shardedStatsSize_le [of procs] by simp
  then obtain c where "newShardedCounter (shardedStatsSize procs) = Some c" "sl_ok c" "sl_Load c = 0"
    by (rule newShardedCounter_ok)
  then show ?thesis
    by (simp add: newStatsCounters_def Let_def shards_ok_def flatten_def readHits_def readMisses_def zeroCounters_def)
qed

text \<open>C32: The statistics a cache reports do not depend on \<open>WithShardedStats\<close>: whatever the number of
  processors, the random slots and the order of hits, misses and resets, the snapshot of the sharded
  counters equals the snapshot of the plain ones.\<close>

theorem sharded_stats_exact:
  "sc_snapshot t (fold stats_step evs (newStatsCounters True procs now)) =
   sc_snapshot t (fold stats_step evs (newStatsCounters False procs now))"
proof -
  have "shards_ok (newStatsCounters False procs now)"
    by (simp add: newStatsCounters_def shards_ok_def zeroCounters_def)
  from flatten_run [OF this] flatten_run [OF conjunct1 [OF new_sharded]]
  have "flatten (fold stats_step evs (newStatsCounters True procs now)) =
      flatten (fold stats_step evs (newStatsCounters False procs now))"
    using new_sharded by simp
  then show ?thesis by (metis snapshot_flatten)
qed

end
