(* ===== verification/Flights.thy ===== *)
theory Flights
  imports Entry "HOL-Library.AList"
begin

text \<open>
  The loads in progress on a shard (loader.go): \<open>inflight\<close> holds the load callers of a key join,
  \<open>orphans\<close> a load whose callers all gave up, \<open>watches\<close> the tokens of copies in progress. A flight
  and a token are objects the maps point at; they live in a table, addressed by number, so that a
  goroutine's own pointer to its flight and the maps' pointers can be compared as the code does.

  A flight also records the key its goroutine was started with and whether it still runs: the two
  are arguments and control state of \<open>runLoader\<close> in the code.

  The lemmas show that a write to a key reaches every load of the key still running: it is marked
  superseded, and so will not store what it loaded. The reverse is also shown: nothing else than a
  write to the key, a clear or a newer load of the key marks it.
\<close>

record 'k flight =
  f_key :: 'k
  f_refs :: int
  f_superseded :: bool
  f_running :: bool

record 'k flights =
  fl_inflight :: "('k \<times> nat) list"
  fl_orphans :: "('k \<times> nat) list"
  fl_watches :: "('k \<times> nat) list"
  fl_table :: "nat \<Rightarrow> 'k flight option"
  fl_tokens :: "nat \<Rightarrow> bool"
  fl_next :: nat

definition newFlights :: "'k flights" where
  "newFlights = \<lparr>fl_inflight = [], fl_orphans = [], fl_watches = [], fl_table = Map.empty,
     fl_tokens = (\<lambda>_. False), fl_next = 0\<rparr>"

text \<open>Setting \<open>f.superseded\<close> through a pointer.\<close>

definition fl_mark :: "nat \<Rightarrow> 'k flights \<Rightarrow> 'k flights" where
  "fl_mark f s = s\<lparr>fl_table := (fl_table s)(f := map_option (\<lambda>x. x\<lparr>f_superseded := True\<rparr>) (fl_table s f))\<rparr>"

definition supersedeFlight :: "'k \<Rightarrow> 'k flights \<Rightarrow> 'k flights" where
  "supersedeFlight key s =
     (let s = (case map_of (fl_inflight s) key of None \<Rightarrow> s | Some f \<Rightarrow> fl_mark f s);
          s = (case map_of (fl_orphans s) key of None \<Rightarrow> s
               | Some f \<Rightarrow> (fl_mark f s)\<lparr>fl_orphans := AList.delete key (fl_orphans s)\<rparr>)
      in case map_of (fl_watches s) key of None \<Rightarrow> s
         | Some w \<Rightarrow> s\<lparr>fl_tokens := (fl_tokens s)(w := True), fl_watches := AList.delete key (fl_watches s)\<rparr>)"

definition fl_markAll :: "nat list \<Rightarrow> 'k flights \<Rightarrow> 'k flights" where
  "fl_markAll fs s = fold fl_mark fs s"

definition supersedeAllFlights :: "'k flights \<Rightarrow> 'k flights" where
  "supersedeAllFlights s =
     (let s = fl_markAll (map snd (fl_inflight s)) s;
          s = (fl_markAll (map snd (fl_orphans s)) s)\<lparr>fl_orphans := []\<rparr>
      in s\<lparr>fl_tokens := fold (\<lambda>w t. t(w := True)) (map snd (fl_watches s)) (fl_tokens s),
           fl_watches := []\<rparr>)"

definition orphanFlight :: "'k \<Rightarrow> nat \<Rightarrow> 'k flights \<Rightarrow> 'k flights" where
  "orphanFlight key f s =
     (if map_of (fl_inflight s) key \<noteq> Some f then s
      else let s = s\<lparr>fl_inflight := AList.delete key (fl_inflight s)\<rparr>;
               s = (case map_of (fl_orphans s) key of None \<Rightarrow> s | Some prev \<Rightarrow> fl_mark prev s)
           in s\<lparr>fl_orphans := AList.update key f (fl_orphans s)\<rparr>)"

text \<open>\<open>newFlightCall\<close> and \<open>startFlight\<close>: a flight with one waiter is allocated and registered.\<close>

definition startFlight :: "'k \<Rightarrow> 'k flights \<Rightarrow> nat \<times> 'k flights" where
  "startFlight key s =
     (let f = fl_next s;
          s = s\<lparr>fl_table := (fl_table s)(f \<mapsto> \<lparr>f_key = key, f_refs = 1, f_superseded = False, f_running = True\<rparr>),
                fl_next := f + 1\<rparr>;
          s = (case map_of (fl_orphans s) key of None \<Rightarrow> s
               | Some prev \<Rightarrow> (fl_mark prev s)\<lparr>fl_orphans := AList.delete key (fl_orphans s)\<rparr>)
      in (f, s\<lparr>fl_inflight := AList.update key f (fl_inflight s)\<rparr>))"

definition leaveInflight :: "'k \<Rightarrow> nat \<Rightarrow> 'k flights \<Rightarrow> 'k flights" where
  "leaveInflight key f s =
     (let s = (if map_of (fl_inflight s) key = Some f
               then s\<lparr>fl_inflight := AList.delete key (fl_inflight s)\<rparr> else s)
      in if map_of (fl_orphans s) key = Some f
         then s\<lparr>fl_orphans := AList.delete key (fl_orphans s)\<rparr> else s)"

definition fl_join :: "nat \<Rightarrow> 'k flights \<Rightarrow> 'k flights" where
  "fl_join f s = s\<lparr>fl_table := (fl_table s)(f := map_option (\<lambda>x. x\<lparr>f_refs := f_refs x + 1\<rparr>) (fl_table s f))\<rparr>"

text \<open>The branch of \<open>waitOrLeave\<close> for a caller whose context ended.\<close>

definition fl_leave :: "'k \<Rightarrow> nat \<Rightarrow> 'k flights \<Rightarrow> 'k flights" where
  "fl_leave key f s =
     (case fl_table s f of None \<Rightarrow> s
      | Some x \<Rightarrow>
          let s = s\<lparr>fl_table := (fl_table s)(f \<mapsto> x\<lparr>f_refs := f_refs x - 1\<rparr>)\<rparr>
          in if f_refs x - 1 = 0 then orphanFlight key f s else s)"

fun supersedesFlight :: "evictionReason \<Rightarrow> bool" where
  "supersedesFlight EvictReasonCapacity = False"
| "supersedesFlight EvictReasonExpired = False"
| "supersedesFlight EvictReasonExpireFunc = False"
| "supersedesFlight EvictReasonResize = False"
| "supersedesFlight _ = True"

section \<open>The life of a load\<close>

text \<open>What happens to the loads of a shard: a caller starts one when none is in flight
  (\<open>loadOrJoin\<close>, \<open>startRefreshLocked\<close>), joins it, gives up; the goroutine finishes; the key is written,
  deleted or invalidated; the shard is cleared.\<close>

datatype 'k fl_event = FlStart 'k | FlJoin 'k | FlLeave nat | FlFinish nat | FlWrite 'k | FlClear

definition fl_finish :: "nat \<Rightarrow> 'k flights \<Rightarrow> 'k flights" where
  "fl_finish f s =
     (case fl_table s f of None \<Rightarrow> s
      | Some x \<Rightarrow> leaveInflight (f_key x) f (s\<lparr>fl_table := (fl_table s)(f \<mapsto> x\<lparr>f_running := False\<rparr>)\<rparr>))"

fun fl_step :: "'k fl_event \<Rightarrow> 'k flights \<Rightarrow> 'k flights" where
  "fl_step (FlStart k) s = (if map_of (fl_inflight s) k = None then snd (startFlight k s) else s)"
| "fl_step (FlJoin k) s = (case map_of (fl_inflight s) k of None \<Rightarrow> s | Some f \<Rightarrow> fl_join f s)"
| "fl_step (FlLeave f) s = (case fl_table s f of None \<Rightarrow> s | Some x \<Rightarrow> fl_leave (f_key x) f s)"
| "fl_step (FlFinish f) s = fl_finish f s"
| "fl_step (FlWrite k) s = supersedeFlight k s"
| "fl_step FlClear s = supersedeAllFlights s"

text \<open>Every running load is registered for its key or superseded; the maps point at allocated
  flights of their key, and no flight is both in flight and orphaned.\<close>

definition key_of :: "'k flights \<Rightarrow> nat \<Rightarrow> 'k option" where
  "key_of s f = map_option f_key (fl_table s f)"

definition fl_ok :: "'k flights \<Rightarrow> bool" where
  "fl_ok s \<longleftrightarrow>
     (\<forall>f x. fl_table s f = Some x \<longrightarrow> f < fl_next s \<and> (f_running x \<longrightarrow> \<not> f_superseded x \<longrightarrow>
        map_of (fl_inflight s) (f_key x) = Some f \<or> map_of (fl_orphans s) (f_key x) = Some f)) \<and>
     (\<forall>k f. map_of (fl_inflight s) k = Some f \<longrightarrow> key_of s f = Some k) \<and>
     (\<forall>k f. map_of (fl_orphans s) k = Some f \<longrightarrow> key_of s f = Some k) \<and>
     (\<forall>k f. map_of (fl_inflight s) k = Some f \<longrightarrow> map_of (fl_orphans s) k = None)"

section \<open>What the operations do to the maps and the table\<close>

lemmas alist_conv = delete_conv' update_conv'

lemma fl_mark_fields [simp]:
  "fl_inflight (fl_mark f s) = fl_inflight s" "fl_orphans (fl_mark f s) = fl_orphans s"
  "fl_watches (fl_mark f s) = fl_watches s" "fl_next (fl_mark f s) = fl_next s"
  by (simp_all add: fl_mark_def)

abbreviation marked :: "'k flight \<Rightarrow> 'k flight" where
  "marked x \<equiv> x\<lparr>f_superseded := True\<rparr>"

lemma fl_mark_table:
  "fl_table (fl_mark f s) g = (if g = f then map_option marked (fl_table s g) else fl_table s g)"
  by (simp add: fl_mark_def)

lemma fl_markAll_fields [simp]:
  "fl_inflight (fl_markAll fs s) = fl_inflight s" "fl_orphans (fl_markAll fs s) = fl_orphans s"
  "fl_watches (fl_markAll fs s) = fl_watches s" "fl_next (fl_markAll fs s) = fl_next s"
  by (induction fs arbitrary: s) (simp_all add: fl_markAll_def)

lemma fl_markAll_table:
  "fl_table (fl_markAll fs s) g = (if g \<in> set fs then map_option marked (fl_table s g) else fl_table s g)"
proof (induction fs arbitrary: s)
  case (Cons f fs)
  have "fl_table (fl_markAll (f # fs) s) g = fl_table (fl_markAll fs (fl_mark f s)) g"
    by (simp add: fl_markAll_def)
  then show ?case unfolding Cons.IH by (cases "fl_table s g") (auto simp: fl_mark_table)
qed (simp add: fl_markAll_def)

lemma supersedeFlight_maps [simp]:
  "fl_inflight (supersedeFlight k s) = fl_inflight s" "fl_next (supersedeFlight k s) = fl_next s"
  "map_of (fl_orphans (supersedeFlight k s)) = (map_of (fl_orphans s))(k := None)"
  by (auto simp: supersedeFlight_def Let_def alist_conv split: option.split)

lemma supersedeFlight_table:
  "fl_table (supersedeFlight k s) g =
     (if map_of (fl_inflight s) k = Some g \<or> map_of (fl_orphans s) k = Some g
      then map_option marked (fl_table s g) else fl_table s g)"
  by (cases "fl_table s g")
    (auto simp: supersedeFlight_def Let_def fl_mark_table split: option.split)

lemma supersedeAllFlights_maps [simp]:
  "fl_inflight (supersedeAllFlights s) = fl_inflight s" "fl_next (supersedeAllFlights s) = fl_next s"
  "fl_orphans (supersedeAllFlights s) = []"
  by (simp_all add: supersedeAllFlights_def Let_def)

lemma supersedeAllFlights_table:
  "fl_table (supersedeAllFlights s) g =
     (if g \<in> set (map snd (fl_inflight s)) \<or> g \<in> set (map snd (fl_orphans s))
      then map_option marked (fl_table s g) else fl_table s g)"
  by (cases "fl_table s g") (simp_all add: supersedeAllFlights_def Let_def fl_markAll_table)

lemma orphanFlight_maps:
  assumes "map_of (fl_inflight s) k = Some f" and "map_of (fl_orphans s) k = None"
  shows "map_of (fl_inflight (orphanFlight k f s)) = (map_of (fl_inflight s))(k := None)"
    "map_of (fl_orphans (orphanFlight k f s)) = (map_of (fl_orphans s))(k \<mapsto> f)"
    "fl_table (orphanFlight k f s) = fl_table s" "fl_next (orphanFlight k f s) = fl_next s"
  using assms by (simp_all add: orphanFlight_def Let_def alist_conv)

lemma startFlight_maps:
  "fst (startFlight k s) = fl_next s" "fl_next (snd (startFlight k s)) = fl_next s + 1"
  "map_of (fl_inflight (snd (startFlight k s))) = (map_of (fl_inflight s))(k \<mapsto> fl_next s)"
  "map_of (fl_orphans (snd (startFlight k s))) = (map_of (fl_orphans s))(k := None)"
  by (auto simp: startFlight_def Let_def alist_conv split: option.split)

lemma startFlight_table:
  assumes "map_of (fl_orphans s) k \<noteq> Some (fl_next s)"
  shows "fl_table (snd (startFlight k s)) g =
    (if g = fl_next s then Some \<lparr>f_key = k, f_refs = 1, f_superseded = False, f_running = True\<rparr>
     else if map_of (fl_orphans s) k = Some g then map_option marked (fl_table s g) else fl_table s g)"
  using assms by (auto simp: startFlight_def Let_def fl_mark_table split: option.split)

lemma leaveInflight_maps [simp]:
  "fl_table (leaveInflight k f s) = fl_table s" "fl_next (leaveInflight k f s) = fl_next s"
  "map_of (fl_inflight (leaveInflight k f s)) =
     (if map_of (fl_inflight s) k = Some f then (map_of (fl_inflight s))(k := None) else map_of (fl_inflight s))"
  "map_of (fl_orphans (leaveInflight k f s)) =
     (if map_of (fl_orphans s) k = Some f then (map_of (fl_orphans s))(k := None) else map_of (fl_orphans s))"
  by (simp_all add: leaveInflight_def Let_def alist_conv)

lemma fl_join_fields [simp]:
  "fl_inflight (fl_join f s) = fl_inflight s" "fl_orphans (fl_join f s) = fl_orphans s"
  "fl_next (fl_join f s) = fl_next s"
  "fl_table (fl_join f s) = (fl_table s)(f := map_option (\<lambda>x. x\<lparr>f_refs := f_refs x + 1\<rparr>) (fl_table s f))"
  by (simp_all add: fl_join_def)

section \<open>The invariant\<close>

lemma fl_okD:
  assumes "fl_ok s"
  shows "fl_table s f = Some x \<Longrightarrow> f < fl_next s"
    "fl_table s f = Some x \<Longrightarrow> f_running x \<Longrightarrow> \<not> f_superseded x \<Longrightarrow>
      map_of (fl_inflight s) (f_key x) = Some f \<or> map_of (fl_orphans s) (f_key x) = Some f"
    "map_of (fl_inflight s) k = Some f \<Longrightarrow> key_of s f = Some k"
    "map_of (fl_orphans s) k = Some f \<Longrightarrow> key_of s f = Some k"
    "map_of (fl_inflight s) k = Some f \<Longrightarrow> map_of (fl_orphans s) k = None"
  using assms unfolding fl_ok_def by blast+

lemma key_of_fresh: "fl_ok s \<Longrightarrow> key_of s (fl_next s) = None"
  using fl_okD(1) [of s "fl_next s"] by (cases "fl_table s (fl_next s)") (auto simp: key_of_def)

lemma key_of_mark [simp]: "key_of (fl_mark g s) f = key_of s f"
  by (simp add: key_of_def fl_mark_table option.map_comp comp_def)

lemma key_of_supersede [simp]:
  "key_of (supersedeFlight k s) f = key_of s f" "key_of (supersedeAllFlights s) f = key_of s f"
  "key_of (leaveInflight k g s) f = key_of s f" "key_of (fl_join g s) f = key_of s f"
  by (simp_all add: key_of_def supersedeFlight_table supersedeAllFlights_table option.map_comp comp_def)

lemma fl_ok_new: "fl_ok newFlights"
  by (simp add: fl_ok_def newFlights_def)

lemma map_of_snd: "map_of m k = Some f \<Longrightarrow> f \<in> set (map snd m)"
  by (force dest: map_of_SomeD)

lemma fl_ok_supersede:
  assumes "fl_ok s"
  shows "fl_ok (supersedeFlight k s)"
  using assms unfolding fl_ok_def supersedeFlight_maps supersedeFlight_table key_of_supersede
  by (auto split: if_splits)

lemma fl_ok_supersedeAll:
  assumes "fl_ok s"
  shows "fl_ok (supersedeAllFlights s)"
  using assms map_of_snd [of "fl_inflight s"] map_of_snd [of "fl_orphans s"]
  unfolding fl_ok_def supersedeAllFlights_maps supersedeAllFlights_table key_of_supersede
  by (auto simp del: set_map split: if_splits) blast

lemma fl_ok_start:
  assumes ok: "fl_ok s" and "map_of (fl_inflight s) k = None"
  shows "fl_ok (snd (startFlight k s))"
proof -
  have ne: "map_of (fl_orphans s) k \<noteq> Some (fl_next s)"
    using fl_okD(4) [OF ok, of k "fl_next s"] key_of_fresh [OF ok] by auto
  have key: "key_of (snd (startFlight k s)) f = (if f = fl_next s then Some k else key_of s f)" for f
    by (simp add: key_of_def startFlight_table [OF ne] option.map_comp comp_def)
  show ?thesis
    using ok assms(2) key_of_fresh [OF ok]
    unfolding fl_ok_def startFlight_maps startFlight_table [OF ne] key
    by (auto simp: less_Suc_eq split: if_splits) fastforce
qed

lemma fl_ok_orphan:
  assumes ok: "fl_ok s" and f: "map_of (fl_inflight s) k = Some f"
  shows "fl_ok (orphanFlight k f s)"
proof -
  note m = orphanFlight_maps [OF f fl_okD(5) [OF ok f]]
  have "key_of (orphanFlight k f s) g = key_of s g" for g by (simp add: key_of_def m)
  then show ?thesis
    using ok f unfolding fl_ok_def m by (auto split: if_splits) fastforce
qed

lemma fl_ok_retable:
  assumes ok: "fl_ok s" and x: "fl_table s f = Some x" and "f_key y = f_key x" and "f_superseded y = f_superseded x"
    and "f_running y \<longrightarrow> f_running x"
  shows "fl_ok (s\<lparr>fl_table := (fl_table s)(f \<mapsto> y)\<rparr>)"
proof -
  have "key_of (s\<lparr>fl_table := (fl_table s)(f \<mapsto> y)\<rparr>) g = key_of s g" for g
    using x assms(3) by (simp add: key_of_def)
  then show ?thesis using assms unfolding fl_ok_def by (auto split: if_splits)
qed

lemma fl_ok_leaveInflight:
  assumes ok: "fl_ok s" and f: "fl_table s f = Some x" "f_key x = k" "\<not> f_running x"
  shows "fl_ok (leaveInflight k f s)"
proof -
  have reg: "map_of (fl_inflight (leaveInflight k f s)) (f_key y) = Some g \<or>
      map_of (fl_orphans (leaveInflight k f s)) (f_key y) = Some g"
    if "fl_table s g = Some y" "f_running y" "\<not> f_superseded y" for g y
  proof -
    have "g \<noteq> f" using that f by auto
    then show ?thesis using fl_okD(2) [OF ok that] by (auto simp: fun_upd_def)
  qed
  show ?thesis
    using reg fl_okD(1,3-5) [OF ok] unfolding fl_ok_def key_of_supersede
    by (auto split: if_splits)
qed

lemma fl_step_ok:
  assumes ok: "fl_ok s"
  shows "fl_ok (fl_step ev s)"
proof (cases ev)
  case (FlJoin k)
  have "fl_ok (fl_join f s)" for f
  proof (cases "fl_table s f")
    case None
    then show ?thesis using ok by (simp add: fl_join_def fun_upd_idem)
  next
    case (Some x)
    then show ?thesis using fl_ok_retable [OF ok Some] by (simp add: fl_join_def)
  qed
  then show ?thesis using FlJoin ok by (simp split: option.split)
next
  case (FlLeave f)
  show ?thesis
  proof (cases "fl_table s f")
    case (Some x)
    let ?s = "s\<lparr>fl_table := (fl_table s)(f \<mapsto> x\<lparr>f_refs := f_refs x - 1\<rparr>)\<rparr>"
    have ok': "fl_ok ?s" using fl_ok_retable [OF ok Some] by simp
    have "fl_ok (orphanFlight (f_key x) f ?s)"
      using fl_ok_orphan [OF ok', of "f_key x" f] ok'
      by (cases "map_of (fl_inflight ?s) (f_key x) = Some f") (simp_all add: orphanFlight_def)
    then show ?thesis
      using FlLeave Some ok' by (cases "f_refs x = 1") (simp_all add: fl_leave_def Let_def)
  qed (use FlLeave ok in simp)
next
  case (FlFinish f)
  show ?thesis
  proof (cases "fl_table s f")
    case (Some x)
    have "fl_ok (s\<lparr>fl_table := (fl_table s)(f \<mapsto> x\<lparr>f_running := False\<rparr>)\<rparr>)"
      using fl_ok_retable [OF ok Some] by simp
    from fl_ok_leaveInflight [OF this, of f "x\<lparr>f_running := False\<rparr>"] show ?thesis
      using FlFinish Some by (simp add: fl_finish_def)
  qed (use FlFinish ok in \<open>simp add: fl_finish_def\<close>)
qed (use ok in \<open>simp_all add: fl_ok_start fl_ok_supersede fl_ok_supersedeAll\<close>)

lemma fl_run_ok: "fl_ok s \<Longrightarrow> fl_ok (fold fl_step evs s)"
  by (induction evs arbitrary: s) (simp_all add: fl_step_ok)

text \<open>A mark is never taken back, and a flight keeps its key.\<close>

definition is_superseded :: "'k flights \<Rightarrow> nat \<Rightarrow> bool" where
  "is_superseded s f \<longleftrightarrow> (\<exists>x. fl_table s f = Some x \<and> f_superseded x)"

definition is_running :: "'k flights \<Rightarrow> 'k \<Rightarrow> nat \<Rightarrow> bool" where
  "is_running s k f \<longleftrightarrow> (\<exists>x. fl_table s f = Some x \<and> f_key x = k \<and> f_running x)"

lemma orphanFlight_table:
  "fl_ok s \<Longrightarrow> fl_table (orphanFlight k f s) = fl_table s"
  using orphanFlight_maps(3) [of s k f] fl_okD(5) [of s k f]
  by (cases "map_of (fl_inflight s) k = Some f") (simp_all add: orphanFlight_def)

lemma fl_step_table:
  assumes ok: "fl_ok s" and x: "fl_table s f = Some x"
  shows "\<exists>y. fl_table (fl_step ev s) f = Some y \<and> f_key y = f_key x \<and> (f_superseded x \<longrightarrow> f_superseded y) \<and>
    (f_superseded y \<longrightarrow> f_superseded x \<or> ev = FlWrite (f_key x) \<or> ev = FlClear \<or> ev = FlStart (f_key x))"
proof (cases ev)
  case (FlStart k)
  have "map_of (fl_orphans s) k \<noteq> Some (fl_next s)"
    using fl_okD(4) [OF ok, of k "fl_next s"] key_of_fresh [OF ok] by auto
  then show ?thesis
    using x FlStart fl_okD(1) [OF ok x] fl_okD(4) [OF ok, of k f]
    by (auto simp: startFlight_table key_of_def)
next
  case (FlLeave g)
  then show ?thesis
    using x fl_ok_retable [OF ok]
    by (auto simp: fl_leave_def Let_def orphanFlight_table split: option.split)
next
  case (FlWrite k)
  then show ?thesis
    using x fl_okD(3) [OF ok, of k f] fl_okD(4) [OF ok, of k f]
    by (auto simp: supersedeFlight_table key_of_def)
qed (use x in \<open>auto simp: supersedeAllFlights_table fl_finish_def split: option.split\<close>)

lemma fl_step_superseded: "fl_ok s \<Longrightarrow> is_superseded s f \<Longrightarrow> is_superseded (fl_step ev s) f"
  using fl_step_table [of s f] unfolding is_superseded_def by blast

lemma fl_run_superseded: "fl_ok s \<Longrightarrow> is_superseded s f \<Longrightarrow> is_superseded (fold fl_step evs s) f"
  by (induction evs arbitrary: s) (simp_all add: fl_step_superseded fl_step_ok)

lemma supersede_reaches:
  assumes "fl_ok s" and "is_running s k f"
  shows "is_superseded (supersedeFlight k s) f"
proof -
  obtain x where x: "fl_table s f = Some x" "f_key x = k" "f_running x"
    using assms(2) by (auto simp: is_running_def)
  then show ?thesis
    using fl_okD(2) [OF assms(1) x(1,3)]
    by (cases "f_superseded x") (auto simp: is_superseded_def supersedeFlight_table)
qed

lemma fl_run_cause:
  assumes "fl_ok s" and "fl_table s f = Some x" and "\<not> f_superseded x"
    and "is_superseded (fold fl_step evs s) f"
  shows "FlWrite (f_key x) \<in> set evs \<or> FlClear \<in> set evs \<or> FlStart (f_key x) \<in> set evs"
  using assms
proof (induction evs arbitrary: s x)
  case Nil
  then show ?case by (simp add: is_superseded_def)
next
  case (Cons ev evs)
  obtain y where y: "fl_table (fl_step ev s) f = Some y" "f_key y = f_key x"
      "f_superseded y \<longrightarrow> f_superseded x \<or> ev = FlWrite (f_key x) \<or> ev = FlClear \<or> ev = FlStart (f_key x)"
    using fl_step_table [OF Cons.prems(1,2)] by blast
  show ?case
  proof (cases "f_superseded y")
    case True
    then show ?thesis using y(3) Cons.prems(3) by auto
  next
    case False
    then show ?thesis
      using Cons.IH [OF fl_step_ok [OF Cons.prems(1)] y(1)] Cons.prems(4) y(2) by auto
  qed
qed

text \<open>C30: A write overtakes the loads of its key. Take any history of a shard's loads, a load of key
  \<open>k\<close> still running after it, a write, delete or invalidation of \<open>k\<close>, and any later history: the
  load ends marked superseded, so its stale result is never stored, whether its callers still
  wait or have all given up. Conversely a load that is marked owes it to a write of its key, a clear
  or a newer load of the key started after it.\<close>

theorem write_supersedes_loads:
  assumes "is_running (fold fl_step evs newFlights) k f"
  shows "is_superseded (fold fl_step (evs @ FlWrite k # later) newFlights) f \<and>
    (\<forall>mid. \<not> is_superseded (fold fl_step evs newFlights) f \<longrightarrow>
      is_superseded (fold fl_step (evs @ mid) newFlights) f \<longrightarrow>
      FlWrite k \<in> set mid \<or> FlClear \<in> set mid \<or> FlStart k \<in> set mid)"
proof -
  let ?s = "fold fl_step evs newFlights"
  have ok: "fl_ok ?s" by (rule fl_run_ok [OF fl_ok_new])
  have "is_superseded (supersedeFlight k ?s) f" by (rule supersede_reaches [OF ok assms])
  then have "is_superseded (fold fl_step (evs @ FlWrite k # later) newFlights) f"
    using fl_run_superseded [OF fl_ok_supersede [OF ok]] by simp
  moreover obtain x where x: "fl_table ?s f = Some x" "f_key x = k"
    using assms by (auto simp: is_running_def)
  ultimately show ?thesis
    using fl_run_cause [OF ok x(1)] x(2) by (auto simp: is_superseded_def [of ?s])
qed

theorem write_supersedes_loads_witness:
  "is_running (fold fl_step [FlStart (7 :: nat), FlLeave 0] newFlights) 7 0 \<and>
   is_superseded (fold fl_step ([FlStart (7 :: nat), FlLeave 0] @ FlWrite 7 # [FlStart 7, FlFinish 0]) newFlights) 0"
proof -
  have r: "is_running (fold fl_step [FlStart (7 :: nat), FlLeave 0] newFlights) 7 0"
    by (simp add: is_running_def newFlights_def startFlight_def fl_leave_def orphanFlight_def)
  from conjunct1 [OF write_supersedes_loads [OF r]] r show ?thesis by (rule conjI [rotated])
qed

end
