(* ===== verification/Errors.thy ===== *)
theory Errors
  imports Main
begin

text \<open>
  The errors of the package (errors.go): the sentinels, the error types that carry a cause, and
  \<open>errors.Is\<close> on them. Errors of user code (a loader, a store) are numbered. A pointer to an error
  struct is identified with its contents.
\<close>

datatype 'k error =
    ErrNotFound | ErrClosed | ErrUnbounded | ErrNoLoader | ErrInvalidTTL
  | ErrSnapshotIncompatible | ErrSnapshotCorrupt | ErrSnapshotTooLarge
  | ErrKeyTooLarge | ErrValueTooLarge | ErrTooManyTags
  | ErrLoaderRateLimited | ErrLoaderTimeout | ErrLoaderPanic | ErrLoaderTooManyInFlight
  | ErrComputeReentrant
  | ConfigError string string
  | CapacityError "'k option" string string "'k error option"
  | LoadError 'k "'k error"

  \<comment> \<open>declared next to their use: setoptions.go, compute.go\<close>
  | errWriteSuperseded | errNilComputeFn | errUnknownComputeAction

  \<comment> \<open>of the standard library: the context errors, \<open>errors.Join\<close> and \<open>fmt.Errorf\<close> with \<open>%w\<close>\<close>
  | Canceled | DeadlineExceeded
  | Joined "'k error" "'k error"
  | Wrapped "'k error"

  | UserError nat

fun is_ConfigError :: "'k error \<Rightarrow> bool" where
  "is_ConfigError (ConfigError _ _) = True"
| "is_ConfigError _ = False"

fun is_CapacityError :: "'k error \<Rightarrow> bool" where
  "is_CapacityError (CapacityError _ _ _ _) = True"
| "is_CapacityError _ = False"

fun is_LoadError :: "'k error \<Rightarrow> bool" where
  "is_LoadError (LoadError _ _) = True"
| "is_LoadError _ = False"

text \<open>\<open>errors.Is(err, target)\<close>: the error itself, its \<open>Is\<close> method, then what it unwraps to.\<close>

fun errors_Is :: "'k error \<Rightarrow> 'k error \<Rightarrow> bool" where
  "errors_Is (ConfigError f m) t = is_ConfigError t"
| "errors_Is (CapacityError k r l cause) t =
     (is_CapacityError t \<or> (case cause of None \<Rightarrow> False | Some e \<Rightarrow> errors_Is e t))"
| "errors_Is (LoadError k e) t = (is_LoadError t \<or> errors_Is e t)"
| "errors_Is (Joined a b) t = (Joined a b = t \<or> errors_Is a t \<or> errors_Is b t)"
| "errors_Is (Wrapped e) t = (Wrapped e = t \<or> errors_Is e t)"
| "errors_Is e t = (e = t)"

lemma errors_Is_load_cause: "errors_Is e t \<Longrightarrow> errors_Is (LoadError k e) t"
  by simp

end
