(* ===== verification/Config.thy ===== *)
theory Config
  imports Policy Entry Errors Sketch_Bloom "HOL-Library.AList"
begin

text \<open>
  The configuration of a cache and its options (options.go, and the options in admission.go,
  invalidation.go and options_safety.go): the record keeps the fields the modelled code reads.

  A field of type \<open>any\<close> holds nothing, a value of the type the cache expects, or a value of another
  type, which the constructor refuses. Hooks and loaders are user code that the model only calls:
  the value is their presence. The refresh-ahead fraction is a floating-point number; the field
  holds the threshold it gives for a TTL, \<open>int64(refreshAheadAt * float64(ttl))\<close>, and nothing when
  the fraction is not strictly between 0 and 1.

  An option is a function on the configuration. It does not return when \<open>WithShards\<close> diverges.
\<close>

datatype 'f any = AnyNil | AnyTyped 'f | AnyMistyped string

record ('k, 'v) config =
  cf_maxEntries :: int
  cf_maxBytes :: int
  cf_maxKeySize :: int
  cf_maxValueWeight :: int
  cf_defaultTTL :: int
  cf_slidingTTL :: bool
  cf_ttlJitter :: int
  cf_ttlJitterExplicit :: bool
  cf_janitorInterval :: int
  cf_negativeTTL :: int
  cf_errorTTL :: int
  cf_loaderTimeout :: int
  cf_refreshAheadAt :: "(int \<Rightarrow> int) option"
  cf_swrStaleFor :: int
  cf_eventsBuffer :: int
  cf_onHit :: "unit any"
  cf_onMiss :: "unit any"
  cf_onEvict :: "unit any"
  cf_onExpire :: "unit any"
  cf_onLoad :: "unit any"
  cf_policyKind :: "8 word"
  cf_shardCount :: int
  cf_statsEnabled :: bool
  cf_weigher :: "('v \<Rightarrow> int) any"
  cf_hasher :: "('k \<Rightarrow> 64 word) any"
  cf_loader :: "unit any"
  cf_bulkLoader :: "unit any"
  cf_expireFunc :: "('k \<Rightarrow> 'v \<Rightarrow> metadata \<Rightarrow> bool option) any"
  cf_loaderRatePerSecond :: int
  cf_maxConcurrentLoads :: int
  cf_maxTagsPerEntry :: int
  cf_maxTagsTotal :: int
  cf_groups :: "(string \<times> int) list"
  cf_purgeVisitor :: "unit any"
  cf_copyOnGet :: "('v \<Rightarrow> 'v) any"
  cf_admissionPolicy :: "'k admission any"
  cf_doorkeeperEnabled :: bool
  cf_invalidationPublisher :: "unit any"
  cf_invalidationSubscriber :: "unit any"
  cf_shardedStats :: bool
  cf_collisionTracking :: bool
  cf_codecCtorErr :: "string option"
  cf_ttlBuckets :: int
  cf_ttlBucketsTickPerBucket :: int
  cf_flatStorage :: bool
  cf_storeField :: "unit any"
  cf_asyncWrites :: bool
  cf_lockFreeRead :: bool

section \<open>Defaults and options\<close>

text \<open>\<open>procs\<close> is \<open>runtime.GOMAXPROCS(0)\<close>.\<close>

definition defaultShardCount :: "int \<Rightarrow> int option" where
  "defaultShardCount procs =
     (let n = max (wrap64 (procs * 4)) 1 in if n > 1024 then Some 1024 else nextPowerOfTwo n)"

definition zeroConfig :: "('k, 'v) config" where
  "zeroConfig = \<lparr>cf_maxEntries = 0, cf_maxBytes = 0, cf_maxKeySize = 0, cf_maxValueWeight = 0, cf_defaultTTL = 0,
     cf_slidingTTL = False, cf_ttlJitter = 0, cf_ttlJitterExplicit = False, cf_janitorInterval = 0, cf_negativeTTL = 0,
     cf_errorTTL = 0, cf_loaderTimeout = 0, cf_refreshAheadAt = None, cf_swrStaleFor = 0, cf_eventsBuffer = 0,
     cf_onHit = AnyNil, cf_onMiss = AnyNil, cf_onEvict = AnyNil, cf_onExpire = AnyNil, cf_onLoad = AnyNil,
     cf_policyKind = PolicyS3FIFO, cf_shardCount = 0, cf_statsEnabled = False, cf_weigher = AnyNil, cf_hasher = AnyNil,
     cf_loader = AnyNil, cf_bulkLoader = AnyNil, cf_expireFunc = AnyNil, cf_loaderRatePerSecond = 0,
     cf_maxConcurrentLoads = 0, cf_maxTagsPerEntry = 0, cf_maxTagsTotal = 0, cf_groups = [], cf_purgeVisitor = AnyNil,
     cf_copyOnGet = AnyNil, cf_admissionPolicy = AnyNil, cf_doorkeeperEnabled = False,
     cf_invalidationPublisher = AnyNil, cf_invalidationSubscriber = AnyNil, cf_shardedStats = False,
     cf_collisionTracking = False, cf_codecCtorErr = None, cf_ttlBuckets = 0, cf_ttlBucketsTickPerBucket = 0,
     cf_flatStorage = False, cf_storeField = AnyNil, cf_asyncWrites = False, cf_lockFreeRead = False\<rparr>"

definition defaultConfig :: "int \<Rightarrow> ('k, 'v) config option" where
  "defaultConfig procs =
     map_option (\<lambda>n. zeroConfig\<lparr>cf_policyKind := PolicyS3FIFO, cf_shardCount := n, cf_statsEnabled := True, cf_ttlJitter := 0,
       cf_janitorInterval := 30000000000\<rparr>) (defaultShardCount procs)"

type_synonym ('k, 'v) option_fn = "('k, 'v) config \<Rightarrow> ('k, 'v) config option"

definition WithMaxEntries :: "int \<Rightarrow> ('k, 'v) option_fn" where
  "WithMaxEntries n c = Some (c\<lparr>cf_maxEntries := n\<rparr>)"

definition WithMaxBytes :: "int \<Rightarrow> ('k, 'v) option_fn" where
  "WithMaxBytes n c = Some (c\<lparr>cf_maxBytes := n\<rparr>)"

definition WithDefaultTTL :: "int \<Rightarrow> ('k, 'v) option_fn" where
  "WithDefaultTTL d c = Some (c\<lparr>cf_defaultTTL := d\<rparr>)"

definition WithSlidingTTL :: "bool \<Rightarrow> ('k, 'v) option_fn" where
  "WithSlidingTTL b c = Some (c\<lparr>cf_slidingTTL := b\<rparr>)"

definition WithTTLJitter :: "int \<Rightarrow> ('k, 'v) option_fn" where
  "WithTTLJitter j c = Some (c\<lparr>cf_ttlJitter := j, cf_ttlJitterExplicit := True\<rparr>)"

definition WithJanitorInterval :: "int \<Rightarrow> ('k, 'v) option_fn" where
  "WithJanitorInterval d c = Some (c\<lparr>cf_janitorInterval := d\<rparr>)"

definition WithPolicy :: "8 word \<Rightarrow> ('k, 'v) option_fn" where
  "WithPolicy p c = Some (c\<lparr>cf_policyKind := p\<rparr>)"

definition WithShards :: "int \<Rightarrow> ('k, 'v) option_fn" where
  "WithShards n c = map_option (\<lambda>p. c\<lparr>cf_shardCount := p\<rparr>) (nextPowerOfTwo (if n < 1 then 1 else n))"

definition WithMaxKeySize :: "int \<Rightarrow> ('k, 'v) option_fn" where
  "WithMaxKeySize n c = Some (c\<lparr>cf_maxKeySize := n\<rparr>)"

definition WithMaxValueWeight :: "int \<Rightarrow> ('k, 'v) option_fn" where
  "WithMaxValueWeight n c = Some (c\<lparr>cf_maxValueWeight := n\<rparr>)"

definition WithStatsEnabled :: "bool \<Rightarrow> ('k, 'v) option_fn" where
  "WithStatsEnabled b c = Some (c\<lparr>cf_statsEnabled := b\<rparr>)"

definition WithCollisionTracking :: "bool \<Rightarrow> ('k, 'v) option_fn" where
  "WithCollisionTracking b c = Some (c\<lparr>cf_collisionTracking := b\<rparr>)"

definition WithTTLBuckets :: "int \<Rightarrow> int \<Rightarrow> ('k, 'v) option_fn" where
  "WithTTLBuckets slots tickPerBucket c = Some (c\<lparr>cf_ttlBuckets := slots, cf_ttlBucketsTickPerBucket := tickPerBucket\<rparr>)"

definition WithLockFreeRead :: "('k, 'v) option_fn" where
  "WithLockFreeRead c = Some (c\<lparr>cf_lockFreeRead := True\<rparr>)"

definition WithAsyncWrites :: "('k, 'v) option_fn" where
  "WithAsyncWrites c = Some (c\<lparr>cf_asyncWrites := True\<rparr>)"

definition WithFlatStorage :: "('k, 'v) option_fn" where
  "WithFlatStorage c = Some (c\<lparr>cf_flatStorage := True\<rparr>)"

definition WithShardedStats :: "bool \<Rightarrow> ('k, 'v) option_fn" where
  "WithShardedStats b c = Some (c\<lparr>cf_shardedStats := b\<rparr>)"

text \<open>Options that take a function, an interface or a channel ignore a nil argument.\<close>

definition WithWeigher :: "('v \<Rightarrow> int) any \<Rightarrow> ('k, 'v) option_fn" where
  "WithWeigher fn c = Some (case fn of AnyNil \<Rightarrow> c | _ \<Rightarrow> c\<lparr>cf_weigher := fn\<rparr>)"

definition WithHasher :: "('k \<Rightarrow> 64 word) any \<Rightarrow> ('k, 'v) option_fn" where
  "WithHasher fn c = Some (case fn of AnyNil \<Rightarrow> c | _ \<Rightarrow> c\<lparr>cf_hasher := fn\<rparr>)"

definition WithLoader :: "unit any \<Rightarrow> ('k, 'v) option_fn" where
  "WithLoader l c = Some (case l of AnyNil \<Rightarrow> c | _ \<Rightarrow> c\<lparr>cf_loader := l\<rparr>)"

definition WithBulkLoader :: "unit any \<Rightarrow> ('k, 'v) option_fn" where
  "WithBulkLoader l c = Some (case l of AnyNil \<Rightarrow> c | _ \<Rightarrow> c\<lparr>cf_bulkLoader := l\<rparr>)"

definition WithStore :: "unit any \<Rightarrow> ('k, 'v) option_fn" where
  "WithStore st c = Some (c\<lparr>cf_storeField := st\<rparr>)"

definition WithLoaderRateLimit :: "int \<Rightarrow> ('k, 'v) option_fn" where
  "WithLoaderRateLimit perSecond c = Some (c\<lparr>cf_loaderRatePerSecond := perSecond\<rparr>)"

definition WithGroup :: "string \<Rightarrow> int \<Rightarrow> ('k, 'v) option_fn" where
  "WithGroup name capacity c = Some
     (if capacity \<le> 0 then c\<lparr>cf_groups := AList.delete name (cf_groups c)\<rparr>
      else c\<lparr>cf_groups := AList.update name capacity (cf_groups c)\<rparr>)"

definition WithMaxTagsPerEntry :: "int \<Rightarrow> ('k, 'v) option_fn" where
  "WithMaxTagsPerEntry n c = Some (if n \<ge> 0 then c\<lparr>cf_maxTagsPerEntry := n\<rparr> else c)"

definition WithMaxTagsTotal :: "int \<Rightarrow> ('k, 'v) option_fn" where
  "WithMaxTagsTotal n c = Some (if n \<ge> 0 then c\<lparr>cf_maxTagsTotal := n\<rparr> else c)"

definition WithMaxConcurrentLoads :: "int \<Rightarrow> ('k, 'v) option_fn" where
  "WithMaxConcurrentLoads n c = Some (c\<lparr>cf_maxConcurrentLoads := n\<rparr>)"

definition WithNegativeCache :: "int \<Rightarrow> ('k, 'v) option_fn" where
  "WithNegativeCache ttl c = Some (c\<lparr>cf_negativeTTL := ttl\<rparr>)"

definition WithErrorTTL :: "int \<Rightarrow> ('k, 'v) option_fn" where
  "WithErrorTTL d c = Some (c\<lparr>cf_errorTTL := d\<rparr>)"

definition WithLoaderTimeout :: "int \<Rightarrow> ('k, 'v) option_fn" where
  "WithLoaderTimeout d c = Some (c\<lparr>cf_loaderTimeout := d\<rparr>)"

definition WithStaleWhileRevalidate :: "int \<Rightarrow> ('k, 'v) option_fn" where
  "WithStaleWhileRevalidate staleFor c = Some (c\<lparr>cf_swrStaleFor := staleFor\<rparr>)"

definition WithEventsBuffer :: "int \<Rightarrow> ('k, 'v) option_fn" where
  "WithEventsBuffer n c = Some (if n > 0 then c\<lparr>cf_eventsBuffer := n\<rparr> else c)"

definition WithOnHit :: "unit any \<Rightarrow> ('k, 'v) option_fn" where
  "WithOnHit fn c = Some (case fn of AnyNil \<Rightarrow> c | _ \<Rightarrow> c\<lparr>cf_onHit := fn\<rparr>)"

definition WithOnMiss :: "unit any \<Rightarrow> ('k, 'v) option_fn" where
  "WithOnMiss fn c = Some (case fn of AnyNil \<Rightarrow> c | _ \<Rightarrow> c\<lparr>cf_onMiss := fn\<rparr>)"

definition WithOnEvict :: "unit any \<Rightarrow> ('k, 'v) option_fn" where
  "WithOnEvict fn c = Some (case fn of AnyNil \<Rightarrow> c | _ \<Rightarrow> c\<lparr>cf_onEvict := fn\<rparr>)"

definition WithOnExpire :: "unit any \<Rightarrow> ('k, 'v) option_fn" where
  "WithOnExpire fn c = Some (case fn of AnyNil \<Rightarrow> c | _ \<Rightarrow> c\<lparr>cf_onExpire := fn\<rparr>)"

definition WithOnLoad :: "unit any \<Rightarrow> ('k, 'v) option_fn" where
  "WithOnLoad fn c = Some (case fn of AnyNil \<Rightarrow> c | _ \<Rightarrow> c\<lparr>cf_onLoad := fn\<rparr>)"

definition WithExpireFunc :: "('k \<Rightarrow> 'v \<Rightarrow> metadata \<Rightarrow> bool option) any \<Rightarrow> ('k, 'v) option_fn" where
  "WithExpireFunc fn c = Some (case fn of AnyNil \<Rightarrow> c | _ \<Rightarrow> c\<lparr>cf_expireFunc := fn\<rparr>)"

definition WithPurgeVisitor :: "unit any \<Rightarrow> ('k, 'v) option_fn" where
  "WithPurgeVisitor fn c = Some (case fn of AnyNil \<Rightarrow> c | _ \<Rightarrow> c\<lparr>cf_purgeVisitor := fn\<rparr>)"

definition WithCopyOnGet :: "('v \<Rightarrow> 'v) any \<Rightarrow> ('k, 'v) option_fn" where
  "WithCopyOnGet fn c = Some (case fn of AnyNil \<Rightarrow> c | _ \<Rightarrow> c\<lparr>cf_copyOnGet := fn\<rparr>)"

definition WithAdmissionPolicy :: "'k admission any \<Rightarrow> ('k, 'v) option_fn" where
  "WithAdmissionPolicy p c = Some (case p of AnyNil \<Rightarrow> c | _ \<Rightarrow> c\<lparr>cf_admissionPolicy := p\<rparr>)"

definition WithDoorkeeper :: "bool \<Rightarrow> ('k, 'v) option_fn" where
  "WithDoorkeeper b c = Some (c\<lparr>cf_doorkeeperEnabled := b\<rparr>)"

definition WithInvalidationPublisher :: "unit any \<Rightarrow> ('k, 'v) option_fn" where
  "WithInvalidationPublisher fn c = Some (case fn of AnyNil \<Rightarrow> c | _ \<Rightarrow> c\<lparr>cf_invalidationPublisher := fn\<rparr>)"

definition WithInvalidationSubscriber :: "unit any \<Rightarrow> ('k, 'v) option_fn" where
  "WithInvalidationSubscriber ch c = Some (case ch of AnyNil \<Rightarrow> c | _ \<Rightarrow> c\<lparr>cf_invalidationSubscriber := ch\<rparr>)"

text \<open>The loop of \<open>New\<close> over its options.\<close>

fun applyOptions :: "('k, 'v) option_fn list \<Rightarrow> ('k, 'v) option_fn" where
  "applyOptions [] c = Some c"
| "applyOptions (opt # opts) c = (case opt c of None \<Rightarrow> None | Some c \<Rightarrow> applyOptions opts c)"

end
