(* ===== verification/Settings.thy ===== *)
theory Settings
  imports Config
begin

text \<open>
  What \<open>build\<close> (cache.go) makes of a configuration before it allocates anything: the bounds are
  checked, every type-erased field is asserted into its typed form, and the first failure is
  returned. The result is the record of the fields of a cache that never change.

  \<open>typeInfo\<close> gathers what the code finds out about the key and value types by reflection and type
  assertion: the zero values, the length of a string or byte-slice key (\<open>checkKeySize\<close>), the prefix
  test (\<open>prefixMatcher\<close>), the methods \<open>CacheTTL\<close> and \<open>CacheTags\<close> and the struct-tag templates of a
  value (cacheable.go), and the default hasher.
\<close>

record ('k, 'v) typeInfo =
  ty_zeroK :: 'k
  ty_zeroV :: 'v
  ty_keyLen :: "'k \<Rightarrow> int option"
  ty_hasPrefix :: "('k \<Rightarrow> string \<Rightarrow> bool) option"
  ty_CacheTTL :: "'v \<Rightarrow> int option"
  ty_CacheTags :: "'v \<Rightarrow> string list option"
  ty_templateTags :: "'v \<Rightarrow> string list"
  ty_defaultHasher :: "'k \<Rightarrow> 64 word"

record ('k, 'v) settings =
  su_cfg :: "('k, 'v) config"
  su_types :: "('k, 'v) typeInfo"
  su_hasher :: "'k \<Rightarrow> 64 word"
  su_weigher :: "('v \<Rightarrow> int) option"
  su_loader :: bool
  su_bulkLoader :: bool
  su_expireFunc :: "('k \<Rightarrow> 'v \<Rightarrow> metadata \<Rightarrow> bool option) option"
  su_onHit :: bool
  su_onMiss :: bool
  su_onEvict :: bool
  su_onExpire :: bool
  su_onLoad :: bool
  su_purgeVisitor :: bool
  su_copyOnGet :: "('v \<Rightarrow> 'v) option"
  su_invalidationPublisher :: bool
  su_invalidationSubscriber :: bool

definition bind_err :: "'e + 'a \<Rightarrow> ('a \<Rightarrow> 'e + 'b) \<Rightarrow> 'e + 'b" where
  "bind_err m f = (case m of Inl e \<Rightarrow> Inl e | Inr x \<Rightarrow> f x)"

lemma bind_err_simps [simp]: "bind_err (Inl e) f = Inl e" "bind_err (Inr x) f = f x"
  by (simp_all add: bind_err_def)

lemma bind_err_Inr: "bind_err m f = Inr y \<longleftrightarrow> (\<exists>x. m = Inr x \<and> f x = Inr y)"
  by (cases m) auto

text \<open>\<open>expvarErr\<close> is the result of \<open>checkExpvarName\<close>, which consults the process-wide registry.\<close>

definition checkBounds :: "'k error option \<Rightarrow> ('k, 'v) config \<Rightarrow> bool \<Rightarrow> 'k error option" where
  "checkBounds expvarErr cfg allowUnbounded =
     (if cf_maxEntries cfg < 0 then Some (ConfigError ''MaxEntries'' ''must be non-negative'')
      else if cf_maxBytes cfg < 0 then Some (ConfigError ''MaxBytes'' ''must be non-negative'')
      else if \<not> allowUnbounded \<and> cf_maxEntries cfg \<le> 0 \<and> cf_maxBytes cfg \<le> 0 then Some ErrUnbounded
      else expvarErr)"

definition mismatch :: "string \<Rightarrow> string \<Rightarrow> string \<Rightarrow> 'k error" where
  "mismatch field what ty = ConfigError field (''type mismatch: '' @ what @ '' ('' @ ty @ '')'')"

fun resolveWeigher :: "('v \<Rightarrow> int) any \<Rightarrow> 'k error + ('v \<Rightarrow> int) option" where
  "resolveWeigher AnyNil = Inr None"
| "resolveWeigher (AnyTyped w) = Inr (Some w)"
| "resolveWeigher (AnyMistyped ty) = Inl (mismatch ''Weigher'' ''weigher does not match cache value type'' ty)"

fun resolveHasher :: "('k \<Rightarrow> 64 word) \<Rightarrow> ('k \<Rightarrow> 64 word) any \<Rightarrow> 'k error + ('k \<Rightarrow> 64 word)" where
  "resolveHasher dflt AnyNil = Inr dflt"
| "resolveHasher dflt (AnyTyped h) = Inr h"
| "resolveHasher dflt (AnyMistyped ty) = Inl (mismatch ''Hasher'' ''hasher does not match cache key type'' ty)"

fun resolveLoader :: "unit any \<Rightarrow> 'k error + bool" where
  "resolveLoader AnyNil = Inr False"
| "resolveLoader (AnyTyped _) = Inr True"
| "resolveLoader (AnyMistyped ty) = Inl (mismatch ''Loader'' ''loader does not match cache type parameters'' ty)"

fun resolveBulkLoader :: "unit any \<Rightarrow> 'k error + bool" where
  "resolveBulkLoader AnyNil = Inr False"
| "resolveBulkLoader (AnyTyped _) = Inr True"
| "resolveBulkLoader (AnyMistyped ty) = Inl (mismatch ''BulkLoader'' ''bulk cf_loader does not match cache type parameters'' ty)"

fun resolveExpireFunc :: "('k \<Rightarrow> 'v \<Rightarrow> metadata \<Rightarrow> bool option) any \<Rightarrow>
    'k error + ('k \<Rightarrow> 'v \<Rightarrow> metadata \<Rightarrow> bool option) option" where
  "resolveExpireFunc AnyNil = Inr None"
| "resolveExpireFunc (AnyTyped f) = Inr (Some f)"
| "resolveExpireFunc (AnyMistyped ty) = Inl (mismatch ''ExpireFunc'' ''expire-func does not match cache type parameters'' ty)"

fun resolveStore :: "unit any \<Rightarrow> 'k error + bool" where
  "resolveStore AnyNil = Inr False"
| "resolveStore (AnyTyped _) = Inr True"
| "resolveStore (AnyMistyped ty) = Inl (mismatch ''Store'' ''store does not match cache K/V'' ty)"

text \<open>One hook of \<open>resolveHooks\<close>.\<close>

fun resolveHook :: "string \<Rightarrow> string \<Rightarrow> 'f any \<Rightarrow> 'k error + 'f option" where
  "resolveHook field what AnyNil = Inr None"
| "resolveHook field what (AnyTyped f) = Inr (Some f)"
| "resolveHook field what (AnyMistyped ty) = Inl (mismatch field what ty)"

record 'v resolvedHooks =
  rh_onHit :: bool
  rh_onMiss :: bool
  rh_onEvict :: bool
  rh_onExpire :: bool
  rh_onLoad :: bool
  rh_purgeVisitor :: bool
  rh_copyOnGet :: "('v \<Rightarrow> 'v) option"

definition resolveHooks :: "('k, 'v) config \<Rightarrow> 'k error + 'v resolvedHooks" where
  "resolveHooks cfg =
     bind_err (resolveHook ''OnHit'' ''hook does not match cache type parameters'' (cf_onHit cfg)) (\<lambda>hit.
     bind_err (resolveHook ''OnMiss'' ''hook does not match cache key type'' (cf_onMiss cfg)) (\<lambda>miss.
     bind_err (resolveHook ''OnEvict'' ''hook does not match cache type parameters'' (cf_onEvict cfg)) (\<lambda>evict.
     bind_err (resolveHook ''OnExpire'' ''hook does not match cache type parameters'' (cf_onExpire cfg)) (\<lambda>expire.
     bind_err (resolveHook ''OnLoad'' ''hook does not match cache type parameters'' (cf_onLoad cfg)) (\<lambda>load.
     bind_err (resolveHook ''PurgeVisitor'' ''visitor does not match cache type parameters'' (cf_purgeVisitor cfg)) (\<lambda>purge.
     bind_err (resolveHook ''CopyOnGet'' ''copy func does not match cache value type'' (cf_copyOnGet cfg)) (\<lambda>copy.
     Inr \<lparr>rh_onHit = (hit \<noteq> None), rh_onMiss = (miss \<noteq> None), rh_onEvict = (evict \<noteq> None),
          rh_onExpire = (expire \<noteq> None), rh_onLoad = (load \<noteq> None), rh_purgeVisitor = (purge \<noteq> None),
          rh_copyOnGet = copy\<rparr>)))))))"

definition resolveAdmissionPolicy :: "('k, 'v) config \<Rightarrow> 'k error + 'k admission" where
  "resolveAdmissionPolicy cfg =
     (case cf_admissionPolicy cfg of
        AnyTyped p \<Rightarrow> Inr p
      | AnyMistyped ty \<Rightarrow> Inl (ConfigError ''AdmissionPolicy'' ''type mismatch: admission policy does not match cache key type'')
      | AnyNil \<Rightarrow>
          if cf_doorkeeperEnabled cfg
          then let expected = (if cf_maxEntries cfg \<le> 0 then 1024 else cf_maxEntries cfg) in Inr (Doorkeeper (NewDoorkeeper expected))
          else Inr AdmitAlways)"

fun resolveInvalidationPublisher :: "unit any \<Rightarrow> 'k error + bool" where
  "resolveInvalidationPublisher AnyNil = Inr False"
| "resolveInvalidationPublisher (AnyTyped _) = Inr True"
| "resolveInvalidationPublisher (AnyMistyped ty) =
     Inl (ConfigError ''InvalidationPublisher'' ''type mismatch: publisher does not match cache key type'')"

fun resolveInvalidationSubscriber :: "unit any \<Rightarrow> 'k error + bool" where
  "resolveInvalidationSubscriber AnyNil = Inr False"
| "resolveInvalidationSubscriber (AnyTyped _) = Inr True"
| "resolveInvalidationSubscriber (AnyMistyped ty) =
     Inl (ConfigError ''InvalidationSubscriber'' ''type mismatch: subscriber channel does not match cache key type'')"

definition lockFreeReadSupported :: "('k, 'v) config \<Rightarrow> bool" where
  "lockFreeReadSupported cfg =
     (if cf_policyKind cfg \<noteq> PolicyS3FIFO then False else case cf_expireFunc cfg of AnyNil \<Rightarrow> True | _ \<Rightarrow> False)"

definition gateLockFreeRead :: "('k, 'v) config \<Rightarrow> ('k, 'v) config" where
  "gateLockFreeRead cfg =
     (if \<not> cf_lockFreeRead cfg \<or> lockFreeReadSupported cfg then cfg else cfg\<lparr>cf_lockFreeRead := False\<rparr>)"

text \<open>The first half of \<open>build\<close>, up to the allocation of the cache: the settings and the admission
  policy, or the first error.\<close>

definition resolveAll :: "'k error option \<Rightarrow> ('k, 'v) typeInfo \<Rightarrow> ('k, 'v) config \<Rightarrow> bool \<Rightarrow>
    'k error + ('k, 'v) settings \<times> 'k admission" where
  "resolveAll expvarErr ty cfg allowUnbounded =
     (case cf_codecCtorErr cfg of
        Some msg \<Rightarrow> Inl (ConfigError ''Codec'' msg)
      | None \<Rightarrow>
     (case checkBounds expvarErr cfg allowUnbounded of
        Some err \<Rightarrow> Inl err
      | None \<Rightarrow>
     bind_err (resolveWeigher (cf_weigher cfg)) (\<lambda>w.
     bind_err (resolveHasher (ty_defaultHasher ty) (cf_hasher cfg)) (\<lambda>h.
     bind_err (resolveLoader (cf_loader cfg)) (\<lambda>ld.
     bind_err (resolveBulkLoader (cf_bulkLoader cfg)) (\<lambda>bulk.
     bind_err (resolveExpireFunc (cf_expireFunc cfg)) (\<lambda>ef.
     bind_err (resolveStore (cf_storeField cfg)) (\<lambda>st.
     bind_err (resolveHooks cfg) (\<lambda>hooks.
     bind_err (resolveAdmissionPolicy cfg) (\<lambda>adm.
     bind_err (resolveInvalidationPublisher (cf_invalidationPublisher cfg)) (\<lambda>pub.
     bind_err (resolveInvalidationSubscriber (cf_invalidationSubscriber cfg)) (\<lambda>sub.
     if cf_maxBytes cfg > 0 \<and> w = None then Inl (ConfigError ''MaxBytes'' ''WithMaxBytes requires WithWeigher'')
     else Inr
       (\<lparr>su_cfg = gateLockFreeRead cfg, su_types = ty, su_hasher = h, su_weigher = w, su_loader = ld,
         su_bulkLoader = bulk, su_expireFunc = ef, su_onHit = rh_onHit hooks, su_onMiss = rh_onMiss hooks,
         su_onEvict = rh_onEvict hooks, su_onExpire = rh_onExpire hooks, su_onLoad = rh_onLoad hooks,
         su_purgeVisitor = rh_purgeVisitor hooks, su_copyOnGet = rh_copyOnGet hooks,
         su_invalidationPublisher = pub, su_invalidationSubscriber = sub\<rparr>, adm)))))))))))))"

text \<open>\<open>valueTTL\<close> and \<open>autoTags\<close> (cacheable.go): the value's own TTL and tags, when its type has them.\<close>

definition extractCacheableTTL :: "('k, 'v) typeInfo \<Rightarrow> 'v \<Rightarrow> int \<Rightarrow> int" where
  "extractCacheableTTL ty v fallback =
     (case ty_CacheTTL ty v of None \<Rightarrow> fallback | Some ttl \<Rightarrow> if ttl < 0 then fallback else ttl)"

definition extractCacheableTags :: "('k, 'v) typeInfo \<Rightarrow> 'v \<Rightarrow> string list" where
  "extractCacheableTags ty v = (case ty_CacheTags ty v of None \<Rightarrow> [] | Some ts \<Rightarrow> ts)"

definition deriveAutoTags :: "('k, 'v) typeInfo \<Rightarrow> 'v \<Rightarrow> string list" where
  "deriveAutoTags ty v =
     (let ts = extractCacheableTags ty v; tpl = ty_templateTags ty v in if tpl \<noteq> [] then ts @ tpl else ts)"

section \<open>What a configuration must satisfy\<close>

text \<open>A field that holds a value of another type.\<close>

fun mistyped :: "'f any \<Rightarrow> bool" where
  "mistyped (AnyMistyped _) = True"
| "mistyped _ = False"

definition config_accepted :: "('k, 'v) config \<Rightarrow> bool \<Rightarrow> bool" where
  "config_accepted cfg allowUnbounded \<longleftrightarrow>
     cf_codecCtorErr cfg = None \<and> 0 \<le> cf_maxEntries cfg \<and> 0 \<le> cf_maxBytes cfg \<and>
     (allowUnbounded \<or> 0 < cf_maxEntries cfg \<or> 0 < cf_maxBytes cfg) \<and>
     (0 < cf_maxBytes cfg \<longrightarrow> cf_weigher cfg \<noteq> AnyNil) \<and>
     \<not> mistyped (cf_weigher cfg) \<and> \<not> mistyped (cf_hasher cfg) \<and> \<not> mistyped (cf_loader cfg) \<and>
     \<not> mistyped (cf_bulkLoader cfg) \<and> \<not> mistyped (cf_expireFunc cfg) \<and> \<not> mistyped (cf_storeField cfg) \<and>
     \<not> mistyped (cf_onHit cfg) \<and> \<not> mistyped (cf_onMiss cfg) \<and> \<not> mistyped (cf_onEvict cfg) \<and>
     \<not> mistyped (cf_onExpire cfg) \<and> \<not> mistyped (cf_onLoad cfg) \<and> \<not> mistyped (cf_purgeVisitor cfg) \<and>
     \<not> mistyped (cf_copyOnGet cfg) \<and> \<not> mistyped (cf_admissionPolicy cfg) \<and>
     \<not> mistyped (cf_invalidationPublisher cfg) \<and> \<not> mistyped (cf_invalidationSubscriber cfg)"

lemma resolve_presence:
  "resolveLoader a = Inr l \<longleftrightarrow> \<not> mistyped a \<and> l = (a \<noteq> AnyNil)"
  "resolveBulkLoader a = Inr l \<longleftrightarrow> \<not> mistyped a \<and> l = (a \<noteq> AnyNil)"
  "resolveStore a = Inr l \<longleftrightarrow> \<not> mistyped a \<and> l = (a \<noteq> AnyNil)"
  "resolveInvalidationPublisher a = Inr l \<longleftrightarrow> \<not> mistyped a \<and> l = (a \<noteq> AnyNil)"
  "resolveInvalidationSubscriber a = Inr l \<longleftrightarrow> \<not> mistyped a \<and> l = (a \<noteq> AnyNil)"
proof -
  show "resolveLoader a = Inr l \<longleftrightarrow> \<not> mistyped a \<and> l = (a \<noteq> AnyNil)" by (cases a) auto
  show "resolveBulkLoader a = Inr l \<longleftrightarrow> \<not> mistyped a \<and> l = (a \<noteq> AnyNil)" by (cases a) auto
  show "resolveStore a = Inr l \<longleftrightarrow> \<not> mistyped a \<and> l = (a \<noteq> AnyNil)" by (cases a) auto
  show "resolveInvalidationPublisher a = Inr l \<longleftrightarrow> \<not> mistyped a \<and> l = (a \<noteq> AnyNil)" by (cases a) auto
  show "resolveInvalidationSubscriber a = Inr l \<longleftrightarrow> \<not> mistyped a \<and> l = (a \<noteq> AnyNil)" by (cases a) auto
qed

lemma resolve_fun_Inr:
  "resolveWeigher a = Inr w \<longleftrightarrow> \<not> mistyped a \<and> w = (case a of AnyTyped f \<Rightarrow> Some f | _ \<Rightarrow> None)"
  "(\<exists>h. resolveHasher d b = Inr h) \<longleftrightarrow> \<not> mistyped b"
  "(\<exists>l. resolveExpireFunc c = Inr l) \<longleftrightarrow> \<not> mistyped c"
  "(\<exists>l. resolveHook f m e = Inr l) \<longleftrightarrow> \<not> mistyped e"
proof -
  show "resolveWeigher a = Inr w \<longleftrightarrow> \<not> mistyped a \<and> w = (case a of AnyTyped f \<Rightarrow> Some f | _ \<Rightarrow> None)"
    by (cases a) auto
  show "(\<exists>h. resolveHasher d b = Inr h) \<longleftrightarrow> \<not> mistyped b" by (cases b) auto
  show "(\<exists>l. resolveExpireFunc c = Inr l) \<longleftrightarrow> \<not> mistyped c" by (cases c) auto
  show "(\<exists>l. resolveHook f m e = Inr l) \<longleftrightarrow> \<not> mistyped e" by (cases e) auto
qed

lemma bind_err_Inl: "bind_err m f = Inl e \<longleftrightarrow> m = Inl e \<or> (\<exists>x. m = Inr x \<and> f x = Inl e)"
  by (cases m) auto

lemma ex_bind_err: "(\<exists>y. bind_err m f = Inr y) \<longleftrightarrow> (\<exists>x. m = Inr x \<and> (\<exists>y. f x = Inr y))"
  by (cases m) auto

lemma not_isl_bind_err: "isl (bind_err m f) \<longleftrightarrow> \<not> (\<exists>x. m = Inr x \<and> \<not> isl (f x))"
  by (cases m) auto

lemma resolve_Inl:
  "resolveWeigher a1 = Inl e \<Longrightarrow> is_ConfigError e"
  "resolveHasher d a2 = Inl e \<Longrightarrow> is_ConfigError e"
  "resolveLoader a3 = Inl e \<Longrightarrow> is_ConfigError e"
  "resolveBulkLoader a3 = Inl e \<Longrightarrow> is_ConfigError e"
  "resolveStore a3 = Inl e \<Longrightarrow> is_ConfigError e"
  "resolveInvalidationPublisher a3 = Inl e \<Longrightarrow> is_ConfigError e"
  "resolveInvalidationSubscriber a3 = Inl e \<Longrightarrow> is_ConfigError e"
  "resolveExpireFunc a4 = Inl e \<Longrightarrow> is_ConfigError e"
  "resolveHook f m a5 = Inl e \<Longrightarrow> is_ConfigError e"
  by (auto simp: mismatch_def elim: resolveWeigher.elims resolveHasher.elims resolveLoader.elims
      resolveBulkLoader.elims resolveStore.elims resolveInvalidationPublisher.elims
      resolveInvalidationSubscriber.elims resolveExpireFunc.elims resolveHook.elims)

lemma resolveHooks_Inl: "resolveHooks cfg = Inl e \<Longrightarrow> is_ConfigError e"
  unfolding resolveHooks_def bind_err_Inl by (auto dest: resolve_Inl)

lemma resolveHooks_Inr:
  "(\<exists>h. resolveHooks cfg = Inr h) \<longleftrightarrow>
     \<not> mistyped (cf_onHit cfg) \<and> \<not> mistyped (cf_onMiss cfg) \<and> \<not> mistyped (cf_onEvict cfg) \<and>
     \<not> mistyped (cf_onExpire cfg) \<and> \<not> mistyped (cf_onLoad cfg) \<and> \<not> mistyped (cf_purgeVisitor cfg) \<and>
     \<not> mistyped (cf_copyOnGet cfg)"
  by (simp add: resolveHooks_def ex_bind_err resolve_fun_Inr)

lemma resolveAdmissionPolicy_sum:
  "resolveAdmissionPolicy cfg = Inl e \<Longrightarrow> is_ConfigError e"
  "(\<exists>h. resolveAdmissionPolicy cfg = Inr h) \<longleftrightarrow> \<not> mistyped (cf_admissionPolicy cfg)"
  by (auto simp: resolveAdmissionPolicy_def Let_def split: any.splits if_splits)

lemma checkBounds_None:
  "checkBounds None cfg allow = None \<longleftrightarrow> 0 \<le> cf_maxEntries cfg \<and> 0 \<le> cf_maxBytes cfg \<and>
     (allow \<or> 0 < cf_maxEntries cfg \<or> 0 < cf_maxBytes cfg)"
  "checkBounds None cfg allow = Some e \<Longrightarrow> e = ErrUnbounded \<or> is_ConfigError e"
  by (auto simp: checkBounds_def split: if_splits)


end
