(* ===== verification/Tags.thy ===== *)
theory Tags
  imports Config
begin

text \<open>
  The tag index of a cache (tags.go) and its deferred cleanup (tagcleanup.go).

  The index maps a tag to the keys that carry it. The Go maps are association lists: the order in
  which the code ranges over a map is unspecified, the list fixes one. When an entry is removed its
  tags are not taken out of the index at once: the removal is queued, and a background goroutine
  takes up to 64 requests off the queue and applies them. The goroutine's two steps are separate
  operations, so that anything can happen between them.

  The lemmas state what each operation does to the relation \<open>tagged\<close> between tags and keys.
\<close>

section \<open>The index\<close>

type_synonym 'k tagIndex = "(string \<times> 'k list) list"

definition newTagIndex :: "'k tagIndex" where
  "newTagIndex = []"

definition tag_one :: "'k \<Rightarrow> string \<Rightarrow> 'k tagIndex \<Rightarrow> 'k tagIndex" where
  "tag_one key t idx =
     (let ks = (case map_of idx t of None \<Rightarrow> [] | Some ks \<Rightarrow> ks)
      in AList.update t (if key \<in> set ks then ks else ks @ [key]) idx)"

definition idx_tag :: "'k \<Rightarrow> string list \<Rightarrow> 'k tagIndex \<Rightarrow> 'k tagIndex" where
  "idx_tag key tags idx = (if tags = [] then idx else fold (tag_one key) tags idx)"

definition untag_one :: "'k \<Rightarrow> string \<Rightarrow> 'k tagIndex \<Rightarrow> 'k tagIndex" where
  "untag_one key t idx =
     (case map_of idx t of
        None \<Rightarrow> idx
      | Some ks \<Rightarrow> let ks = removeAll key ks in if ks = [] then AList.delete t idx else AList.update t ks idx)"

definition idx_untag :: "'k \<Rightarrow> string list \<Rightarrow> 'k tagIndex \<Rightarrow> 'k tagIndex" where
  "idx_untag key tags idx = (if tags = [] then idx else fold (untag_one key) tags idx)"

definition idx_snapshot :: "string \<Rightarrow> 'k tagIndex \<Rightarrow> 'k list" where
  "idx_snapshot t idx = (case map_of idx t of None \<Rightarrow> [] | Some ks \<Rightarrow> ks)"

definition distinctTagCount :: "'k tagIndex \<Rightarrow> int" where
  "distinctTagCount idx = int (length idx)"

text \<open>\<open>retagLocked\<close>.\<close>

definition retag :: "'k \<Rightarrow> string list \<Rightarrow> string list \<Rightarrow> 'k tagIndex \<Rightarrow> 'k tagIndex" where
  "retag key oldTags newTags idx =
     (let idx = (if oldTags \<noteq> [] then idx_untag key oldTags idx else idx)
      in if newTags \<noteq> [] then idx_tag key newTags idx else idx)"

section \<open>Limits\<close>

text \<open>Decimal digits, as \<open>%d\<close> prints a non-negative number.\<close>

fun digits :: "nat \<Rightarrow> string" where
  "digits n = (if n < 10 then [char_of (48 + n)] else digits (n div 10) @ [char_of (48 + n mod 10)])"

declare digits.simps [simp del]

text \<open>The loop that keeps the first occurrence of each tag.\<close>

fun distinctTags :: "string list \<Rightarrow> string list \<Rightarrow> string list" where
  "distinctTags [] acc = acc"
| "distinctTags (t # ts) acc = distinctTags ts (if t \<in> set acc then acc else acc @ [t])"

definition validateTagLimits :: "('k, 'v) config \<Rightarrow> 'k tagIndex \<Rightarrow> string list \<Rightarrow> 'k error option" where
  "validateTagLimits cfg idx tags =
     (let dist = distinctTags tags [];
          newDistinct = length (filter (\<lambda>t. map_of idx t = None) dist)
      in if cf_maxTagsPerEntry cfg > 0 \<and> int (length dist) > cf_maxTagsPerEntry cfg
         then Some (CapacityError None
                (''entry has '' @ digits (length dist) @ '' tags; max is '' @ digits (nat (cf_maxTagsPerEntry cfg)))
                ''MaxTagsPerEntry'' None)
         else if cf_maxTagsTotal cfg > 0 \<and> distinctTagCount idx + int newDistinct > cf_maxTagsTotal cfg
         then Some (CapacityError None
                (''introducing '' @ digits newDistinct @ '' new tags would exceed cache-level cap '' @
                  digits (nat (cf_maxTagsTotal cfg)))
                ''MaxTagsTotal'' None)
         else None)"

definition checkTagLimits :: "('k, 'v) config \<Rightarrow> 'k tagIndex \<Rightarrow> 'k \<Rightarrow> string list \<Rightarrow> 'k error option" where
  "checkTagLimits cfg idx key tags =
     (case validateTagLimits cfg idx tags of
        Some (CapacityError _ reason limitField _) \<Rightarrow> Some (CapacityError (Some key) reason limitField (Some ErrTooManyTags))
      | err \<Rightarrow> err)"

section \<open>Deferred removal\<close>

type_synonym 'k untagOp = "'k \<times> string list"

record 'k tags =
  tg_index :: "'k tagIndex"
  tg_queue :: "'k untagOp list"
  tg_batch :: "'k untagOp list"
  tg_overflows :: "64 word"

definition newTags :: "'k tags" where
  "newTags = \<lparr>tg_index = newTagIndex, tg_queue = [], tg_batch = [], tg_overflows = 0\<rparr>"

definition tagCleanupBuffer :: nat where
  "tagCleanupBuffer = 4096"

definition enqueueUntag :: "'k \<Rightarrow> string list \<Rightarrow> 'k tags \<Rightarrow> 'k tags" where
  "enqueueUntag key ts g =
     (if ts = [] then g
      else if length (tg_queue g) < tagCleanupBuffer then g\<lparr>tg_queue := tg_queue g @ [(key, ts)]\<rparr>
      else g\<lparr>tg_index := idx_untag key ts (tg_index g), tg_overflows := tg_overflows g + 1\<rparr>)"

text \<open>\<open>current\<close> gives the tags of the key's entry in its shard, none when there is no entry.\<close>

definition applyUntagOp :: "('k \<Rightarrow> string list) \<Rightarrow> 'k untagOp \<Rightarrow> 'k tagIndex \<Rightarrow> 'k tagIndex" where
  "applyUntagOp current oper idx =
     (case oper of (key, ts) \<Rightarrow>
        fold (\<lambda>t idx. if t \<in> set (current key) then idx else untag_one key t idx) ts idx)"

definition applyUntagBatch :: "('k \<Rightarrow> string list) \<Rightarrow> 'k untagOp list \<Rightarrow> 'k tagIndex \<Rightarrow> 'k tagIndex" where
  "applyUntagBatch current batch idx = fold (applyUntagOp current) batch idx"

definition cleanupTake :: "'k tags \<Rightarrow> 'k tags" where
  "cleanupTake g =
     (if tg_batch g = [] then g\<lparr>tg_batch := take 64 (tg_queue g), tg_queue := drop 64 (tg_queue g)\<rparr> else g)"

definition cleanupApply :: "('k \<Rightarrow> string list) \<Rightarrow> 'k tags \<Rightarrow> 'k tags" where
  "cleanupApply current g =
     g\<lparr>tg_index := applyUntagBatch current (tg_batch g) (tg_index g), tg_batch := []\<rparr>"

text \<open>\<open>drainRemaining\<close>, on shutdown: whatever the batch sizes, every queued request is applied in
  order. The loop takes up to 64 requests a round.\<close>

function drainRemaining :: "('k \<Rightarrow> string list) \<Rightarrow> 'k untagOp list \<Rightarrow> 'k tagIndex \<Rightarrow> 'k tagIndex" where
  "drainRemaining current q idx =
     (if q = [] then idx else drainRemaining current (drop 64 q) (applyUntagBatch current (take 64 q) idx))"
  by auto
termination
  by (relation "measure (\<lambda>(current, q, idx). length q)") auto

declare drainRemaining.simps [simp del]

definition tagCleanupBacklog :: "'k tags \<Rightarrow> int" where
  "tagCleanupBacklog g = int (length (tg_queue g) + length (tg_batch g))"

section \<open>The relation between tags and keys\<close>

definition tagged :: "'k tagIndex \<Rightarrow> string \<Rightarrow> 'k \<Rightarrow> bool" where
  "tagged idx t k \<longleftrightarrow> k \<in> set (idx_snapshot t idx)"

text \<open>Every tag the index holds has a key, and each key is listed once.\<close>

definition idx_ok :: "'k tagIndex \<Rightarrow> bool" where
  "idx_ok idx \<longleftrightarrow> distinct (map fst idx) \<and> (\<forall>t ks. map_of idx t = Some ks \<longrightarrow> ks \<noteq> [] \<and> distinct ks)"

lemma idx_ok_new: "idx_ok newTagIndex" "\<not> tagged newTagIndex t k"
  by (simp_all add: idx_ok_def newTagIndex_def tagged_def idx_snapshot_def)

lemma tag_one_spec: "tagged (tag_one key t idx) u k \<longleftrightarrow> tagged idx u k \<or> (u = t \<and> k = key)"
  by (auto simp: tagged_def idx_snapshot_def tag_one_def update_conv' Let_def split: option.splits)

lemma tag_one_ok: "idx_ok idx \<Longrightarrow> idx_ok (tag_one key t idx)"
  by (auto simp: idx_ok_def tag_one_def update_conv' distinct_update Let_def
      simp del: map_of_eq_Some_iff split: option.splits)

lemma untag_one_spec: "tagged (untag_one key t idx) u k \<longleftrightarrow> tagged idx u k \<and> \<not> (u = t \<and> k = key)"
  by (auto simp: tagged_def idx_snapshot_def untag_one_def update_conv' delete_conv' Let_def
      removeAll_filter_not_eq filter_empty_conv split: option.splits)

lemma untag_one_ok: "idx_ok idx \<Longrightarrow> idx_ok (untag_one key t idx)"
  by (auto simp: idx_ok_def untag_one_def update_conv' delete_conv' distinct_update distinct_delete
      distinct_removeAll Let_def simp del: map_of_eq_Some_iff split: option.splits if_splits)

lemma idx_tag_spec: "tagged (idx_tag key ts idx) u k \<longleftrightarrow> tagged idx u k \<or> (u \<in> set ts \<and> k = key)"
proof -
  have "tagged (fold (tag_one key) ts idx) u k \<longleftrightarrow> tagged idx u k \<or> (u \<in> set ts \<and> k = key)"
    by (induction ts arbitrary: idx) (auto simp: tag_one_spec)
  then show ?thesis by (simp add: idx_tag_def)
qed

lemma idx_untag_spec: "tagged (idx_untag key ts idx) u k \<longleftrightarrow> tagged idx u k \<and> \<not> (u \<in> set ts \<and> k = key)"
proof -
  have "tagged (fold (untag_one key) ts idx) u k \<longleftrightarrow> tagged idx u k \<and> \<not> (u \<in> set ts \<and> k = key)"
    by (induction ts arbitrary: idx) (auto simp: untag_one_spec)
  then show ?thesis by (simp add: idx_untag_def)
qed

lemma idx_tag_ok: "idx_ok idx \<Longrightarrow> idx_ok (idx_tag key ts idx)"
  using fold_invariant [where Q = "\<lambda>_. True" and P = idx_ok and f = "tag_one key" and xs = ts and s = idx]
  by (simp add: idx_tag_def tag_one_ok)

lemma idx_untag_ok: "idx_ok idx \<Longrightarrow> idx_ok (idx_untag key ts idx)"
  using fold_invariant [where Q = "\<lambda>_. True" and P = idx_ok and f = "untag_one key" and xs = ts and s = idx]
  by (simp add: idx_untag_def untag_one_ok)

lemma retag_spec:
  "tagged (retag key old new idx) u k \<longleftrightarrow>
     (tagged idx u k \<and> \<not> (u \<in> set old \<and> k = key)) \<or> (u \<in> set new \<and> k = key)"
  by (auto simp: retag_def idx_tag_spec idx_untag_spec)

lemma retag_ok: "idx_ok idx \<Longrightarrow> idx_ok (retag key old new idx)"
  by (simp add: retag_def idx_tag_ok idx_untag_ok)

lemma applyUntagOp_spec:
  "tagged (applyUntagOp cur (key, ts) idx) u k \<longleftrightarrow>
     tagged idx u k \<and> \<not> (u \<in> set ts \<and> u \<notin> set (cur key) \<and> k = key)"
proof -
  have "tagged (fold (\<lambda>t idx. if t \<in> set (cur key) then idx else untag_one key t idx) ts idx) u k \<longleftrightarrow>
      tagged idx u k \<and> \<not> (u \<in> set ts \<and> u \<notin> set (cur key) \<and> k = key)"
    by (induction ts arbitrary: idx) (auto simp: untag_one_spec)
  then show ?thesis by (simp add: applyUntagOp_def)
qed

lemma applyUntagOp_ok: "idx_ok idx \<Longrightarrow> idx_ok (applyUntagOp cur oper idx)"
proof -
  obtain key ts where o: "oper = (key, ts)" by force
  have "idx_ok (fold (\<lambda>t idx. if t \<in> set (cur key) then idx else untag_one key t idx) ts idx)" if "idx_ok idx"
    using that by (induction ts arbitrary: idx) (auto simp: untag_one_ok)
  then show "idx_ok idx \<Longrightarrow> ?thesis" by (simp add: applyUntagOp_def o)
qed

text \<open>A batch removes exactly the queued pairs whose tag the key does not carry any more.\<close>

lemma applyUntagBatch_spec:
  "tagged (applyUntagBatch cur batch idx) u k \<longleftrightarrow>
     tagged idx u k \<and> \<not> ((\<exists>ts. (k, ts) \<in> set batch \<and> u \<in> set ts) \<and> u \<notin> set (cur k))"
proof (induction batch arbitrary: idx)
  case (Cons b batch)
  obtain key ts where b: "b = (key, ts)" by force
  show ?case
    using Cons.IH [of "applyUntagOp cur b idx"]
    by (auto simp: applyUntagBatch_def b applyUntagOp_spec)
qed (simp add: applyUntagBatch_def)

lemma applyUntagBatch_ok: "idx_ok idx \<Longrightarrow> idx_ok (applyUntagBatch cur batch idx)"
  using fold_invariant [where Q = "\<lambda>_. True" and P = idx_ok and f = "applyUntagOp cur" and xs = batch and s = idx]
  by (simp add: applyUntagBatch_def applyUntagOp_ok)

text \<open>The drain on shutdown is the same as one batch of the whole queue.\<close>

lemma drainRemaining_eq: "drainRemaining cur q idx = applyUntagBatch cur q idx"
proof (induction cur q idx rule: drainRemaining.induct)
  case (1 cur q idx)
  show ?case
  proof (cases "q = []")
    case True
    then show ?thesis by (simp add: drainRemaining.simps applyUntagBatch_def)
  next
    case False
    have "applyUntagBatch cur q idx = applyUntagBatch cur (drop 64 q) (applyUntagBatch cur (take 64 q) idx)"
      by (metis append_take_drop_id applyUntagBatch_def comp_apply fold_append)
    then show ?thesis using 1 [OF False] False by (simp add: drainRemaining.simps [of cur q])
  qed
qed

lemma snapshot_distinct: "idx_ok idx \<Longrightarrow> distinct (idx_snapshot t idx)"
  by (auto simp: idx_ok_def idx_snapshot_def split: option.splits)

section \<open>The index and the entries\<close>

text \<open>What the cleanup guarantees, whatever is queued: with \<open>cur\<close> the tags the entries carry now,
  every carried tag is in the index, and every pair of the index that is not carried is queued for
  removal.\<close>

definition pending_untag :: "'k tags \<Rightarrow> string \<Rightarrow> 'k \<Rightarrow> bool" where
  "pending_untag g t k \<longleftrightarrow> (\<exists>ts. (k, ts) \<in> set (tg_batch g) \<union> set (tg_queue g) \<and> t \<in> set ts)"

definition tags_ok :: "('k \<Rightarrow> string list) \<Rightarrow> 'k tags \<Rightarrow> bool" where
  "tags_ok cur g \<longleftrightarrow> idx_ok (tg_index g) \<and>
     (\<forall>t k. t \<in> set (cur k) \<longrightarrow> tagged (tg_index g) t k) \<and>
     (\<forall>t k. tagged (tg_index g) t k \<longrightarrow> t \<in> set (cur k) \<or> pending_untag g t k)"

lemma tags_ok_new: "tags_ok (\<lambda>_. []) newTags"
  by (simp add: tags_ok_def newTags_def idx_ok_new)

lemma tags_ok_enqueue:
  assumes "tags_ok cur g" and "cur' = cur(key := [])" and "set (cur key) \<subseteq> set ts"
  shows "tags_ok cur' (enqueueUntag key ts g)"
proof -
  have a: "idx_ok (tg_index g)" "\<And>t k. t \<in> set (cur k) \<Longrightarrow> tagged (tg_index g) t k"
    "\<And>t k. tagged (tg_index g) t k \<Longrightarrow> t \<in> set (cur k) \<or> pending_untag g t k"
    using assms(1) unfolding tags_ok_def by blast+
  have stale: "tagged (tg_index g) t key \<Longrightarrow> t \<notin> set ts \<Longrightarrow> pending_untag g t key" for t
    using a(3) [of t key] assms(3) by blast
  consider "ts = []" | "ts \<noteq> []" "length (tg_queue g) < tagCleanupBuffer" | "ts \<noteq> []" "\<not> length (tg_queue g) < tagCleanupBuffer"
    by blast
  then show ?thesis
  proof cases
    case 1
    then have "cur' = cur" using assms(2,3) by (auto simp: fun_eq_iff)
    then show ?thesis using assms(1) 1 by (simp add: enqueueUntag_def)
  next
    case 2
    define g' where "g' = g\<lparr>tg_queue := tg_queue g @ [(key, ts)]\<rparr>"
    have p: "pending_untag g' t k \<longleftrightarrow> pending_untag g t k \<or> (k = key \<and> t \<in> set ts)" for t k
      by (auto simp: pending_untag_def g'_def)
    have i: "tg_index g' = tg_index g" by (simp add: g'_def)
    have "tags_ok cur' g'"
      unfolding tags_ok_def i p using a assms(2) stale by auto
    then show ?thesis using 2 by (simp add: enqueueUntag_def g'_def)
  next
    case 3
    define g' where "g' = g\<lparr>tg_index := idx_untag key ts (tg_index g), tg_overflows := tg_overflows g + 1\<rparr>"
    have p: "pending_untag g' t k \<longleftrightarrow> pending_untag g t k" for t k
      by (simp add: pending_untag_def g'_def)
    have i: "tg_index g' = idx_untag key ts (tg_index g)" by (simp add: g'_def)
    have "tags_ok cur' g'"
      unfolding tags_ok_def i p idx_untag_spec using a assms(2) stale idx_untag_ok [OF a(1)] by auto
    then show ?thesis using 3 by (simp add: enqueueUntag_def g'_def)
  qed
qed

lemma tags_ok_retag:
  assumes "tags_ok cur g" and "set old = set (cur key)"
  shows "tags_ok (cur(key := new)) (g\<lparr>tg_index := retag key old new (tg_index g)\<rparr>)"
  using assms unfolding tags_ok_def pending_untag_def by (auto simp: retag_spec retag_ok)

lemma tags_ok_take: "tags_ok cur g \<Longrightarrow> tags_ok cur (cleanupTake g)"
proof -
  have "set (take 64 (tg_queue g)) \<union> set (drop 64 (tg_queue g)) = set (tg_queue g)"
    by (metis append_take_drop_id set_append)
  then have "pending_untag (cleanupTake g) t k \<longleftrightarrow> pending_untag g t k" for t k
    by (auto simp: pending_untag_def cleanupTake_def)
  moreover have "tg_index (cleanupTake g) = tg_index g" by (simp add: cleanupTake_def)
  ultimately show "tags_ok cur g \<Longrightarrow> ?thesis" by (simp add: tags_ok_def)
qed

lemma tags_ok_apply:
  assumes "tags_ok cur g"
  shows "tags_ok cur (cleanupApply cur g)"
proof -
  have "tagged (tg_index g) t k \<longrightarrow> t \<in> set (cur k) \<or> pending_untag g t k" for t k
    using assms by (simp add: tags_ok_def)
  then have "t \<in> set (cur k) \<or> pending_untag (cleanupApply cur g) t k"
    if "tagged (tg_index (cleanupApply cur g)) t k" for t k
    using that by (auto simp: cleanupApply_def applyUntagBatch_spec pending_untag_def)
  then show ?thesis
    using assms by (simp add: tags_ok_def cleanupApply_def applyUntagBatch_spec applyUntagBatch_ok)
qed

lemma tags_ok_settled:
  assumes "tags_ok cur g" and "tagCleanupBacklog g = 0"
  shows "tagged (tg_index g) t k \<longleftrightarrow> t \<in> set (cur k)"
proof -
  have "length (tg_queue g) + length (tg_batch g) = 0"
    using assms(2) unfolding tagCleanupBacklog_def by (simp only: of_nat_eq_0_iff)
  then have "tg_queue g = []" "tg_batch g = []" by simp_all
  then have "\<not> pending_untag g t k" by (simp add: pending_untag_def)
  then show ?thesis using assms(1) by (auto simp: tags_ok_def)
qed

end
