(* ===== verification/Events.thy ===== *)
theory Events
  imports Entry Errors "HOL-Library.AList"
begin

text \<open>
  The event bus of a cache (events.go): subscribers with a kind filter and a bounded channel;
  publishing never blocks, and a full channel drops the event and counts the drop.

  A channel is an object its reader keeps after it leaves the bus, so the channels live in a table of
  their own, addressed by the identifier of the subscription.
\<close>

unbundle bit_operations_syntax

fun kind_index :: "eventKind \<Rightarrow> nat" where
  "kind_index EventInsert = 0"
| "kind_index EventUpdate = 1"
| "kind_index EventEvict = 2"
| "kind_index EventExpire = 3"
| "kind_index EventLoad = 4"
| "kind_index EventLoadError = 5"
| "kind_index EventLoadTimeout = 6"
| "kind_index EventLoadRateLimited = 7"
| "kind_index EventInvalidateTag = 8"
| "kind_index EventResize = 9"
| "kind_index EventSnapshot = 10"

record ('k, 'v) event =
  ev_Kind :: eventKind
  ev_Key :: "'k option"
  ev_Value :: "'v option"
  ev_Reason :: "evictionReason option"
  ev_At :: int
  ev_Tags :: "string list"
  ev_Err :: "'k error option"

type_synonym eventKindMask = "32 word"

definition mask_has :: "eventKindMask \<Rightarrow> eventKind \<Rightarrow> bool" where
  "mask_has m k = (if m = 0 then True else m AND push_bit (kind_index k) 1 \<noteq> 0)"

definition kindMask :: "eventKind list \<Rightarrow> eventKindMask" where
  "kindMask kinds = fold (\<lambda>k m. m OR push_bit (kind_index k) 1) kinds 0"

record ('k, 'v) channel =
  ch_buf :: "('k, 'v) event list"
  ch_cap :: nat
  ch_closed :: bool

record ('k, 'v) eventBus =
  eb_subs :: "(nat \<times> eventKindMask) list"
  eb_chans :: "nat \<Rightarrow> ('k, 'v) channel option"
  eb_nextID :: nat
  eb_closed :: bool

definition newEventBus :: "('k, 'v) eventBus" where
  "newEventBus = \<lparr>eb_subs = [], eb_chans = Map.empty, eb_nextID = 0, eb_closed = False\<rparr>"

definition eb_active :: "('k, 'v) eventBus \<Rightarrow> bool" where
  "eb_active b \<longleftrightarrow> int (length (eb_subs b)) > 0"

text \<open>Subscribing on a closed bus closes the channel at once and gives the identifier 0; the reader's
  channel is then empty and closed.\<close>

definition eb_subscribe :: "nat \<Rightarrow> eventKindMask \<Rightarrow> ('k, 'v) eventBus \<Rightarrow> nat \<times> ('k, 'v) eventBus" where
  "eb_subscribe cap kinds b =
     (if eb_closed b then (0, b)
      else let i = eb_nextID b + 1
           in (i, b\<lparr>eb_nextID := i, eb_subs := AList.update i kinds (eb_subs b),
                    eb_chans := (eb_chans b)(i \<mapsto> \<lparr>ch_buf = [], ch_cap = cap, ch_closed = False\<rparr>)\<rparr>))"

definition close_chan :: "nat \<Rightarrow> (nat \<Rightarrow> ('k, 'v) channel option) \<Rightarrow> nat \<Rightarrow> ('k, 'v) channel option" where
  "close_chan i chans = chans(i := map_option (\<lambda>ch. ch\<lparr>ch_closed := True\<rparr>) (chans i))"

definition eb_unsubscribe :: "nat \<Rightarrow> ('k, 'v) eventBus \<Rightarrow> ('k, 'v) eventBus" where
  "eb_unsubscribe i b =
     (if i = 0 then b
      else if map_of (eb_subs b) i = None then b
      else b\<lparr>eb_subs := AList.delete i (eb_subs b), eb_chans := close_chan i (eb_chans b)\<rparr>)"

text \<open>One round of the loop in \<open>publish\<close>: a send that does not block, or a drop.\<close>

definition publish_one :: "('k, 'v) event \<Rightarrow> nat \<times> eventKindMask \<Rightarrow>
    (nat \<Rightarrow> ('k, 'v) channel option) \<times> 64 word \<Rightarrow> (nat \<Rightarrow> ('k, 'v) channel option) \<times> 64 word" where
  "publish_one e sub st =
     (case (sub, st) of ((i, kinds), (chans, drops)) \<Rightarrow>
        if \<not> mask_has kinds (ev_Kind e) then (chans, drops)
        else case chans i of
               None \<Rightarrow> (chans, drops)
             | Some ch \<Rightarrow>
                 if length (ch_buf ch) < ch_cap ch then (chans(i \<mapsto> ch\<lparr>ch_buf := ch_buf ch @ [e]\<rparr>), drops)
                 else (chans, drops + 1))"

definition eb_publish :: "('k, 'v) event \<Rightarrow> 64 word \<Rightarrow> ('k, 'v) eventBus \<Rightarrow> ('k, 'v) eventBus \<times> 64 word" where
  "eb_publish e drops b =
     (let (chans, drops) = fold (publish_one e) (eb_subs b) (eb_chans b, drops)
      in (b\<lparr>eb_chans := chans\<rparr>, drops))"

definition eb_close :: "('k, 'v) eventBus \<Rightarrow> ('k, 'v) eventBus" where
  "eb_close b =
     (if eb_closed b then b
      else b\<lparr>eb_closed := True, eb_chans := fold close_chan (map fst (eb_subs b)) (eb_chans b), eb_subs := []\<rparr>)"

text \<open>A reader takes the oldest event of its channel.\<close>

definition eb_receive :: "nat \<Rightarrow> ('k, 'v) eventBus \<Rightarrow> ('k, 'v) event option \<times> ('k, 'v) eventBus" where
  "eb_receive i b =
     (case eb_chans b i of
        Some ch \<Rightarrow> (case ch_buf ch of
                     e # rest \<Rightarrow> (Some e, b\<lparr>eb_chans := (eb_chans b)(i \<mapsto> ch\<lparr>ch_buf := rest\<rparr>)\<rparr>)
                   | [] \<Rightarrow> (None, b))
      | None \<Rightarrow> (None, b))"

text \<open>The buffer size of \<open>Subscribe\<close>; \<open>dflt\<close> is \<open>cfg.eventsBuffer\<close>.\<close>

definition subscribeBuffer :: "int \<Rightarrow> int \<Rightarrow> int" where
  "subscribeBuffer buf dflt = (if buf \<le> 0 then (if dflt \<le> 0 then 64 else dflt) else buf)"

section \<open>The filter\<close>

lemma kind_index_inj: "kind_index a = kind_index b \<longleftrightarrow> a = b"
  by (cases a; cases b; simp)

lemma kind_index_lt: "kind_index k < 32"
  by (cases k) simp_all

lemma bit_kindMask: "bit (kindMask kinds) n \<longleftrightarrow> n \<in> kind_index ` set kinds"
proof -
  have "bit (fold (\<lambda>k m. m OR push_bit (kind_index k) 1) kinds m0) n \<longleftrightarrow> bit m0 n \<or> n \<in> kind_index ` set kinds"
    for m0 :: "32 word"
    using kind_index_lt by (induction kinds arbitrary: m0) (auto simp: bit_or_iff bit_exp_iff)
  from this [of 0] show ?thesis by (simp add: kindMask_def)
qed

lemma mask_has_bit: "m \<noteq> 0 \<Longrightarrow> mask_has m k \<longleftrightarrow> bit m (kind_index k)"
proof -
  have "m AND push_bit (kind_index k) 1 \<noteq> 0 \<longleftrightarrow> bit m (kind_index k)" for m :: "32 word"
    using kind_index_lt [of k] unfolding bit_eq_iff [of _ "0 :: 32 word"] by (auto simp: bit_and_iff bit_exp_iff)
  then show "m \<noteq> 0 \<Longrightarrow> ?thesis" by (simp add: mask_has_def)
qed

lemma kindMask_has: "mask_has (kindMask kinds) k \<longleftrightarrow> kinds = [] \<or> k \<in> set kinds"
proof (cases "kinds = []")
  case True
  then show ?thesis by (simp add: kindMask_def mask_has_def)
next
  case False
  then have "kindMask kinds \<noteq> 0"
    using bit_kindMask [of kinds "kind_index (hd kinds)"] by auto
  then show ?thesis using False by (auto simp: mask_has_bit bit_kindMask kind_index_inj)
qed

section \<open>Delivery\<close>

text \<open>Subscriptions have distinct identifiers that were handed out, each with its channel.\<close>

definition eb_ids :: "('k, 'v) eventBus \<Rightarrow> nat set" where
  "eb_ids b = fst ` set (eb_subs b)"

definition eb_ok :: "('k, 'v) eventBus \<Rightarrow> bool" where
  "eb_ok b \<longleftrightarrow> distinct (map fst (eb_subs b)) \<and>
     (\<forall>i \<in> eb_ids b. eb_chans b i \<noteq> None \<and> 0 < i \<and> i \<le> eb_nextID b) \<and>
     (eb_closed b \<longrightarrow> eb_subs b = [])"

text \<open>The number of subscriptions that drop an event.\<close>

definition eb_drops :: "('k, 'v) event \<Rightarrow> ('k, 'v) eventBus \<Rightarrow> nat" where
  "eb_drops e b = length (filter (\<lambda>(i, kinds). mask_has kinds (ev_Kind e) \<and>
     (case eb_chans b i of None \<Rightarrow> False | Some ch \<Rightarrow> ch_cap ch \<le> length (ch_buf ch))) (eb_subs b))"

lemma publish_one_frame:
  "j \<noteq> i \<Longrightarrow> fst (publish_one e (i, kinds) (chans, drops)) j = chans j"
  by (auto simp: publish_one_def split: option.splits)

lemma publish_fold_frame:
  "j \<notin> fst ` set subs \<Longrightarrow> fst (fold (publish_one e) subs st) j = fst st j"
proof (induction subs arbitrary: st)
  case (Cons s subs)
  obtain i kinds where s: "s = (i, kinds)" by force
  have "fst (publish_one e s st) j = fst st j"
    using Cons.prems publish_one_frame [of j i e kinds "fst st" "snd st"] by (simp add: s)
  then show ?case using Cons.IH [of "publish_one e s st"] Cons.prems by simp
qed simp

text \<open>What one event does to the channel of a subscription.\<close>

definition deliver :: "eventKindMask \<Rightarrow> ('k, 'v) event \<Rightarrow> ('k, 'v) channel \<Rightarrow> ('k, 'v) channel" where
  "deliver kinds e ch =
     (if mask_has kinds (ev_Kind e) \<and> length (ch_buf ch) < ch_cap ch then ch\<lparr>ch_buf := ch_buf ch @ [e]\<rparr> else ch)"

lemma publish_one_at: "chans i = Some ch \<Longrightarrow> fst (publish_one e (i, kinds) (chans, drops)) i = Some (deliver kinds e ch)"
  by (simp add: publish_one_def deliver_def)

lemma publish_one_drops:
  "snd (publish_one e (i, kinds) (chans, drops)) = drops +
     (if mask_has kinds (ev_Kind e) \<and> (case chans i of None \<Rightarrow> False | Some ch \<Rightarrow> ch_cap ch \<le> length (ch_buf ch))
      then 1 else 0)"
  by (auto simp: publish_one_def split: option.splits)

lemma publish_fold_at:
  assumes "distinct (map fst subs)" and "(i, kinds) \<in> set subs" and "fst st i = Some ch"
  shows "fst (fold (publish_one e) subs st) i = Some (deliver kinds e ch)"
  using assms
proof (induction subs arbitrary: st)
  case (Cons s subs)
  obtain j m where s: "s = (j, m)" by force
  obtain chans drops where st: "st = (chans, drops)" by force
  show ?case
  proof (cases "j = i")
    case True
    then have m: "m = kinds" using Cons.prems(1,2) by (auto simp: s rev_image_eqI)
    have "fst (publish_one e s st) i = Some (deliver kinds e ch)"
      using Cons.prems(3) publish_one_at [of chans i ch] by (simp add: s st m True)
    moreover have "i \<notin> fst ` set subs" using Cons.prems(1) by (simp add: s True)
    ultimately show ?thesis using publish_fold_frame [of i subs e "publish_one e s st"] by simp
  next
    case False
    have "fst (publish_one e s st) i = Some ch"
      using Cons.prems(3) publish_one_frame [of i j e m chans drops] False by (simp add: s st)
    then show ?thesis using Cons.IH [of "publish_one e s st"] Cons.prems(1,2) False by (auto simp: s)
  qed
qed simp

lemma publish_fold_drops:
  assumes "distinct (map fst subs)"
  shows "snd (fold (publish_one e) subs st) = snd st + of_nat (length (filter (\<lambda>(i, kinds). mask_has kinds (ev_Kind e) \<and>
     (case fst st i of None \<Rightarrow> False | Some ch \<Rightarrow> ch_cap ch \<le> length (ch_buf ch))) subs))"
  using assms
proof (induction subs arbitrary: st)
  case (Cons s subs)
  obtain j m where s: "s = (j, m)" by force
  obtain chans drops where st: "st = (chans, drops)" by force
  define st' where "st' = publish_one e (j, m) (chans, drops)"
  have same: "fst st' i = chans i" if "i \<in> fst ` set subs" for i
    using that Cons.prems publish_one_frame [of i j e m chans drops] by (auto simp: s st'_def)
  have "filter (\<lambda>(i, kinds). mask_has kinds (ev_Kind e) \<and>
       (case fst st' i of None \<Rightarrow> False | Some ch \<Rightarrow> ch_cap ch \<le> length (ch_buf ch))) subs =
     filter (\<lambda>(i, kinds). mask_has kinds (ev_Kind e) \<and>
       (case chans i of None \<Rightarrow> False | Some ch \<Rightarrow> ch_cap ch \<le> length (ch_buf ch))) subs"
    using same by (intro filter_cong) (auto simp: rev_image_eqI)
  moreover have "snd st' = drops + (if mask_has m (ev_Kind e) \<and>
      (case chans j of None \<Rightarrow> False | Some ch \<Rightarrow> ch_cap ch \<le> length (ch_buf ch)) then 1 else 0)"
    by (simp add: st'_def publish_one_drops)
  ultimately show ?case
    using Cons.IH [of st'] Cons.prems by (simp add: st'_def [symmetric] s st add.assoc)
qed simp

lemma eb_publish_subs [simp]:
  "eb_subs (fst (eb_publish e d b)) = eb_subs b" "eb_nextID (fst (eb_publish e d b)) = eb_nextID b"
  "eb_closed (fst (eb_publish e d b)) = eb_closed b"
  by (simp_all add: eb_publish_def case_prod_beta)

lemma eb_publish_at:
  assumes "eb_ok b" and "(i, kinds) \<in> set (eb_subs b)" and "eb_chans b i = Some ch"
  shows "eb_chans (fst (eb_publish e d b)) i = Some (deliver kinds e ch)"
  using publish_fold_at [of "eb_subs b" i kinds "(eb_chans b, d)" ch e] assms
  by (simp add: eb_ok_def eb_publish_def case_prod_beta)

lemma eb_publish_drops: "eb_ok b \<Longrightarrow> snd (eb_publish e d b) = d + of_nat (eb_drops e b)"
  using publish_fold_drops [of "eb_subs b" e "(eb_chans b, d)"]
  by (simp add: eb_ok_def eb_publish_def eb_drops_def case_prod_beta)

lemma eb_publish_ok: "eb_ok b \<Longrightarrow> eb_ok (fst (eb_publish e d b))"
proof -
  assume ok: "eb_ok b"
  have "eb_chans (fst (eb_publish e d b)) i \<noteq> None" if i: "i \<in> eb_ids b" for i
  proof -
    obtain kinds where k: "(i, kinds) \<in> set (eb_subs b)" using i by (force simp: eb_ids_def)
    obtain ch where "eb_chans b i = Some ch" using ok i by (auto simp: eb_ok_def)
    then show ?thesis using eb_publish_at [OF ok k] by simp
  qed
  then show ?thesis using ok by (simp add: eb_ok_def eb_ids_def)
qed

lemma eb_ok_new: "eb_ok newEventBus"
  by (simp add: eb_ok_def eb_ids_def newEventBus_def)

lemma eb_subscribe_ok: "eb_ok b \<Longrightarrow> eb_ok (snd (eb_subscribe cap kinds b))"
proof -
  have "eb_ids (snd (eb_subscribe cap kinds b)) = insert (eb_nextID b + 1) (eb_ids b)" if "\<not> eb_closed b"
    using that by (simp add: eb_ids_def eb_subscribe_def Let_def dom_update)
  then show "eb_ok b \<Longrightarrow> ?thesis"
    by (cases "eb_closed b") (auto simp: eb_ok_def eb_subscribe_def Let_def distinct_update)
qed

lemma close_chan_None [simp]: "close_chan i chans j = None \<longleftrightarrow> chans j = None"
  by (simp add: close_chan_def)

lemma eb_unsubscribe_ok: "eb_ok b \<Longrightarrow> eb_ok (eb_unsubscribe i b)"
proof -
  have "fst ` set (AList.delete i (eb_subs b)) = set (removeAll i (map fst (eb_subs b)))"
    by (metis delete_keys list.set_map)
  then have "eb_ids (eb_unsubscribe i b) \<subseteq> eb_ids b"
    by (auto simp: eb_ids_def eb_unsubscribe_def)
  then show "eb_ok b \<Longrightarrow> ?thesis" by (auto simp: eb_ok_def eb_unsubscribe_def distinct_delete simp del: not_None_eq)
qed

lemma eb_close_ok: "eb_ok b \<Longrightarrow> eb_ok (eb_close b)"
  by (auto simp: eb_ok_def eb_ids_def eb_close_def)

text \<open>Publishing a sequence of events; the drop counter is threaded through.\<close>

definition publish_all :: "('k, 'v) event list \<Rightarrow> ('k, 'v) eventBus \<times> 64 word \<Rightarrow> ('k, 'v) eventBus \<times> 64 word" where
  "publish_all es st = fold (\<lambda>e (b, d). eb_publish e d b) es st"

lemma deliver_take:
  assumes "length (ch_buf ch) \<le> ch_cap ch"
  shows "fold (deliver kinds) es ch =
    ch\<lparr>ch_buf := take (ch_cap ch) (ch_buf ch @ filter (\<lambda>e. mask_has kinds (ev_Kind e)) es)\<rparr>"
  using assms by (induction es arbitrary: ch) (auto simp: deliver_def take_Cons')

text \<open>C34: A subscriber receives the events of its kinds in the order they were published, until its
  buffer is full. After any sequence of publications a channel holds what it held followed by the
  matching events, cut at its capacity; other channels are not disturbed by it, and publishing one
  event counts one drop for every subscriber that wanted it and had no room. A filter made from a
  list of kinds matches exactly these kinds, and the empty list matches all.\<close>

theorem events_delivered:
  assumes "eb_ok b" and "(i, kindMask ks) \<in> set (eb_subs b)"
    and "eb_chans b i = Some ch" and "length (ch_buf ch) \<le> ch_cap ch"
  shows "eb_chans (fst (publish_all es (b, d))) i =
      Some (ch\<lparr>ch_buf := take (ch_cap ch) (ch_buf ch @ filter (\<lambda>e. ks = [] \<or> ev_Kind e \<in> set ks) es)\<rparr>) \<and>
    snd (eb_publish e d b) = d + of_nat (eb_drops e b)"
proof -
  have "eb_chans (fst (publish_all es (b, d))) i = Some (fold (deliver (kindMask ks)) es ch)"
    if "eb_ok b" "(i, kindMask ks) \<in> set (eb_subs b)" "eb_chans b i = Some ch" for b d ch
    using that
  proof (induction es arbitrary: b d ch)
    case (Cons e es)
    obtain b' d' where p: "eb_publish e d b = (b', d')" by force
    have "eb_ok b'" "(i, kindMask ks) \<in> set (eb_subs b')" "eb_chans b' i = Some (deliver (kindMask ks) e ch)"
      using eb_publish_ok [OF Cons.prems(1), of e d] eb_publish_subs(1) [of e d b]
        eb_publish_at [OF Cons.prems, of e d] Cons.prems(2) by (simp_all add: p)
    from Cons.IH [OF this, of d'] show ?case by (simp add: publish_all_def p)
  qed (simp add: publish_all_def)
  from this [OF assms(1-3)] have "eb_chans (fst (publish_all es (b, d))) i =
      Some (ch\<lparr>ch_buf := take (ch_cap ch) (ch_buf ch @ filter (\<lambda>e. ks = [] \<or> ev_Kind e \<in> set ks) es)\<rparr>)"
    by (simp add: deliver_take [OF assms(4)] kindMask_has)
  then show ?thesis using eb_publish_drops [OF assms(1)] by blast
qed

definition example_bus :: "(nat, nat) eventBus" where
  "example_bus = snd (eb_subscribe 1 (kindMask [EventExpire]) newEventBus)"

definition example_event :: "eventKind \<Rightarrow> (nat, nat) event" where
  "example_event kind = \<lparr>ev_Kind = kind, ev_Key = Some 7, ev_Value = Some 3, ev_Reason = None, ev_At = 0,
     ev_Tags = [], ev_Err = None\<rparr>"

theorem events_delivered_witness:
  "eb_chans (fst (publish_all [example_event EventInsert, example_event EventExpire, example_event EventExpire]
     (example_bus, 0))) 1 = Some \<lparr>ch_buf = [example_event EventExpire], ch_cap = 1, ch_closed = False\<rparr>"
proof -
  have b: "eb_ok example_bus" "(1, kindMask [EventExpire]) \<in> set (eb_subs example_bus)"
    "eb_chans example_bus 1 = Some \<lparr>ch_buf = [], ch_cap = 1, ch_closed = False\<rparr>"
    by (simp_all add: example_bus_def eb_ok_def eb_ids_def eb_subscribe_def newEventBus_def Let_def)
  from conjunct1 [OF events_delivered [OF b, of "[example_event EventInsert, example_event EventExpire,
      example_event EventExpire]" 0]] show ?thesis
    by (simp add: example_event_def)
qed

end
