(* ===== verification/Cache.thy ===== *)
theory Cache
  imports Settings Tags Events Stats Flights TTL_Backend Shard_Store
begin

text \<open>
  The state of a cache (cache.go, shard.go) and the operations on a locked shard: lookup of
  freshness, insertion and update, removal, eviction down to the bounds, and the release of the lock
  with its deferred callbacks.

  A shard holds its storage, eviction policy, TTL backend, loads in flight and cached errors. The
  other fields of \<open>Cache\<close> are the record \<open>core\<close>: settings that never change, the tag index, the
  event bus, the admission policy, the counters, the live bounds. A function of the code that runs
  with a shard locked maps the pair of the core and this shard to a new pair; an entry it changes
  through a pointer is written back under its key.

  Time and chance are part of the core: \<open>c_now\<close> is what the clock shows during an operation, and
  \<open>c_rand\<close> gives the successive results of the random number generator. Hooks are user code: a call
  to one is appended to \<open>c_calls\<close>. A callback that is deferred until the lock is released is the
  record \<open>removal\<close> of the values the closure captures.

  The model is of caches without \<open>WithStore\<close>, \<open>WithAsyncWrites\<close> and \<open>WithLockFreeRead\<close>; locks are
  left out, since an operation runs atomically.
\<close>

unbundle bit_operations_syntax

section \<open>State\<close>

record ('k, 'v) removal =
  rm_key :: 'k
  rm_value :: 'v
  rm_reason :: evictionReason
  rm_tags :: "string list"
  rm_at :: int

record 'k cachedError =
  ce_err :: "'k error"
  ce_expireAt :: int

record janitorState =
  ja_running :: bool
  ja_idle :: nat

record ('k, 'v) shard =
  sh_storage :: "('k, ('k, 'v) entry) shardStore"
  sh_policy :: "'k evictionPolicy"
  sh_ttl :: "'k ttlBackend"
  sh_janitor :: janitorState
  sh_flights :: "'k flights"
  sh_errors :: "('k \<times> 'k cachedError) list"
  sh_budget :: int
  sh_hashIndex :: "(64 word \<times> 'k) list option"
  sh_pendingCallbacks :: "('k, 'v) removal list"

datatype ('k, 'v) hookCall =
    HookHit 'k 'v | HookMiss 'k | HookEvict 'k 'v evictionReason | HookExpire 'k 'v
  | HookLoad 'k 'v int "'k error option" | HookPurge 'k 'v | HookPublish 'k evictionReason

record ('k, 'v) core =
  c_settings :: "('k, 'v) settings"
  c_tags :: "'k tags"
  c_events :: "('k, 'v) eventBus"
  c_admission :: "'k admission"
  c_counters :: statsCounters
  c_maxEntries :: int
  c_maxBytes :: int
  c_shedNext :: "64 word"
  c_closed :: bool
  c_sealed :: bool
  c_now :: int
  c_rand :: "nat \<Rightarrow> nat"
  c_drawn :: nat
  c_calls :: "('k, 'v) hookCall list"

abbreviation c_cfg :: "('k, 'v) core \<Rightarrow> ('k, 'v) config" where
  "c_cfg c \<equiv> su_cfg (c_settings c)"

abbreviation c_types :: "('k, 'v) core \<Rightarrow> ('k, 'v) typeInfo" where
  "c_types c \<equiv> su_types (c_settings c)"

abbreviation c_hasher :: "('k, 'v) core \<Rightarrow> 'k \<Rightarrow> 64 word" where
  "c_hasher c \<equiv> su_hasher (c_settings c)"

type_synonym ('k, 'v) locked = "('k, 'v) core \<times> ('k, 'v) shard"

section \<open>Counters, chance, hooks and events\<close>

definition count :: "(statsCounters \<Rightarrow> statsCounters) \<Rightarrow> ('k, 'v) core \<Rightarrow> ('k, 'v) core" where
  "count f c = c\<lparr>c_counters := f (c_counters c)\<rparr>"

definition count_if :: "bool \<Rightarrow> (statsCounters \<Rightarrow> statsCounters) \<Rightarrow> ('k, 'v) core \<Rightarrow> ('k, 'v) core" where
  "count_if b f c = (if b then count f c else c)"

definition addEntries :: "int \<Rightarrow> statsCounters \<Rightarrow> statsCounters" where
  "addEntries d s = s\<lparr>sc_entries := wrap64 (sc_entries s + d)\<rparr>"

definition addBytes :: "int \<Rightarrow> statsCounters \<Rightarrow> statsCounters" where
  "addBytes d s = s\<lparr>sc_bytes := wrap64 (sc_bytes s + d)\<rparr>"

definition drawRand :: "('k, 'v) core \<Rightarrow> nat \<times> ('k, 'v) core" where
  "drawRand c = (c_rand c (c_drawn c), c\<lparr>c_drawn := c_drawn c + 1\<rparr>)"

definition callHook :: "bool \<Rightarrow> ('k, 'v) hookCall \<Rightarrow> ('k, 'v) core \<Rightarrow> ('k, 'v) core" where
  "callHook installed h c = (if installed then c\<lparr>c_calls := c_calls c @ [h]\<rparr> else c)"

definition publishEvent :: "('k, 'v) event \<Rightarrow> ('k, 'v) core \<Rightarrow> ('k, 'v) core" where
  "publishEvent e c =
     (if \<not> eb_active (c_events c) then c
      else let (b, d) = eb_publish e (sc_eventsDropped (c_counters c)) (c_events c)
           in count (sc_eventsDropped_update (\<lambda>_. d)) (c\<lparr>c_events := b\<rparr>))"

definition publishInvalidation :: "'k \<Rightarrow> evictionReason \<Rightarrow> ('k, 'v) core \<Rightarrow> ('k, 'v) core" where
  "publishInvalidation key reason c =
     callHook (su_invalidationPublisher (c_settings c)) (HookPublish key reason) c"

definition recordHit :: "('k, 'v) core \<Rightarrow> ('k, 'v) core" where
  "recordHit c =
     (if cf_statsEnabled (c_cfg c) then let (r, c) = drawRand c in count (addHit (of_nat r)) c else c)"

definition recordMiss :: "('k, 'v) core \<Rightarrow> ('k, 'v) core" where
  "recordMiss c =
     (if cf_statsEnabled (c_cfg c) then let (r, c) = drawRand c in count (addMiss (of_nat r)) c else c)"

definition recordHitObserve :: "'k \<Rightarrow> ('k, 'v) core \<Rightarrow> ('k, 'v) core" where
  "recordHitObserve key c =
     (let c = recordHit c in c\<lparr>c_admission := adm_Observe (c_hasher c) key (c_admission c)\<rparr>)"

definition fireHit :: "'k \<Rightarrow> 'v \<Rightarrow> ('k, 'v) core \<Rightarrow> ('k, 'v) core" where
  "fireHit key v c = callHook (su_onHit (c_settings c)) (HookHit key v) c"

definition fireMiss :: "'k \<Rightarrow> ('k, 'v) core \<Rightarrow> ('k, 'v) core" where
  "fireMiss key c = callHook (su_onMiss (c_settings c)) (HookMiss key) c"

definition returnValue :: "('k, 'v) core \<Rightarrow> 'v \<Rightarrow> 'v" where
  "returnValue c v = (case su_copyOnGet (c_settings c) of Some f \<Rightarrow> f v | None \<Rightarrow> v)"

section \<open>Limits, weights and TTLs\<close>

definition checkKeySize :: "('k, 'v) core \<Rightarrow> 'k \<Rightarrow> 'k error option" where
  "checkKeySize c key =
     (if cf_maxKeySize (c_cfg c) \<le> 0 then None
      else case ty_keyLen (c_types c) key of
             None \<Rightarrow> None
           | Some n \<Rightarrow>
               if n \<le> cf_maxKeySize (c_cfg c) then None
               else Some (CapacityError (Some key) ''key exceeds MaxKeySize'' ''MaxKeySize'' (Some ErrKeyTooLarge)))"

definition weighOf :: "('k, 'v) core \<Rightarrow> 'v \<Rightarrow> int" where
  "weighOf c v = clampWeight (case su_weigher (c_settings c) of Some w \<Rightarrow> w v | None \<Rightarrow> 1)"

definition computeWeight :: "('k, 'v) core \<Rightarrow> 'k \<Rightarrow> 'v \<Rightarrow> 'k error + int" where
  "computeWeight c key v =
     (let weight = weighOf c v
      in if cf_maxValueWeight (c_cfg c) > 0 \<and> weight > cf_maxValueWeight (c_cfg c)
         then Inl (CapacityError (Some key) ''value weight exceeds MaxValueWeight'' ''MaxValueWeight'' (Some ErrValueTooLarge))
         else Inr weight)"

definition resolveJitter :: "('k, 'v) core \<Rightarrow> int \<Rightarrow> int" where
  "resolveJitter c ttl = (if cf_ttlJitterExplicit (c_cfg c) then cf_ttlJitter (c_cfg c) else quot64 ttl 20)"

text \<open>A draw below \<open>n\<close> is \<open>rand.Int64N(n)\<close>.\<close>

definition effectiveTTL :: "int \<Rightarrow> ('k, 'v) core \<Rightarrow> int \<times> ('k, 'v) core" where
  "effectiveTTL ttl c =
     (if ttl \<le> 0 then (ttl, c)
      else let j = resolveJitter c ttl; (r, c) = drawRand c
           in (applyJitter ttl j (int r mod (2 * jitterWindow ttl j + 1)), c))"

definition valueTTL :: "('k, 'v) core \<Rightarrow> 'v \<Rightarrow> int \<Rightarrow> int" where
  "valueTTL c v fallback = extractCacheableTTL (c_types c) v fallback"

definition autoTags :: "('k, 'v) core \<Rightarrow> 'v \<Rightarrow> string list" where
  "autoTags c v = deriveAutoTags (c_types c) v"

section \<open>Freshness\<close>

text \<open>\<open>callExpireFunc\<close> recovers from a panic of the predicate, its result \<^const>\<open>None\<close>, and reports the
  entry as fresh.\<close>

definition callExpireFunc :: "('k \<Rightarrow> 'v \<Rightarrow> metadata \<Rightarrow> bool option) \<Rightarrow> 'v \<Rightarrow> ('k, 'v) entry \<Rightarrow> bool \<times> bool" where
  "callExpireFunc f zero e =
     (case f (e_key e) (e_loadValue zero e) (e_metadata e) of None \<Rightarrow> (False, True) | Some b \<Rightarrow> (b, False))"

definition entryExpiredLockedReason :: "('k, 'v) core \<Rightarrow> ('k, 'v) entry \<Rightarrow> evictionReason option" where
  "entryExpiredLockedReason c e =
     (if e_expired e (c_now c) then Some EvictReasonExpired
      else case su_expireFunc (c_settings c) of
             None \<Rightarrow> None
           | Some f \<Rightarrow> if fst (callExpireFunc f (ty_zeroV (c_types c)) e) then Some EvictReasonExpireFunc else None)"

definition entryExpiredLocked :: "('k, 'v) core \<Rightarrow> ('k, 'v) entry \<Rightarrow> bool" where
  "entryExpiredLocked c e \<longleftrightarrow> entryExpiredLockedReason c e \<noteq> None"

definition shouldRefreshAhead :: "('k, 'v) core \<Rightarrow> ('k, 'v) entry \<Rightarrow> bool" where
  "shouldRefreshAhead c e =
     (if \<not> su_loader (c_settings c) then False
      else case cf_refreshAheadAt (c_cfg c) of
        None \<Rightarrow> False
      | Some threshold \<Rightarrow>
          if flags_has (e_flags e) flagNegative then False
          else if e_expireAt e = 0 then False
          else let age = wrap64 (c_now c - e_inserted e); ttl = wrap64 (e_expireAt e - e_inserted e)
               in if ttl \<le> 0 then False else age \<ge> threshold ttl)"

definition shouldServeStale :: "('k, 'v) core \<Rightarrow> ('k, 'v) entry \<Rightarrow> bool" where
  "shouldServeStale c e =
     (if \<not> su_loader (c_settings c) then False
      else if cf_swrStaleFor (c_cfg c) \<le> 0 then False
      else if flags_has (e_flags e) flagNegative then False
      else if e_expireAt e = 0 \<or> e_expireAt e > c_now c then False
      else wrap64 (c_now c - e_expireAt e) < cf_swrStaleFor (c_cfg c))"

section \<open>Locked shard: expiry tracking, collisions and removal\<close>

text \<open>The expiry of a key's entry as the TTL backend reads it.\<close>

definition expiryOf :: "('k, ('k, 'v) entry) shardStore \<Rightarrow> 'k \<Rightarrow> int" where
  "expiryOf st k = (case st_get k st of None \<Rightarrow> 0 | Some e \<Rightarrow> e_expireAt e)"

definition expiryAdd :: "'k \<Rightarrow> ('k, 'v) shard \<Rightarrow> ('k, 'v) shard" where
  "expiryAdd k s = s\<lparr>sh_ttl := ttl_Add (expiryOf (sh_storage s)) k (sh_ttl s)\<rparr>"

definition expiryFix :: "'k \<Rightarrow> ('k, 'v) shard \<Rightarrow> ('k, 'v) shard" where
  "expiryFix k s = s\<lparr>sh_ttl := ttl_Fix (expiryOf (sh_storage s)) k (sh_ttl s)\<rparr>"

text \<open>Writing a changed entry back under its key; the policy's record of a key follows it.\<close>

definition putEntry :: "('k, 'v) entry \<Rightarrow> ('k, 'v) shard \<Rightarrow> ('k, 'v) shard" where
  "putEntry e s = s\<lparr>sh_storage := st_set (e_key e) e (sh_storage s)\<rparr>"

definition startJanitorLocked :: "('k, 'v) locked \<Rightarrow> ('k, 'v) shard" where
  "startJanitorLocked cs =
     (case cs of (c, s) \<Rightarrow>
        if cf_janitorInterval (c_cfg c) \<le> 0 \<or> c_sealed c then s
        else if ja_running (sh_janitor s) then s
        else s\<lparr>sh_janitor := \<lparr>ja_running = True, ja_idle = 0\<rparr>\<rparr>)"

definition recordHashCollisionLocked :: "'k \<Rightarrow> ('k, 'v) locked \<Rightarrow> ('k, 'v) locked" where
  "recordHashCollisionLocked key cs =
     (case cs of (c, s) \<Rightarrow>
        case sh_hashIndex s of
          None \<Rightarrow> (c, s)
        | Some ix \<Rightarrow>
            let h = c_hasher c key;
                c = (case map_of ix h of
                       Some pk \<Rightarrow> count_if (pk \<noteq> key \<and> cf_statsEnabled (c_cfg c)) (sc_hashCollisions_update (\<lambda>n. n + 1)) c
                     | None \<Rightarrow> c)
            in (c, s\<lparr>sh_hashIndex := Some (AList.update h key ix)\<rparr>))"

definition forgetHashLocked :: "'k \<Rightarrow> ('k, 'v) locked \<Rightarrow> ('k, 'v) shard" where
  "forgetHashLocked key cs =
     (case cs of (c, s) \<Rightarrow>
        case sh_hashIndex s of
          None \<Rightarrow> s
        | Some ix \<Rightarrow>
            let h = c_hasher c key
            in if map_of ix h = Some key then s\<lparr>sh_hashIndex := Some (AList.delete h ix)\<rparr> else s)"

text \<open>Whether a removal has anybody to tell.\<close>

definition notifies :: "('k, 'v) core \<Rightarrow> ('k, 'v) entry \<Rightarrow> bool" where
  "notifies c e \<longleftrightarrow> \<not> flags_has (e_flags e) flagNegative \<and>
     (su_onExpire (c_settings c) \<or> su_onEvict (c_settings c) \<or> su_invalidationPublisher (c_settings c) \<or>
      eb_active (c_events c))"

definition removeLocked :: "('k, 'v) entry \<Rightarrow> evictionReason \<Rightarrow> ('k, 'v) locked \<Rightarrow> ('k, 'v) locked" where
  "removeLocked e reason cs =
     (case cs of (c, s) \<Rightarrow>
        let key = e_key e;
            val = e_loadValue (ty_zeroV (c_types c)) e;
            notify = notifies c e;
            ex = expiryOf (sh_storage s);
            s = (if supersedesFlight reason then s\<lparr>sh_flights := supersedeFlight key (sh_flights s)\<rparr> else s);
            s = s\<lparr>sh_storage := snd (st_del key (sh_storage s))\<rparr>;
            s = forgetHashLocked key (c, s);
            s = s\<lparr>sh_ttl := ttl_Remove ex key (sh_ttl s), sh_policy := pol_onRemove key (sh_policy s)\<rparr>;
            c = c\<lparr>c_tags := enqueueUntag key (e_tags e) (c_tags c)\<rparr>;
            c = count (addBytes (- e_weight e) \<circ> addEntries (- 1)) c;
            c = count_if (cf_statsEnabled (c_cfg c)) (sc_evictionsByReason_update (\<lambda>f. f(reason := f reason + 1))) c;
            s = (if notify
                 then s\<lparr>sh_pendingCallbacks := sh_pendingCallbacks s @
                        [\<lparr>rm_key = key, rm_value = val, rm_reason = reason, rm_tags = e_tags e, rm_at = c_now c\<rparr>]\<rparr>
                 else s)
        in (c, s))"

section \<open>Locked shard: eviction\<close>

definition overBudget :: "('k, 'v) core \<Rightarrow> bool" where
  "overBudget c \<longleftrightarrow>
     (c_maxEntries c > 0 \<and> sc_entries (c_counters c) > c_maxEntries c) \<or>
     (c_maxBytes c > 0 \<and> sc_bytes (c_counters c) > c_maxBytes c)"

text \<open>The choice of a victim in one round of \<open>evictOverBudgetLocked\<close>.\<close>

definition evictChoice :: "int \<Rightarrow> ('k, 'v) locked \<Rightarrow> 'k option \<times> 'k evictionPolicy" where
  "evictChoice keep cs =
     (case cs of (c, s) \<Rightarrow>
        let n = st_length (sh_storage s);
            overShard = (sh_budget s > 0 \<and> n > sh_budget s);
            overTotal = (n > keep \<and> overBudget c);
            (victim, p) = (if overShard then pol_victim (sh_policy s) else (None, sh_policy s))
        in if victim = None \<and> overTotal then shedVictim (keep > 0) p else (victim, p))"

text \<open>The loop; every round removes an entry, so as many rounds as there are entries are enough.\<close>

fun evictLoop :: "nat \<Rightarrow> evictionReason \<Rightarrow> int \<Rightarrow> ('k, 'v) locked \<Rightarrow> int \<times> ('k, 'v) locked" where
  "evictLoop 0 reason keep cs = (0, cs)"
| "evictLoop (Suc fuel) reason keep (c, s) =
     (case evictChoice keep (c, s) of (victim, p) \<Rightarrow>
        let s = s\<lparr>sh_policy := p\<rparr>
        in case victim of
             None \<Rightarrow> (0, (c, s))
           | Some k \<Rightarrow>
               case st_get k (sh_storage s) of
                 None \<Rightarrow> (0, (c, s))
               | Some e \<Rightarrow>
                   let (c, s) = removeLocked e reason (c, s);
                       c = count (sc_evictions_update (\<lambda>n. n + 1)) c;
                       (n, cs) = evictLoop fuel reason keep (c, s)
                   in (n + 1, cs))"

definition evictOverBudgetLocked :: "evictionReason \<Rightarrow> int \<Rightarrow> ('k, 'v) locked \<Rightarrow> int \<times> ('k, 'v) locked" where
  "evictOverBudgetLocked reason keep cs = evictLoop (Suc (nat (st_length (sh_storage (snd cs))))) reason keep cs"

definition evictWhileOverBudgetLocked :: "('k, 'v) locked \<Rightarrow> ('k, 'v) locked" where
  "evictWhileOverBudgetLocked cs = snd (evictOverBudgetLocked EvictReasonCapacity 1 cs)"

section \<open>Locked shard: insertion and update\<close>

text \<open>The entry an insertion fills in.\<close>

definition freshEntry :: "('k, 'v) core \<Rightarrow> 'k \<Rightarrow> 'v \<Rightarrow> int \<Rightarrow> int \<Rightarrow> bool \<Rightarrow> int \<Rightarrow> string list \<Rightarrow> ('k, 'v) entry" where
  "freshEntry c key v weight expireAt sliding rawTTL tags =
     (let e = (e_storeValue v (pool_get (ty_zeroK (c_types c))))
                \<lparr>e_key := key, e_weight := weight, e_inserted := c_now c, e_lastAccess := c_now c,
                 e_expireAt := expireAt\<rparr>;
          e = (if sliding then e\<lparr>e_flags := flags_set (e_flags e) flagSliding, e_slidingTTL := rawTTL\<rparr> else e)
      in if tags \<noteq> [] then e\<lparr>e_tags := tags\<rparr> else e)"

text \<open>The entry an update leaves.\<close>

definition updatedEntry :: "('k, 'v) core \<Rightarrow> 'v \<Rightarrow> int \<Rightarrow> int \<Rightarrow> bool \<Rightarrow> int \<Rightarrow> string list \<Rightarrow>
    ('k, 'v) entry \<Rightarrow> ('k, 'v) entry" where
  "updatedEntry c v weight expireAt sliding rawTTL tags e =
     (let e = (e_storeValue v e)\<lparr>e_weight := weight, e_expireAt := expireAt, e_lastAccess := c_now c, e_hits := 0\<rparr>;
          e = e\<lparr>e_flags := flags_clear (e_flags e) flagNegative\<rparr>;
          e = (if sliding then e\<lparr>e_flags := flags_set (e_flags e) flagSliding, e_slidingTTL := rawTTL\<rparr>
               else e\<lparr>e_flags := flags_clear (e_flags e) flagSliding, e_slidingTTL := 0\<rparr>)
      in e\<lparr>e_tags := tags\<rparr>)"

definition keyEvent :: "eventKind \<Rightarrow> 'k \<Rightarrow> 'v \<Rightarrow> string list \<Rightarrow> ('k, 'v) core \<Rightarrow> ('k, 'v) event" where
  "keyEvent kind key v tags c =
     \<lparr>ev_Kind = kind, ev_Key = Some key, ev_Value = Some v, ev_Reason = None, ev_At = c_now c, ev_Tags = tags,
      ev_Err = None\<rparr>"

text \<open>The branch of \<open>upsertLocked\<close> for a key that has an entry.\<close>

definition upsertExisting :: "'v \<Rightarrow> int \<Rightarrow> int \<Rightarrow> bool \<Rightarrow> int \<Rightarrow> string list \<Rightarrow> ('k, 'v) entry \<Rightarrow>
    ('k, 'v) locked \<Rightarrow> ('k, 'v) locked" where
  "upsertExisting v weight expireAt sliding rawTTL tags existing cs =
     (case cs of (c, s) \<Rightarrow>
        let key = e_key existing;
            c = count (addBytes (- e_weight existing + weight)) c;
            s = putEntry (updatedEntry c v weight expireAt sliding rawTTL tags existing) s;
            c = c\<lparr>c_tags := (c_tags c)\<lparr>tg_index := retag key (e_tags existing) tags (tg_index (c_tags c))\<rparr>\<rparr>;
            s = expiryFix key s;
            s = s\<lparr>sh_policy := pol_onUpdate key (sh_policy s)\<rparr>;
            c = count_if (cf_statsEnabled (c_cfg c)) (sc_updates_update (\<lambda>n. n + 1)) c;
            s = (if expireAt > 0 then startJanitorLocked (c, s) else s);
            c = publishEvent (keyEvent EventUpdate key v tags c) c
        in (c, s))"

text \<open>The branch for a new key that was admitted: everything up to the eviction, then the eviction
  and the event.\<close>

definition insertEntry :: "('k, 'v) entry \<Rightarrow> ('k, 'v) locked \<Rightarrow> ('k, 'v) locked" where
  "insertEntry e cs =
     (case cs of (c, s) \<Rightarrow>
        let key = e_key e;
            s = putEntry e s;
            s = expiryAdd key s;
            s = s\<lparr>sh_policy := pol_onInsert key (sh_policy s)\<rparr>;
            c = c\<lparr>c_tags := (c_tags c)\<lparr>tg_index := retag key [] (e_tags e) (tg_index (c_tags c))\<rparr>\<rparr>;
            c = count (addBytes (e_weight e) \<circ> addEntries 1) c;
            c = count_if (cf_statsEnabled (c_cfg c)) (sc_inserts_update (\<lambda>n. n + 1)) c;
            s = (if e_expireAt e > 0 then startJanitorLocked (c, s) else s)
        in (c, s))"

definition insertAdmitted :: "'k \<Rightarrow> 'v \<Rightarrow> int \<Rightarrow> int \<Rightarrow> bool \<Rightarrow> int \<Rightarrow> string list \<Rightarrow> ('k, 'v) locked \<Rightarrow> ('k, 'v) locked" where
  "insertAdmitted key v weight expireAt sliding rawTTL tags cs =
     (let (c, s) = recordHashCollisionLocked key cs;
          (c, s) = insertEntry (freshEntry c key v weight expireAt sliding rawTTL tags) (c, s);
          (c, s) = evictWhileOverBudgetLocked (c, s)
      in (publishEvent (keyEvent EventInsert key v tags c) c, s))"

definition upsertLocked :: "'k \<Rightarrow> 'v \<Rightarrow> int \<Rightarrow> int \<Rightarrow> bool \<Rightarrow> int \<Rightarrow> string list \<Rightarrow> ('k, 'v) locked \<Rightarrow> ('k, 'v) locked" where
  "upsertLocked key v weight effTTL sliding rawTTL tags cs =
     (case cs of (c, s) \<Rightarrow>
        let expireAt = (if effTTL > 0 then wrap64 (c_now c + effTTL) else 0);
            s = s\<lparr>sh_flights := supersedeFlight key (sh_flights s)\<rparr>
        in if c_sealed c then (c, s)
           else case st_get key (sh_storage s) of
                  Some existing \<Rightarrow> upsertExisting v weight expireAt sliding rawTTL tags existing (c, s)
                | None \<Rightarrow>
                    let admit = adm_Admit (c_hasher c) key (c_admission c);
                        c = c\<lparr>c_admission := adm_Observe (c_hasher c) key (c_admission c)\<rparr>
                    in if \<not> admit
                       then (count_if (cf_statsEnabled (c_cfg c)) (sc_admissionRejects_update (\<lambda>n. n + 1)) c, s)
                       else insertAdmitted key v weight expireAt sliding rawTTL tags (c, s))"

section \<open>The cache: shards, release of a lock, shedding\<close>

record ('k, 'v) cache =
  core :: "('k, 'v) core"
  shards :: "('k, 'v) shard list"

definition shardMask :: "('k, 'v) cache \<Rightarrow> 64 word" where
  "shardMask C = of_nat (length (shards C) - 1)"

definition shardFor :: "'k \<Rightarrow> ('k, 'v) cache \<Rightarrow> nat" where
  "shardFor key C = unat (c_hasher (core C) key AND shardMask C)"

text \<open>A section of code that runs with a shard locked.\<close>

definition withShard :: "nat \<Rightarrow> (('k, 'v) locked \<Rightarrow> 'r \<times> ('k, 'v) locked) \<Rightarrow> ('k, 'v) cache \<Rightarrow> 'r \<times> ('k, 'v) cache" where
  "withShard i f C =
     (case f (core C, shards C ! i) of (r, (c, s)) \<Rightarrow> (r, C\<lparr>core := c, shards := (shards C)[i := s]\<rparr>))"

text \<open>The closure \<open>removeCallbackFor\<close> builds, when it is called.\<close>

definition removeCallbackFor :: "('k, 'v) removal \<Rightarrow> ('k, 'v) core \<Rightarrow> ('k, 'v) core" where
  "removeCallbackFor r c =
     (let ev = (\<lambda>kind. \<lparr>ev_Kind = kind, ev_Key = Some (rm_key r), ev_Value = Some (rm_value r),
            ev_Reason = Some (rm_reason r), ev_At = rm_at r, ev_Tags = rm_tags r, ev_Err = None\<rparr>);
          c = (if rm_reason r = EvictReasonExpired \<or> rm_reason r = EvictReasonExpireFunc
               then publishEvent (ev EventExpire)
                      (callHook (su_onExpire (c_settings c)) (HookExpire (rm_key r) (rm_value r)) c)
               else publishEvent (ev EventEvict)
                      (callHook (su_onEvict (c_settings c)) (HookEvict (rm_key r) (rm_value r) (rm_reason r)) c))
      in if rm_reason r \<noteq> EvictReasonRemote then publishInvalidation (rm_key r) (rm_reason r) c else c)"

definition releaseShard :: "nat \<Rightarrow> ('k, 'v) cache \<Rightarrow> ('k, 'v) cache" where
  "releaseShard i C =
     (let cbs = sh_pendingCallbacks (shards C ! i);
          C = C\<lparr>shards := (shards C)[i := (shards C ! i)\<lparr>sh_pendingCallbacks := []\<rparr>]\<rparr>
      in C\<lparr>core := fold removeCallbackFor cbs (core C)\<rparr>)"

text \<open>The shards a sweep visits: all from \<open>start\<close> on, cyclically, with \<open>last\<close> moved to the end.\<close>

definition shedOrder :: "64 word \<Rightarrow> nat option \<Rightarrow> ('k, 'v) cache \<Rightarrow> nat list" where
  "shedOrder start lastShard C =
     filter (\<lambda>i. Some i \<noteq> lastShard) (map (\<lambda>i. unat ((start + of_nat i) AND shardMask C)) [0..<length (shards C)]) @
     (case lastShard of None \<Rightarrow> [] | Some i \<Rightarrow> [i])"

fun shedShards :: "nat list \<Rightarrow> evictionReason \<Rightarrow> ('k, 'v) cache \<Rightarrow> int \<times> ('k, 'v) cache" where
  "shedShards [] reason C = (0, C)"
| "shedShards (i # is) reason C =
     (if \<not> overBudget (core C) then (0, C)
      else let (n, C) = withShard i (evictOverBudgetLocked reason 0) C;
               C = releaseShard i C;
               (m, C) = shedShards is reason C
           in (n + m, C))"

definition shedPass :: "evictionReason \<Rightarrow> nat option \<Rightarrow> ('k, 'v) cache \<Rightarrow> int \<times> ('k, 'v) cache" where
  "shedPass reason lastShard C =
     (let start = c_shedNext (core C) + 1;
          C = C\<lparr>core := (core C)\<lparr>c_shedNext := start\<rparr>\<rparr>
      in shedShards (shedOrder start lastShard C) reason C)"

text \<open>The loop of \<open>shedOverBudget\<close>: it stops when the cache is within its bounds or a sweep evicts
  nothing. A sweep that evicts something leaves fewer entries, so one round more than there are entries
  is enough. (The flags \<open>shedding\<close> and \<open>shedRetry\<close> coordinate concurrent sweeps.)\<close>

fun shedLoop :: "nat \<Rightarrow> evictionReason \<Rightarrow> nat option \<Rightarrow> ('k, 'v) cache \<Rightarrow> int \<times> ('k, 'v) cache" where
  "shedLoop 0 reason lastShard C = (0, C)"
| "shedLoop (Suc fuel) reason lastShard C =
     (if \<not> overBudget (core C) then (0, C)
      else let (n, C) = shedPass reason lastShard C
           in if n = 0 then (n, C)
              else let (m, C) = shedLoop fuel reason lastShard C in (n + m, C))"

definition storedEntries :: "('k, 'v) cache \<Rightarrow> int" where
  "storedEntries C = sum_list (map (st_length \<circ> sh_storage) (shards C))"

definition shedOverBudget :: "evictionReason \<Rightarrow> nat option \<Rightarrow> ('k, 'v) cache \<Rightarrow> int \<times> ('k, 'v) cache" where
  "shedOverBudget reason lastShard C = shedLoop (Suc (nat (storedEntries C))) reason lastShard C"

definition flushAndUnlock :: "nat \<Rightarrow> ('k, 'v) cache \<Rightarrow> ('k, 'v) cache" where
  "flushAndUnlock i C = snd (shedOverBudget EvictReasonCapacity (Some i) (releaseShard i C))"

section \<open>Construction\<close>

definition newShard :: "'k evictionPolicy \<Rightarrow> int \<Rightarrow> bool \<Rightarrow> 'k ttlBackend \<Rightarrow> ('k, ('k, 'v) entry) shardStore \<Rightarrow>
    ('k, 'v) shard" where
  "newShard p budget trackCollisions ttl storage =
     \<lparr>sh_storage = storage, sh_policy = p, sh_ttl = ttl, sh_janitor = \<lparr>ja_running = False, ja_idle = 0\<rparr>,
      sh_flights = newFlights, sh_errors = [], sh_budget = budget,
      sh_hashIndex = (if trackCollisions then Some [] else None), sh_pendingCallbacks = []\<rparr>"

text \<open>One round of the loop in \<open>initShards\<close>. Both constructors that can diverge return for the sizes
  they are called with.\<close>

definition initShard :: "('k, 'v) settings \<Rightarrow> int \<Rightarrow> int \<Rightarrow> ('k, 'v) shard option" where
  "initShard st perShard now =
     (let cfg = su_cfg st;
          pcfg = \<lparr>pc_budget = perShard, pc_hasher = Some (su_hasher st), pc_lockFreeRead = cf_lockFreeRead cfg\<rparr>
      in map_option (newShard (newPolicy (cf_policyKind cfg) pcfg) perShard (cf_collisionTracking cfg)
             (newTTLBackend (cf_ttlBuckets cfg) (cf_ttlBucketsTickPerBucket cfg) (cf_janitorInterval cfg) (Some now)))
           (newShardStore (cf_flatStorage cfg) (su_hasher st)))"

text \<open>\<open>build\<close> after the configuration was resolved: the cache is allocated with fresh shards. \<open>procs\<close>
  is the number of processors. Auto-load, auto-save, the subscriber goroutine and the publication in
  expvar are not modelled.\<close>

definition buildCache :: "'k error option \<Rightarrow> ('k, 'v) typeInfo \<Rightarrow> int \<Rightarrow> int \<Rightarrow> (nat \<Rightarrow> nat) \<Rightarrow>
    ('k, 'v) config \<Rightarrow> bool \<Rightarrow> ('k error + ('k, 'v) cache) option" where
  "buildCache expvarErr ty procs now rnd cfg allowUnbounded =
     (case resolveAll expvarErr ty cfg allowUnbounded of
        Inl err \<Rightarrow> Some (Inl err)
      | Inr (st, adm) \<Rightarrow>
          case nextPowerOfTwo (max (cf_shardCount cfg) 1) of
            None \<Rightarrow> None
          | Some n \<Rightarrow>
              map_option (\<lambda>sh. Inr
                \<lparr>core = \<lparr>c_settings = st, c_tags = newTags, c_events = newEventBus, c_admission = adm,
                     c_counters = newStatsCounters (cf_shardedStats cfg) procs now,
                     c_maxEntries = cf_maxEntries cfg, c_maxBytes = cf_maxBytes cfg, c_shedNext = 0,
                     c_closed = False, c_sealed = False, c_now = now, c_rand = rnd, c_drawn = 0, c_calls = []\<rparr>,
                 shards = replicate (nat n) sh\<rparr>)
              (initShard st (perShardBudget (cf_maxEntries cfg) n) now))"

section \<open>Frames\<close>

lemma count_fields [simp]:
  "c_counters (count f c) = f (c_counters c)" "c_settings (count f c) = c_settings c" "c_tags (count f c) = c_tags c"
  "c_events (count f c) = c_events c" "c_admission (count f c) = c_admission c"
  "c_maxEntries (count f c) = c_maxEntries c" "c_maxBytes (count f c) = c_maxBytes c"
  "c_closed (count f c) = c_closed c" "c_sealed (count f c) = c_sealed c" "c_now (count f c) = c_now c"
  by (simp_all add: count_def)

lemma count_if_fields [simp]:
  "sc_entries (c_counters (count_if b f c)) = (if b then sc_entries (f (c_counters c)) else sc_entries (c_counters c))"
  "sc_bytes (c_counters (count_if b f c)) = (if b then sc_bytes (f (c_counters c)) else sc_bytes (c_counters c))"
  "c_settings (count_if b f c) = c_settings c" "c_tags (count_if b f c) = c_tags c"
  "c_events (count_if b f c) = c_events c" "c_admission (count_if b f c) = c_admission c"
  "c_maxEntries (count_if b f c) = c_maxEntries c" "c_maxBytes (count_if b f c) = c_maxBytes c"
  "c_closed (count_if b f c) = c_closed c" "c_sealed (count_if b f c) = c_sealed c" "c_now (count_if b f c) = c_now c"
  by (simp_all add: count_if_def)

lemma callHook_fields [simp]:
  "c_counters (callHook b h c) = c_counters c" "c_settings (callHook b h c) = c_settings c" "c_tags (callHook b h c) = c_tags c"
  "c_events (callHook b h c) = c_events c" "c_admission (callHook b h c) = c_admission c"
  "c_maxEntries (callHook b h c) = c_maxEntries c" "c_maxBytes (callHook b h c) = c_maxBytes c"
  "c_closed (callHook b h c) = c_closed c" "c_sealed (callHook b h c) = c_sealed c" "c_now (callHook b h c) = c_now c"
  by (simp_all add: callHook_def)

lemma publishEvent_fields [simp]:
  "sc_entries (c_counters (publishEvent e c)) = sc_entries (c_counters c)"
  "sc_bytes (c_counters (publishEvent e c)) = sc_bytes (c_counters c)"
  "c_settings (publishEvent e c) = c_settings c" "c_tags (publishEvent e c) = c_tags c"
  "c_admission (publishEvent e c) = c_admission c"
  "c_maxEntries (publishEvent e c) = c_maxEntries c" "c_maxBytes (publishEvent e c) = c_maxBytes c"
  "c_closed (publishEvent e c) = c_closed c" "c_sealed (publishEvent e c) = c_sealed c" "c_now (publishEvent e c) = c_now c"
  by (simp_all add: publishEvent_def case_prod_beta)

lemma publishEvent_ok [simp]: "eb_ok (c_events c) \<Longrightarrow> eb_ok (c_events (publishEvent e c))"
  using eb_publish_ok [of "c_events c"] by (simp add: publishEvent_def case_prod_beta)

lemma drawRand_fields [simp]:
  "c_counters (snd (drawRand c)) = c_counters c" "c_settings (snd (drawRand c)) = c_settings c"
  "c_tags (snd (drawRand c)) = c_tags c" "c_events (snd (drawRand c)) = c_events c"
  "c_admission (snd (drawRand c)) = c_admission c"
  "c_maxEntries (snd (drawRand c)) = c_maxEntries c" "c_maxBytes (snd (drawRand c)) = c_maxBytes c"
  "c_closed (snd (drawRand c)) = c_closed c" "c_sealed (snd (drawRand c)) = c_sealed c" "c_now (snd (drawRand c)) = c_now c"
  by (simp_all add: drawRand_def)

lemma hit_counts [simp]:
  "sc_entries (addHit r s) = sc_entries s" "sc_bytes (addHit r s) = sc_bytes s"
  "sc_entries (addMiss r s) = sc_entries s" "sc_bytes (addMiss r s) = sc_bytes s"
  by (simp_all add: addHit_def addMiss_def split: option.split)

lemma recordHit_fields [simp]:
  "sc_entries (c_counters (recordHit c)) = sc_entries (c_counters c)"
  "sc_bytes (c_counters (recordHit c)) = sc_bytes (c_counters c)"
  "c_settings (recordHit c) = c_settings c" "c_tags (recordHit c) = c_tags c" "c_events (recordHit c) = c_events c"
  "c_admission (recordHit c) = c_admission c"
  "c_maxEntries (recordHit c) = c_maxEntries c" "c_maxBytes (recordHit c) = c_maxBytes c"
  "c_closed (recordHit c) = c_closed c" "c_sealed (recordHit c) = c_sealed c" "c_now (recordHit c) = c_now c"
  by (simp_all add: recordHit_def case_prod_beta)

lemma recordMiss_fields [simp]:
  "sc_entries (c_counters (recordMiss c)) = sc_entries (c_counters c)"
  "sc_bytes (c_counters (recordMiss c)) = sc_bytes (c_counters c)"
  "c_settings (recordMiss c) = c_settings c" "c_tags (recordMiss c) = c_tags c" "c_events (recordMiss c) = c_events c"
  "c_admission (recordMiss c) = c_admission c"
  "c_maxEntries (recordMiss c) = c_maxEntries c" "c_maxBytes (recordMiss c) = c_maxBytes c"
  "c_closed (recordMiss c) = c_closed c" "c_sealed (recordMiss c) = c_sealed c" "c_now (recordMiss c) = c_now c"
  by (simp_all add: recordMiss_def case_prod_beta)

lemma add_counts [simp]:
  "sc_entries (addEntries d s) = wrap64 (sc_entries s + d)" "sc_bytes (addEntries d s) = sc_bytes s"
  "sc_bytes (addBytes d s) = wrap64 (sc_bytes s + d)" "sc_entries (addBytes d s) = sc_entries s"
  by (simp_all add: addEntries_def addBytes_def)

lemma wrap64_add [simp]: "wrap64 (wrap64 a + b) = wrap64 (a + b)"
  unfolding wrap64_def by (simp add: mod_simps add.assoc add.commute add.left_commute)

end
