(* ===== verification/Cache_Inv.thy ===== *)
theory Cache_Inv
  imports Cache
begin

text \<open>
  The invariant of a cache and its preservation by the operations on a locked shard, by the eviction
  loop and by the sweep over the shards.

  A shard is well-formed (\<open>shard_ok\<close>) when its storage, eviction policy and TTL backend agree: the
  policy tracks exactly the stored keys, the TTL backend exactly those with an expiry, at the expiry
  the entry has. While a shard is locked the counters and the tag index refer to it and to the other
  shards together: \<open>locked_ok own oth n w\<close> is the invariant of the pair of core and locked shard when
  the shard owns the keys \<open>own\<close>, and the others hold \<open>n\<close> entries of total weight \<open>w\<close> with the tags
  \<open>oth\<close>. Every locked operation preserves it for all \<open>oth\<close>, \<open>n\<close> and \<open>w\<close>, which gives the invariant
  \<open>cache_ok\<close> of the whole cache.

  Times are non-negative and below \<open>2 ^ 62\<close> nanoseconds (the year 2116), and TTLs are at most \<open>2 ^ 60\<close>,
  so that expiries do not overflow.
\<close>

section \<open>The part of the core no locked operation changes\<close>

definition frozen :: "('k, 'v) core \<Rightarrow> ('k, 'v) settings \<times> int \<times> bool \<times> bool \<times> int \<times> int" where
  "frozen c = (c_settings c, c_now c, c_sealed c, c_closed c, c_maxEntries c, c_maxBytes c)"

lemma frozenD:
  assumes "frozen c' = frozen c"
  shows "c_settings c' = c_settings c" "c_now c' = c_now c" "c_sealed c' = c_sealed c" "c_closed c' = c_closed c"
    "c_maxEntries c' = c_maxEntries c" "c_maxBytes c' = c_maxBytes c"
  using assms by (simp_all add: frozen_def)

lemma frozen_simps [simp]:
  "frozen (count f c) = frozen c" "frozen (count_if b f c) = frozen c" "frozen (callHook b h c) = frozen c"
  "frozen (publishEvent ev c) = frozen c" "frozen (snd (drawRand c)) = frozen c"
  "frozen (recordHit c) = frozen c" "frozen (recordMiss c) = frozen c"
  "frozen (c\<lparr>c_tags := g\<rparr>) = frozen c" "frozen (c\<lparr>c_events := b'\<rparr>) = frozen c"
  "frozen (c\<lparr>c_admission := a\<rparr>) = frozen c" "frozen (c\<lparr>c_counters := n\<rparr>) = frozen c"
  "frozen (c\<lparr>c_shedNext := m\<rparr>) = frozen c" "frozen (c\<lparr>c_drawn := d\<rparr>) = frozen c"
  by (simp_all add: frozen_def)

section \<open>Sums over the entries of a store\<close>

lemma dom_each: "st_ok st \<Longrightarrow> dom (\<lambda>k. st_get k st) = fst ` set (st_each st)"
  by (force simp: st.in_each [symmetric] dom_def)

lemma finite_stored: "st_ok st \<Longrightarrow> finite (dom (\<lambda>k. st_get k st))"
  by (simp add: dom_each)

lemma sum_each:
  assumes "st_ok st"
  shows "sum_list (map (f \<circ> snd) (st_each st)) = (\<Sum>k \<in> dom (\<lambda>k. st_get k st). f (the (st_get k st)))"
proof -
  have d: "distinct (map fst (st_each st))" by (rule st.each_distinct [OF assms])
  then have "sum_list (map (f \<circ> snd) (st_each st)) = sum (f \<circ> snd) (set (st_each st))"
    by (intro sum_list_distinct_conv_sum_set) (simp add: distinct_map)
  also have "\<dots> = sum (\<lambda>x. f (the (st_get (fst x) st))) (set (st_each st))"
  proof (rule sum.cong)
    fix x assume "x \<in> set (st_each st)"
    then have "st_get (fst x) st = Some (snd x)" using st.in_each [OF assms, of "fst x" "snd x"] by simp
    then show "(f \<circ> snd) x = f (the (st_get (fst x) st))" by simp
  qed simp
  also have "\<dots> = sum (\<lambda>k. f (the (st_get k st))) (fst ` set (st_each st))"
    using d by (subst sum.reindex) (simp_all add: distinct_map)
  finally show ?thesis by (simp add: dom_each [OF assms])
qed

definition weightIn :: "('k, ('k, 'v) entry) shardStore \<Rightarrow> int" where
  "weightIn st = sum_list (map (e_weight \<circ> snd) (st_each st))"

lemma dom_set: "st_ok st \<Longrightarrow> dom (\<lambda>k. st_get k (st_set key e st)) = insert key (dom (\<lambda>k. st_get k st))"
  by (auto simp: st.get_set dom_def)

lemma dom_del: "st_ok st \<Longrightarrow> dom (\<lambda>k. st_get k (snd (st_del key st))) = dom (\<lambda>k. st_get k st) - {key}"
  by (auto simp: st.get_del dom_def)

lemma weight_set:
  assumes "st_ok st"
  shows "weightIn (st_set key e st) = weightIn st + e_weight e -
    (case st_get key st of None \<Rightarrow> 0 | Some e0 \<Rightarrow> e_weight e0)"
proof -
  let ?D = "dom (\<lambda>k. st_get k st)"
  let ?w = "\<lambda>k. e_weight (the (st_get k st))"
  have fin: "finite ?D" by (rule finite_stored [OF assms])
  have "weightIn (st_set key e st) = (\<Sum>k \<in> insert key ?D. e_weight (the (st_get k (st_set key e st))))"
    using sum_each [OF st.set_ok [OF assms], of e_weight key e] by (simp add: weightIn_def dom_set [OF assms])
  also have "\<dots> = e_weight e + (\<Sum>k \<in> ?D - {key}. ?w k)"
    using fin by (subst sum.insert_remove) (auto simp: st.get_set [OF assms] intro!: sum.cong)
  also have "(\<Sum>k \<in> ?D - {key}. ?w k) = weightIn st - (case st_get key st of None \<Rightarrow> 0 | Some e0 \<Rightarrow> e_weight e0)"
    using sum_each [OF assms, of e_weight] fin
    by (cases "st_get key st") (auto simp: weightIn_def sum_diff1 domIff)
  finally show ?thesis by simp
qed

lemma weight_del:
  assumes "st_ok st" and "st_get key st = Some e0"
  shows "weightIn (snd (st_del key st)) = weightIn st - e_weight e0"
proof -
  let ?D = "dom (\<lambda>k. st_get k st)"
  have fin: "finite ?D" by (rule finite_stored [OF assms(1)])
  have "weightIn (snd (st_del key st)) = (\<Sum>k \<in> ?D - {key}. e_weight (the (st_get k (snd (st_del key st)))))"
    using sum_each [OF st.del_ok [OF assms(1)], of e_weight key] by (simp add: weightIn_def dom_del [OF assms(1)])
  also have "\<dots> = (\<Sum>k \<in> ?D - {key}. e_weight (the (st_get k st)))"
    by (intro sum.cong) (auto simp: st.get_del [OF assms(1)])
  also have "\<dots> = weightIn st - e_weight e0"
    using sum_each [OF assms(1), of e_weight] fin assms(2) by (auto simp: weightIn_def sum_diff1 domIff)
  finally show ?thesis .
qed

lemma weight_clear: "st_ok st \<Longrightarrow> weightIn (st_clearAll st) = 0"
  by (simp add: weightIn_def st.clear_each)

lemma length_nonneg: "st_ok st \<Longrightarrow> 0 \<le> st_length st"
  by (simp add: st.size_each)

lemma length_zero: "st_ok st \<Longrightarrow> st_length st = 0 \<longleftrightarrow> (\<forall>k. st_get k st = None)"
  using map_of_eq_empty_iff [of "st_each st"] by (simp add: st.size_each st.get_each fun_eq_iff)

section \<open>Well-formed shards\<close>

definition ttl_max :: int where
  "ttl_max = 2 ^ 60"

definition entry_ok :: "('k, 'v) entry \<Rightarrow> bool" where
  "entry_ok e \<longleftrightarrow> 1 \<le> e_weight e \<and> e_weight e \<le> maxEntryWeight \<and> time_ok (e_expireAt e) \<and> e_slidingTTL e \<le> ttl_max"

definition tagsIn :: "('k, ('k, 'v) entry) shardStore \<Rightarrow> 'k \<Rightarrow> string list" where
  "tagsIn st k = (case st_get k st of None \<Rightarrow> [] | Some e \<Rightarrow> e_tags e)"

text \<open>The keys whose entry has an expiry.\<close>

definition timed :: "('k, ('k, 'v) entry) shardStore \<Rightarrow> 'k set" where
  "timed st = {k. expiryOf st k \<noteq> 0}"

text \<open>\<open>shard_inv own D\<close>: as above for the keys outside \<open>D\<close>, which a sweep has already taken out of the
  TTL backend.\<close>

definition shard_inv :: "('k \<Rightarrow> bool) \<Rightarrow> 'k set \<Rightarrow> ('k, 'v) shard \<Rightarrow> bool" where
  "shard_inv own D s \<longleftrightarrow>
     st_ok (sh_storage s) \<and>
     (\<forall>k e. st_get k (sh_storage s) = Some e \<longrightarrow> e_key e = k \<and> own k \<and> entry_ok e) \<and>
     pol_ok (sh_policy s) \<and> pol_tracked (sh_policy s) = dom (\<lambda>k. st_get k (sh_storage s)) \<and>
     ttl_ok (expiryOf (sh_storage s)) (sh_ttl s) \<and> ttl_tracked (sh_ttl s) = timed (sh_storage s) - D \<and>
     fl_ok (sh_flights s)"

abbreviation shard_ok :: "('k \<Rightarrow> bool) \<Rightarrow> ('k, 'v) shard \<Rightarrow> bool" where
  "shard_ok own s \<equiv> shard_inv own {} s"

lemma shard_invD:
  assumes "shard_inv own D s"
  shows "st_ok (sh_storage s)"
    "\<And>k e. st_get k (sh_storage s) = Some e \<Longrightarrow> e_key e = k"
    "\<And>k e. st_get k (sh_storage s) = Some e \<Longrightarrow> own k"
    "\<And>k e. st_get k (sh_storage s) = Some e \<Longrightarrow> entry_ok e"
    "pol_ok (sh_policy s)" "pol_tracked (sh_policy s) = dom (\<lambda>k. st_get k (sh_storage s))"
    "ttl_ok (expiryOf (sh_storage s)) (sh_ttl s)" "ttl_tracked (sh_ttl s) = timed (sh_storage s) - D"
    "fl_ok (sh_flights s)"
  using assms by (auto simp: shard_inv_def)

lemma shard_inv_frame [simp]:
  "shard_inv own D (s\<lparr>sh_janitor := j\<rparr>) = shard_inv own D s"
  "shard_inv own D (s\<lparr>sh_errors := er\<rparr>) = shard_inv own D s"
  "shard_inv own D (s\<lparr>sh_budget := b\<rparr>) = shard_inv own D s"
  "shard_inv own D (s\<lparr>sh_hashIndex := h\<rparr>) = shard_inv own D s"
  "shard_inv own D (s\<lparr>sh_pendingCallbacks := cb\<rparr>) = shard_inv own D s"
  by (simp_all add: shard_inv_def)

lemma shard_inv_flights: "shard_inv own D s \<Longrightarrow> fl_ok f \<Longrightarrow> shard_inv own D (s\<lparr>sh_flights := f\<rparr>)"
  by (simp add: shard_inv_def)

lemma shard_inv_policy:
  "shard_inv own D s \<Longrightarrow> pol_ok p \<Longrightarrow> pol_tracked p = pol_tracked (sh_policy s) \<Longrightarrow> shard_inv own D (s\<lparr>sh_policy := p\<rparr>)"
  by (simp add: shard_inv_def)

lemma expiryOf_set: "st_ok st \<Longrightarrow> expiryOf (st_set k e st) = (expiryOf st)(k := e_expireAt e)"
  by (auto simp: expiryOf_def st.get_set)

lemma expiryOf_del: "st_ok st \<Longrightarrow> expiryOf (snd (st_del k st)) = (expiryOf st)(k := 0)"
  by (auto simp: expiryOf_def st.get_del)

lemma tagsIn_set: "st_ok st \<Longrightarrow> tagsIn (st_set k e st) = (tagsIn st)(k := e_tags e)"
  by (auto simp: tagsIn_def st.get_set)

lemma tagsIn_del: "st_ok st \<Longrightarrow> tagsIn (snd (st_del k st)) = (tagsIn st)(k := [])"
  by (auto simp: tagsIn_def st.get_del)

text \<open>Replacing the entry of a stored key, with its place in the TTL backend.\<close>

lemma shard_ok_replace:
  assumes ok: "shard_ok own s" and e0: "st_get (e_key e) (sh_storage s) = Some e0" and e: "entry_ok e"
  shows "shard_ok own (expiryFix (e_key e) (putEntry e s))"
proof -
  note d = shard_invD [OF ok]
  let ?st = "st_set (e_key e) e (sh_storage s)"
  have x: "expiryOf ?st = (expiryOf (sh_storage s))(e_key e := e_expireAt e)" by (rule expiryOf_set [OF d(1)])
  have t: "time_ok (e_expireAt e)" using e by (simp add: entry_ok_def)
  have fx: "ttl_ok (expiryOf ?st) (ttl_Fix (expiryOf ?st) (e_key e) (sh_ttl s))"
    "ttl_tracked (ttl_Fix (expiryOf ?st) (e_key e) (sh_ttl s)) = timed ?st"
    using ttl.ok_fix [OF d(7), of "e_key e" "expiryOf ?st"] ttl.tracked_fix [OF d(7), of "e_key e" "expiryOf ?st"] t
    by (auto simp: x d(8) timed_def)
  have "dom (\<lambda>k. st_get k ?st) = dom (\<lambda>k. st_get k (sh_storage s))"
    using e0 by (auto simp: dom_set [OF d(1)])
  moreover have "e_key x = k \<and> own k \<and> entry_ok x" if "st_get k ?st = Some x" for k x
    using that d(2-4) e e0 by (auto simp: st.get_set [OF d(1)] split: if_splits)
  ultimately show ?thesis
    using d fx st.set_ok [OF d(1)] unfolding shard_inv_def by (simp add: expiryFix_def putEntry_def)
qed

text \<open>The same when the expiry does not change and the backend is left alone.\<close>

lemma shard_ok_rewrite:
  assumes ok: "shard_ok own s" and e0: "st_get (e_key e) (sh_storage s) = Some e0" and e: "entry_ok e"
    and x: "e_expireAt e = e_expireAt e0"
  shows "shard_ok own (putEntry e s)"
proof -
  note d = shard_invD [OF ok]
  let ?st = "st_set (e_key e) e (sh_storage s)"
  have "expiryOf ?st = expiryOf (sh_storage s)"
    using e0 x by (auto simp: expiryOf_set [OF d(1)] expiryOf_def)
  moreover have "dom (\<lambda>k. st_get k ?st) = dom (\<lambda>k. st_get k (sh_storage s))"
    using e0 by (auto simp: dom_set [OF d(1)])
  moreover have "e_key x = k \<and> own k \<and> entry_ok x" if "st_get k ?st = Some x" for k x
    using that d(2-4) e e0 by (auto simp: st.get_set [OF d(1)] split: if_splits)
  ultimately show ?thesis
    using d st.set_ok [OF d(1)] unfolding shard_inv_def by (simp add: putEntry_def timed_def)
qed

text \<open>A new entry.\<close>

lemma shard_ok_insert:
  assumes ok: "shard_ok own s" and new: "st_get (e_key e) (sh_storage s) = None" and e: "entry_ok e" "own (e_key e)"
  shows "shard_ok own ((expiryAdd (e_key e) (putEntry e s))\<lparr>sh_policy := pol_onInsert (e_key e) (sh_policy s)\<rparr>)"
proof -
  note d = shard_invD [OF ok]
  let ?k = "e_key e"
  let ?st = "st_set ?k e (sh_storage s)"
  have x: "expiryOf ?st = (expiryOf (sh_storage s))(?k := e_expireAt e)" by (rule expiryOf_set [OF d(1)])
  have t: "time_ok (e_expireAt e)" using e by (simp add: entry_ok_def)
  have nt: "?k \<notin> ttl_tracked (sh_ttl s)" "?k \<notin> pol_tracked (sh_policy s)"
    using new by (auto simp: d(8) d(6) timed_def expiryOf_def)
  have b: "ttl_ok (expiryOf ?st) (sh_ttl s)" using nt(1) by (intro ttl.ok_cong [OF d(7)]) (auto simp: x)
  have add: "ttl_ok (expiryOf ?st) (ttl_Add (expiryOf ?st) ?k (sh_ttl s))"
    "ttl_tracked (ttl_Add (expiryOf ?st) ?k (sh_ttl s)) = timed ?st"
    using ttl.ok_add [OF b _ nt(1)] ttl.tracked_add [OF b nt(1)] t new by (auto simp: x d(8) timed_def expiryOf_def)
  have "e_key x = k \<and> own k \<and> entry_ok x" if "st_get k ?st = Some x" for k x
    using that d(2-4) e by (auto simp: st.get_set [OF d(1)] split: if_splits)
  then show ?thesis
    using d add st.set_ok [OF d(1)] dom_set [OF d(1)] pol.ok_insert [OF d(5) nt(2)] pol.tracked_insert [OF d(5) nt(2)]
    unfolding shard_inv_def by (simp add: expiryAdd_def putEntry_def)
qed

text \<open>An entry taken out, with a policy \<open>p\<close> that may have chosen it as its victim.\<close>

lemma shard_inv_delete:
  assumes ok: "shard_inv own D s"
    and p: "pol_ok p" "pol_tracked p = pol_tracked (sh_policy s) - {k}" and f: "fl_ok f"
  shows "shard_inv own (D - {k}) (s\<lparr>sh_storage := snd (st_del k (sh_storage s)), sh_policy := p,
    sh_ttl := ttl_Remove (expiryOf (sh_storage s)) k (sh_ttl s), sh_flights := f\<rparr>)"
proof -
  note d = shard_invD [OF ok]
  let ?st = "snd (st_del k (sh_storage s))"
  let ?b = "ttl_Remove (expiryOf (sh_storage s)) k (sh_ttl s)"
  have x: "expiryOf ?st = (expiryOf (sh_storage s))(k := 0)" by (rule expiryOf_del [OF d(1)])
  have tr: "ttl_tracked ?b = ttl_tracked (sh_ttl s) - {k}" by (rule ttl.tracked_remove [OF d(7)])
  have "ttl_ok (expiryOf ?st) ?b" using tr by (intro ttl.ok_cong [OF ttl.ok_remove [OF d(7)]]) (auto simp: x)
  moreover have "ttl_tracked ?b = timed ?st - (D - {k})" using tr by (auto simp: d(8) timed_def x)
  moreover have "e_key x = i \<and> own i \<and> entry_ok x" if "st_get i ?st = Some x" for i x
    using that d(2-4) by (auto simp: st.get_del [OF d(1)] split: if_splits)
  ultimately show ?thesis
    using d p f st.del_ok [OF d(1)] dom_del [OF d(1), of k] unfolding shard_inv_def by simp
qed

section \<open>The invariant of a locked shard\<close>

definition core_ok :: "('k, 'v) core \<Rightarrow> bool" where
  "core_ok c \<longleftrightarrow> 0 \<le> c_now c \<and> c_now c \<le> 2 ^ 62 \<and> eb_ok (c_events c)"

text \<open>The tags every key carries: those of the shard's entries and, elsewhere, \<open>oth\<close>.\<close>

definition tagsNow :: "('k \<Rightarrow> bool) \<Rightarrow> ('k \<Rightarrow> string list) \<Rightarrow> ('k, ('k, 'v) entry) shardStore \<Rightarrow> 'k \<Rightarrow> string list" where
  "tagsNow own oth st k = (if own k then tagsIn st k else oth k)"

lemma tagsNow_set: "st_ok st \<Longrightarrow> own k \<Longrightarrow> tagsNow own oth (st_set k e st) = (tagsNow own oth st)(k := e_tags e)"
  by (auto simp: tagsNow_def tagsIn_set)

lemma tagsNow_del: "st_ok st \<Longrightarrow> own k \<Longrightarrow> tagsNow own oth (snd (st_del k st)) = (tagsNow own oth st)(k := [])"
  by (auto simp: tagsNow_def tagsIn_del)

definition locked_inv :: "'k set \<Rightarrow> ('k \<Rightarrow> bool) \<Rightarrow> ('k \<Rightarrow> string list) \<Rightarrow> int \<Rightarrow> int \<Rightarrow> ('k, 'v) locked \<Rightarrow> bool" where
  "locked_inv D own oth n w cs \<longleftrightarrow> core_ok (fst cs) \<and> shard_inv own D (snd cs) \<and>
     sc_entries (c_counters (fst cs)) = wrap64 (n + st_length (sh_storage (snd cs))) \<and>
     sc_bytes (c_counters (fst cs)) = wrap64 (w + weightIn (sh_storage (snd cs))) \<and>
     tags_ok (tagsNow own oth (sh_storage (snd cs))) (c_tags (fst cs))"

abbreviation locked_ok :: "('k \<Rightarrow> bool) \<Rightarrow> ('k \<Rightarrow> string list) \<Rightarrow> int \<Rightarrow> int \<Rightarrow> ('k, 'v) locked \<Rightarrow> bool" where
  "locked_ok own oth n w cs \<equiv> locked_inv {} own oth n w cs"

lemma locked_invD:
  assumes "locked_inv D own oth n w (c, s)"
  shows "core_ok c" "shard_inv own D s" "sc_entries (c_counters c) = wrap64 (n + st_length (sh_storage s))"
    "sc_bytes (c_counters c) = wrap64 (w + weightIn (sh_storage s))"
    "tags_ok (tagsNow own oth (sh_storage s)) (c_tags c)"
  using assms by (simp_all add: locked_inv_def)

text \<open>What the rest of the core is does not matter.\<close>

lemma locked_inv_core:
  assumes "locked_inv D own oth n w (c, s)" and "sc_entries (c_counters c') = sc_entries (c_counters c)"
    and "sc_bytes (c_counters c') = sc_bytes (c_counters c)" and "c_tags c' = c_tags c" and "c_now c' = c_now c"
    and "eb_ok (c_events c) \<Longrightarrow> eb_ok (c_events c')"
  shows "locked_inv D own oth n w (c', s)"
  using assms by (simp add: locked_inv_def core_ok_def)

lemma locked_inv_shard:
  assumes "locked_inv D own oth n w (c, s)" and "sh_storage s' = sh_storage s" and "shard_inv own D s'"
  shows "locked_inv D own oth n w (c, s')"
  using assms by (simp add: locked_inv_def)

section \<open>Removal\<close>

lemma wrap64_diff [simp]: "wrap64 (wrap64 a - b) = wrap64 (a - b)"
  using wrap64_add [of a "- b"] by simp

lemma forgetHashLocked_fields [simp]:
  "sh_storage (forgetHashLocked k (c, s)) = sh_storage s" "sh_policy (forgetHashLocked k (c, s)) = sh_policy s"
  "sh_ttl (forgetHashLocked k (c, s)) = sh_ttl s" "sh_flights (forgetHashLocked k (c, s)) = sh_flights s"
  "sh_budget (forgetHashLocked k (c, s)) = sh_budget s" "sh_errors (forgetHashLocked k (c, s)) = sh_errors s"
  "sh_pendingCallbacks (forgetHashLocked k (c, s)) = sh_pendingCallbacks s"
  by (simp_all add: forgetHashLocked_def Let_def split: option.split)

lemma removeLocked_shard:
  "sh_storage (snd (removeLocked e r (c, s))) = snd (st_del (e_key e) (sh_storage s))"
  "sh_policy (snd (removeLocked e r (c, s))) = pol_onRemove (e_key e) (sh_policy s)"
  "sh_ttl (snd (removeLocked e r (c, s))) = ttl_Remove (expiryOf (sh_storage s)) (e_key e) (sh_ttl s)"
  "sh_flights (snd (removeLocked e r (c, s))) =
     (if supersedesFlight r then supersedeFlight (e_key e) (sh_flights s) else sh_flights s)"
  "sh_budget (snd (removeLocked e r (c, s))) = sh_budget s"
  "sh_errors (snd (removeLocked e r (c, s))) = sh_errors s"
  by (simp_all add: removeLocked_def Let_def)

lemma removeLocked_core:
  "c_settings (fst (removeLocked e r (c, s))) = c_settings c"
  "c_tags (fst (removeLocked e r (c, s))) = enqueueUntag (e_key e) (e_tags e) (c_tags c)"
  "c_events (fst (removeLocked e r (c, s))) = c_events c"
  "c_now (fst (removeLocked e r (c, s))) = c_now c"
  "c_sealed (fst (removeLocked e r (c, s))) = c_sealed c"
  "c_closed (fst (removeLocked e r (c, s))) = c_closed c"
  "c_maxEntries (fst (removeLocked e r (c, s))) = c_maxEntries c"
  "c_maxBytes (fst (removeLocked e r (c, s))) = c_maxBytes c"
  "sc_entries (c_counters (fst (removeLocked e r (c, s)))) = wrap64 (sc_entries (c_counters c) - 1)"
  "sc_bytes (c_counters (fst (removeLocked e r (c, s)))) = wrap64 (sc_bytes (c_counters c) - e_weight e)"
  by (simp_all add: removeLocked_def Let_def count_if_def)

lemma removeLocked_frozen [simp]: "frozen (fst (removeLocked e r (c, s))) = frozen c"
  by (simp add: frozen_def removeLocked_core)

lemmas removeLocked_fields = removeLocked_shard removeLocked_core

lemma removeLocked_inv:
  assumes inv: "locked_inv D own oth n w (c, s)" and e: "st_get (e_key e) (sh_storage s) = Some e"
    and p: "pol_ok (pol_onRemove (e_key e) p)" "pol_tracked (pol_onRemove (e_key e) p) = pol_tracked (sh_policy s) - {e_key e}"
  shows "locked_inv (D - {e_key e}) own oth n w (removeLocked e r (c, s\<lparr>sh_policy := p\<rparr>))"
proof -
  note d = locked_invD [OF inv]
  note sd = shard_invD [OF d(2)]
  let ?k = "e_key e" and ?s = "s\<lparr>sh_policy := p\<rparr>"
  let ?cs = "removeLocked e r (c, ?s)"
  define f where "f = sh_flights (snd ?cs)"
  have f: "fl_ok f" using sd(9) by (simp add: f_def removeLocked_fields fl_ok_supersede)
  have "shard_inv own (D - {?k}) (s\<lparr>sh_storage := snd (st_del ?k (sh_storage s)), sh_policy := pol_onRemove ?k p,
      sh_ttl := ttl_Remove (expiryOf (sh_storage s)) ?k (sh_ttl s), sh_flights := f\<rparr>)"
    by (rule shard_inv_delete [OF d(2) p f])
  then have shard: "shard_inv own (D - {?k}) (snd ?cs)"
    unfolding shard_inv_def f_def [symmetric] by (simp add: removeLocked_shard(1-3))
  have core: "core_ok (fst ?cs)" using d(1) by (simp add: core_ok_def removeLocked_fields)
  have own: "own ?k" using sd(3) [OF e] .
  have "tags_ok (tagsNow own oth (snd (st_del ?k (sh_storage s)))) (enqueueUntag ?k (e_tags e) (c_tags c))"
    using own e by (intro tags_ok_enqueue [OF d(5) tagsNow_del [where own = own, OF sd(1) own]]) (simp add: tagsNow_def tagsIn_def)
  moreover have "wrap64 (sc_entries (c_counters c) - 1) = wrap64 (n + st_length (snd (st_del ?k (sh_storage s))))"
    using wrap64_diff [of "n + st_length (sh_storage s)" 1] by (simp add: d(3) st.size_del [OF sd(1) e] add_diff_eq)
  moreover have "wrap64 (sc_bytes (c_counters c) - e_weight e) = wrap64 (w + weightIn (snd (st_del ?k (sh_storage s))))"
    using wrap64_diff [of "w + weightIn (sh_storage s)" "e_weight e"] by (simp add: d(4) weight_del [OF sd(1) e] add_diff_eq)
  ultimately show ?thesis using shard core by (simp add: locked_inv_def removeLocked_fields)
qed

lemma removeLocked_ok:
  assumes "locked_ok own oth n w (c, s)" and "st_get (e_key e) (sh_storage s) = Some e"
  shows "locked_ok own oth n w (removeLocked e r (c, s))"
proof -
  have "pol_ok (sh_policy s)" using assms(1) by (simp add: locked_inv_def shard_inv_def)
  then show ?thesis
    using removeLocked_inv [OF assms, of "sh_policy s" r] by (simp add: pol.ok_remove pol.tracked_remove)
qed

section \<open>Eviction\<close>

lemma evictChoice_some:
  assumes "pol_ok (sh_policy s)" and "evictChoice keep (c, s) = (Some k, p)"
  shows "k \<in> pol_tracked (sh_policy s)" "pol_ok (pol_onRemove k p)"
    "pol_tracked (pol_onRemove k p) = pol_tracked (sh_policy s) - {k}"
proof -
  obtain v q where vq: "(if sh_budget s > 0 \<and> st_length (sh_storage s) > sh_budget s then pol_victim (sh_policy s)
      else (None, sh_policy s)) = (v, q)" by (metis prod.exhaust)
  have vic: "pol_victim (sh_policy s) = (v, q) \<or> v = None \<and> q = sh_policy s"
    using vq by (auto split: if_splits)
  have "k \<in> pol_tracked (sh_policy s) \<and> pol_ok (pol_onRemove k p) \<and>
      pol_tracked (pol_onRemove k p) = pol_tracked (sh_policy s) - {k}"
  proof (cases v)
    case None
    then have q: "pol_ok q" "pol_tracked q = pol_tracked (sh_policy s)"
      using vic assms(1) pol.victim_none [of "sh_policy s" q] by auto
    have "shedVictim (keep > 0) q = (Some k, p)"
      using assms(2) vq None by (auto simp: evictChoice_def Let_def split: if_splits)
    then show ?thesis using pol.shed_tracked [OF q(1)] pol.shed_ok [OF q(1)] pol.shed_evicts [OF q(1)] q(2) by auto
  next
    case (Some k')
    then have "v = Some k \<and> q = p" using assms(2) vq by (auto simp: evictChoice_def Let_def split: if_splits)
    then have "pol_victim (sh_policy s) = (Some k, p)" using vic by auto
    then show ?thesis
      using pol.victim_tracked [OF assms(1)] pol.victim_ok [OF assms(1)] pol.victim_evicts [OF assms(1)] by auto
  qed
  then show "k \<in> pol_tracked (sh_policy s)" "pol_ok (pol_onRemove k p)"
    "pol_tracked (pol_onRemove k p) = pol_tracked (sh_policy s) - {k}" by auto
qed

lemma evictChoice_none:
  assumes "pol_ok (sh_policy s)" and "evictChoice keep (c, s) = (None, p)"
  shows "pol_ok p" "pol_tracked p = pol_tracked (sh_policy s)"
    "keep = 0 \<Longrightarrow> 0 < st_length (sh_storage s) \<Longrightarrow> overBudget c \<Longrightarrow> pol_tracked (sh_policy s) = {}"
proof -
  obtain v q where vq: "(if sh_budget s > 0 \<and> st_length (sh_storage s) > sh_budget s then pol_victim (sh_policy s)
      else (None, sh_policy s)) = (v, q)" by (metis prod.exhaust)
  have v: "v = None" using assms(2) vq by (auto simp: evictChoice_def Let_def split: if_splits)
  then have q: "pol_ok q" "pol_tracked q = pol_tracked (sh_policy s)"
    using vq assms(1) pol.victim_none [of "sh_policy s" q] by (auto split: if_splits)
  have p: "(if st_length (sh_storage s) > keep \<and> overBudget c then shedVictim (keep > 0) q else (None, q)) = (None, p)"
    using assms(2) vq v by (auto simp: evictChoice_def Let_def split: if_splits)
  then show "pol_ok p" "pol_tracked p = pol_tracked (sh_policy s)"
    using q pol.shed_none [OF q(1)] by (auto split: if_splits)
  assume "keep = 0" "0 < st_length (sh_storage s)" "overBudget c"
  then have "fst (shedVictim False q) = None" using p by simp
  then show "pol_tracked (sh_policy s) = {}" using pol.shed_exists [OF q(1)] q(2) by force
qed

text \<open>One round of the loop.\<close>

lemma evictLoop_cases:
  assumes inv: "locked_ok own oth n w (c, s)"
  obtains (stop) p where "evictChoice keep (c, s) = (None, p)" "locked_ok own oth n w (c, s\<lparr>sh_policy := p\<rparr>)"
      "\<And>fuel. evictLoop (Suc fuel) r keep (c, s) = (0, (c, s\<lparr>sh_policy := p\<rparr>))"
  | (evict) k p e c' s' where "evictChoice keep (c, s) = (Some k, p)" "st_get k (sh_storage s) = Some e" "e_key e = k"
      "(c', s') = (let (c, s) = removeLocked e r (c, s\<lparr>sh_policy := p\<rparr>) in (count (sc_evictions_update (\<lambda>n. n + 1)) c, s))"
      "locked_ok own oth n w (c', s')" "st_length (sh_storage s') = st_length (sh_storage s) - 1"
      "\<And>fuel. evictLoop (Suc fuel) r keep (c, s) = map_prod ((+) 1) id (evictLoop fuel r keep (c', s'))"
proof -
  note sd = shard_invD [OF locked_invD(2) [OF inv]]
  obtain v p where vp: "evictChoice keep (c, s) = (v, p)" by force
  show thesis
  proof (cases v)
    case None
    have "shard_ok own (s\<lparr>sh_policy := p\<rparr>)"
      using evictChoice_none(1,2) [OF sd(5)] vp None locked_invD(2) [OF inv] by (intro shard_inv_policy) auto
    then have "locked_ok own oth n w (c, s\<lparr>sh_policy := p\<rparr>)" by (intro locked_inv_shard [OF inv]) simp_all
    then show thesis using vp None by (intro stop) simp_all
  next
    case (Some k)
    note ch = evictChoice_some [OF sd(5) vp [unfolded Some]]
    obtain e where e: "st_get k (sh_storage s) = Some e" using ch(1) sd(6) by auto
    then have ek: "e_key e = k" using sd(2) by auto
    obtain c1 s1 where r: "removeLocked e r (c, s\<lparr>sh_policy := p\<rparr>) = (c1, s1)" by force
    have "locked_ok own oth n w (c1, s1)"
      using removeLocked_inv [OF inv, of e p r] e ch ek r by simp
    then have "locked_ok own oth n w (count (sc_evictions_update (\<lambda>n. n + 1)) c1, s1)"
      by (rule locked_inv_core) simp_all
    moreover have "st_length (sh_storage s1) = st_length (sh_storage s) - 1"
      using removeLocked_shard(1) [of e r c "s\<lparr>sh_policy := p\<rparr>"] r ek st.size_del [OF sd(1) e] by simp
    ultimately show thesis
      using vp Some e ek r by (intro evict [of k p e "count (sc_evictions_update (\<lambda>n. n + 1)) c1" s1])
        (simp_all add: case_prod_beta map_prod_def Let_def)
  qed
qed

lemma evictLoop_ok: "locked_ok own oth n w (c, s) \<Longrightarrow> locked_ok own oth n w (snd (evictLoop fuel r keep (c, s)))"
proof (induction fuel arbitrary: c s)
  case (Suc fuel)
  show ?case
  proof (cases rule: evictLoop_cases [OF Suc.prems, where keep = keep and r = r])
    case (1 p)
    then show ?thesis by simp
  next
    case (2 k p e c' s')
    then show ?thesis using Suc.IH [of c' s'] by simp
  qed
qed simp

text \<open>Every eviction removes one entry, and as many rounds as there are entries are enough: with more
  fuel the result is the same.\<close>

lemma evictLoop_count:
  "locked_ok own oth n w (c, s) \<Longrightarrow>
    0 \<le> fst (evictLoop fuel r keep (c, s)) \<and>
    st_length (sh_storage (snd (snd (evictLoop fuel r keep (c, s))))) = st_length (sh_storage s) - fst (evictLoop fuel r keep (c, s))"
proof (induction fuel arbitrary: c s)
  case (Suc fuel)
  show ?case
  proof (cases rule: evictLoop_cases [OF Suc.prems, where keep = keep and r = r])
    case (1 p)
    then show ?thesis by simp
  next
    case (2 k p e c' s')
    then show ?thesis using Suc.IH [of c' s'] by simp
  qed
qed simp

lemma evictLoop_fuel:
  "locked_ok own oth n w (c, s) \<Longrightarrow> nat (st_length (sh_storage s)) < fuel \<Longrightarrow>
    evictLoop (fuel + extra) r keep (c, s) = evictLoop fuel r keep (c, s)"
proof (induction fuel arbitrary: c s)
  case (Suc fuel)
  show ?case
  proof (cases rule: evictLoop_cases [OF Suc.prems(1), where keep = keep and r = r])
    case (1 p)
    then show ?thesis by simp
  next
    case (2 k p e c' s')
    have "0 \<le> st_length (sh_storage s')" using 2(5) by (intro length_nonneg) (simp add: locked_inv_def shard_inv_def)
    then have "nat (st_length (sh_storage s')) < fuel" using Suc.prems(2) 2(6) by simp
    then show ?thesis using 2 Suc.IH [of c' s'] by simp
  qed
qed simp

text \<open>When every entry may be evicted, the loop ends within the bounds of the cache or with an empty shard.\<close>

lemma evictLoop_sheds:
  "locked_ok own oth n w (c, s) \<Longrightarrow> nat (st_length (sh_storage s)) < fuel \<Longrightarrow>
    evictLoop fuel r 0 (c, s) = (m, (c', s')) \<Longrightarrow> overBudget c' \<Longrightarrow> st_length (sh_storage s') = 0"
proof (induction fuel arbitrary: c s m)
  case (Suc fuel)
  note inv = Suc.prems(1)
  note sd = shard_invD [OF locked_invD(2) [OF inv]]
  show ?case
  proof (cases rule: evictLoop_cases [OF inv, where keep = 0 and r = r])
    case (1 p)
    then have e: "c' = c" "sh_storage s' = sh_storage s" using Suc.prems(3) by auto
    show ?thesis
    proof (rule ccontr)
      assume "st_length (sh_storage s') \<noteq> 0"
      then have pos: "0 < st_length (sh_storage s)" using length_nonneg [OF sd(1)] e by simp
      then have "pol_tracked (sh_policy s) = {}"
        using evictChoice_none(3) [OF sd(5) 1(1) _ pos] Suc.prems(4) e by simp
      then show False using pos length_zero [OF sd(1)] sd(6) by (auto simp: dom_def)
    qed
  next
    case (2 k p e c1 s1)
    have "0 \<le> st_length (sh_storage s1)" using 2(5) by (intro length_nonneg) (simp add: locked_inv_def shard_inv_def)
    then have "nat (st_length (sh_storage s1)) < fuel" using Suc.prems(2) 2(6) by simp
    moreover obtain m' where "evictLoop fuel r 0 (c1, s1) = (m', (c', s'))"
      using 2(7) [of fuel] Suc.prems(3) by (cases "evictLoop fuel r 0 (c1, s1)") auto
    ultimately show ?thesis using Suc.IH [OF 2(5)] Suc.prems(4) by blast
  qed
qed simp

lemma evictLoop_frozen: "frozen (fst (snd (evictLoop fuel r keep (c, s)))) = frozen c"
proof (induction fuel arbitrary: c s)
  case (Suc fuel)
  obtain v p where vp: "evictChoice keep (c, s) = (v, p)" by force
  show ?case
  proof (cases "v = None \<or> st_get (the v) (sh_storage s) = None")
    case True
    then show ?thesis using vp by (cases v) (auto simp: Let_def)
  next
    case False
    then obtain k e where "v = Some k" "st_get k (sh_storage s) = Some e" by auto
    moreover obtain c1 s1 where "removeLocked e r (c, s\<lparr>sh_policy := p\<rparr>) = (c1, s1)" by force
    ultimately show ?thesis
      using vp Suc.IH removeLocked_frozen [of e r c "s\<lparr>sh_policy := p\<rparr>"] by (simp add: Let_def case_prod_beta)
  qed
qed simp

text \<open>The loop only takes entries out.\<close>

definition shrunk :: "('k, 'v) shard \<Rightarrow> ('k, 'v) shard \<Rightarrow> bool" where
  "shrunk s s' \<longleftrightarrow> (\<forall>k. st_get k (sh_storage s') = st_get k (sh_storage s) \<or> st_get k (sh_storage s') = None)"

lemma shrunk_refl [simp]: "shrunk s s" "shrunk s (s\<lparr>sh_policy := p\<rparr>)"
  by (simp_all add: shrunk_def)

lemma shrunk_trans: "shrunk s1 s2 \<Longrightarrow> shrunk s2 s3 \<Longrightarrow> shrunk s1 s3"
  by (metis shrunk_def)

lemma removeLocked_shrunk: "st_ok (sh_storage s) \<Longrightarrow> shrunk s (snd (removeLocked e r (c, s)))"
  by (simp add: shrunk_def removeLocked_shard(1) st.get_del)

lemma evictLoop_shrunk: "locked_ok own oth n w (c, s) \<Longrightarrow> shrunk s (snd (snd (evictLoop fuel r keep (c, s))))"
proof (induction fuel arbitrary: c s)
  case (Suc fuel)
  show ?case
  proof (cases rule: evictLoop_cases [OF Suc.prems, where keep = keep and r = r])
    case (1 p)
    then show ?thesis by simp
  next
    case (2 k p e c' s')
    have "st_ok (sh_storage s)" using Suc.prems by (simp add: locked_inv_def shard_inv_def)
    then have "shrunk (s\<lparr>sh_policy := p\<rparr>) s'"
      using 2(4) removeLocked_shrunk [of "s\<lparr>sh_policy := p\<rparr>" e r c] by (simp add: case_prod_beta)
    then have "shrunk s s'" by (simp add: shrunk_def)
    then show ?thesis using 2 Suc.IH [of c' s'] shrunk_trans [of s s'] by simp
  qed
qed simp

section \<open>Insertion and update\<close>

lemma freshEntry_fields [simp]:
  "e_key (freshEntry c key v weight x sliding raw tags) = key" "e_value (freshEntry c key v weight x sliding raw tags) = Some v"
  "e_weight (freshEntry c key v weight x sliding raw tags) = weight" "e_expireAt (freshEntry c key v weight x sliding raw tags) = x"
  "e_tags (freshEntry c key v weight x sliding raw tags) = tags"
  "e_slidingTTL (freshEntry c key v weight x sliding raw tags) = (if sliding then raw else 0)"
  "\<not> flags_has (e_flags (freshEntry c key v weight x sliding raw tags)) flagNegative"
  by (simp_all add: freshEntry_def pool_get_def e_storeValue_def Let_def)

lemma updatedEntry_fields [simp]:
  "e_key (updatedEntry c v weight x sliding raw tags e) = e_key e" "e_value (updatedEntry c v weight x sliding raw tags e) = Some v"
  "e_weight (updatedEntry c v weight x sliding raw tags e) = weight" "e_expireAt (updatedEntry c v weight x sliding raw tags e) = x"
  "e_tags (updatedEntry c v weight x sliding raw tags e) = tags"
  "e_slidingTTL (updatedEntry c v weight x sliding raw tags e) = (if sliding then raw else 0)"
  "\<not> flags_has (e_flags (updatedEntry c v weight x sliding raw tags e)) flagNegative"
  by (simp_all add: updatedEntry_def e_storeValue_def Let_def)

lemma updatedEntry_count [simp]: "updatedEntry (count f c) = updatedEntry c"
  by (simp add: updatedEntry_def fun_eq_iff)

lemma startJanitorLocked_fields [simp]:
  "sh_storage (startJanitorLocked (c, s)) = sh_storage s" "sh_policy (startJanitorLocked (c, s)) = sh_policy s"
  "sh_ttl (startJanitorLocked (c, s)) = sh_ttl s" "sh_flights (startJanitorLocked (c, s)) = sh_flights s"
  "sh_errors (startJanitorLocked (c, s)) = sh_errors s" "shard_inv own D (startJanitorLocked (c, s)) = shard_inv own D s"
  by (simp_all add: startJanitorLocked_def)

lemma recordHashCollisionLocked_fields [simp]:
  "sh_storage (snd (recordHashCollisionLocked k (c, s))) = sh_storage s"
  "shard_inv own D (snd (recordHashCollisionLocked k (c, s))) = shard_inv own D s"
  "frozen (fst (recordHashCollisionLocked k (c, s))) = frozen c"
  "c_tags (fst (recordHashCollisionLocked k (c, s))) = c_tags c"
  "c_events (fst (recordHashCollisionLocked k (c, s))) = c_events c"
  "sc_entries (c_counters (fst (recordHashCollisionLocked k (c, s)))) = sc_entries (c_counters c)"
  "sc_bytes (c_counters (fst (recordHashCollisionLocked k (c, s)))) = sc_bytes (c_counters c)"
  by (simp_all add: recordHashCollisionLocked_def Let_def split: option.split)

text \<open>The well-formed arguments of an insertion.\<close>

definition args_ok :: "int \<Rightarrow> int \<Rightarrow> int \<Rightarrow> bool" where
  "args_ok weight expireAt rawTTL \<longleftrightarrow> 1 \<le> weight \<and> weight \<le> maxEntryWeight \<and> time_ok expireAt \<and> rawTTL \<le> ttl_max"

lemma args_entry_ok [simp]:
  assumes "args_ok weight x raw"
  shows "entry_ok (freshEntry c key v weight x sliding raw tags)" "entry_ok (updatedEntry c v weight x sliding raw tags e)"
  using assms by (simp_all add: entry_ok_def args_ok_def ttl_max_def)

lemma insertEntry_ok:
  assumes inv: "locked_ok own oth n w (c, s)" and new: "st_get (e_key e) (sh_storage s) = None"
    and e: "entry_ok e" "own (e_key e)"
  shows "locked_ok own oth n w (insertEntry e (c, s))"
proof -
  note d = locked_invD [OF inv]
  note sd = shard_invD [OF d(2)]
  have "tags_ok (tagsNow own oth (st_set (e_key e) e (sh_storage s)))
      ((c_tags c)\<lparr>tg_index := retag (e_key e) [] (e_tags e) (tg_index (c_tags c))\<rparr>)"
    unfolding tagsNow_set [where own = own, OF sd(1) e(2)]
    by (rule tags_ok_retag [OF d(5)]) (simp add: tagsNow_def tagsIn_def new e(2))
  moreover have "shard_ok own ((expiryAdd (e_key e) (putEntry e s))\<lparr>sh_policy := pol_onInsert (e_key e) (sh_policy s)\<rparr>)"
    by (rule shard_ok_insert [OF d(2) new e])
  ultimately show ?thesis
    using d(1,3,4) st.size_set_new [OF sd(1) new, of e] weight_set [OF sd(1), of "e_key e" e] new
    by (simp add: locked_inv_def insertEntry_def Let_def putEntry_def expiryAdd_def core_ok_def add.assoc)
qed

lemma insertEntry_fields [simp]:
  "sh_storage (snd (insertEntry e (c, s))) = st_set (e_key e) e (sh_storage s)"
  "sh_flights (snd (insertEntry e (c, s))) = sh_flights s"
  "frozen (fst (insertEntry e (c, s))) = frozen c"
  by (simp_all add: insertEntry_def Let_def putEntry_def expiryAdd_def)

text \<open>An entry replaced by one of another weight, expiry or tags, with the counters and the index updated.\<close>

lemma locked_ok_update:
  assumes inv: "locked_ok own oth n w (c, s)" and old: "st_get (e_key e) (sh_storage s) = Some e0"
    and s': "sh_storage s' = st_set (e_key e) e (sh_storage s)" "shard_ok own s'"
    and c': "sc_entries (c_counters c') = sc_entries (c_counters c)"
      "sc_bytes (c_counters c') = wrap64 (sc_bytes (c_counters c) + (e_weight e - e_weight e0))"
      "c_tags c' = (c_tags c)\<lparr>tg_index := retag (e_key e) (e_tags e0) (e_tags e) (tg_index (c_tags c))\<rparr>"
      "c_now c' = c_now c" "eb_ok (c_events c) \<Longrightarrow> eb_ok (c_events c')"
  shows "locked_ok own oth n w (c', s')"
proof -
  note d = locked_invD [OF inv]
  note sd = shard_invD [OF d(2)]
  have own: "own (e_key e)" using sd(3) [OF old] .
  have "tags_ok (tagsNow own oth (st_set (e_key e) e (sh_storage s))) (c_tags c')"
    unfolding tagsNow_set [where own = own, OF sd(1) own] c'(3)
    by (rule tags_ok_retag [OF d(5)]) (simp add: tagsNow_def tagsIn_def old own)
  moreover have "wrap64 (w + weightIn (st_set (e_key e) e (sh_storage s))) = sc_bytes (c_counters c')"
    using weight_set [OF sd(1), of "e_key e" e] old wrap64_add [of "w + weightIn (sh_storage s)" "e_weight e - e_weight e0"]
    by (simp add: c'(2) d(4) add_diff_eq add.assoc)
  ultimately show ?thesis
    using d(1,3) s' c' st.size_set_old [OF sd(1) old, of e] by (simp add: locked_inv_def core_ok_def)
qed

lemma shard_ok_update:
  assumes ok: "shard_ok own s" and old: "st_get (e_key e) (sh_storage s) = Some e0" and e: "entry_ok e"
  shows "shard_ok own ((expiryFix (e_key e) (putEntry e s))\<lparr>sh_policy := pol_onUpdate (e_key e) (sh_policy s)\<rparr>)"
proof -
  have p: "sh_policy (expiryFix (e_key e) (putEntry e s)) = sh_policy s" by (simp add: expiryFix_def putEntry_def)
  show ?thesis
    by (rule shard_inv_policy [OF shard_ok_replace [OF ok old e]])
      (simp_all add: p pol.ok_update pol.tracked_update shard_invD(5) [OF ok])
qed

lemma upsertExisting_ok:
  assumes inv: "locked_ok own oth n w (c, s)" and old: "st_get (e_key e0) (sh_storage s) = Some e0"
    and a: "args_ok weight x raw"
  shows "locked_ok own oth n w (upsertExisting v weight x sliding raw tags e0 (c, s))"
proof -
  define e where "e = updatedEntry c v weight x sliding raw tags e0"
  have e: "e_key e = e_key e0" "e_weight e = weight" "e_tags e = tags" "entry_ok e" using a by (simp_all add: e_def)
  have old: "st_get (e_key e) (sh_storage s) = Some e0" using old e(1) by simp
  define cs where "cs = upsertExisting v weight x sliding raw tags e0 (c, s)"
  have cs: "sh_storage (snd cs) = st_set (e_key e) e (sh_storage s)" "shard_ok own (snd cs)"
    "sc_entries (c_counters (fst cs)) = sc_entries (c_counters c)"
    "sc_bytes (c_counters (fst cs)) = wrap64 (sc_bytes (c_counters c) + (e_weight e - e_weight e0))"
    "c_tags (fst cs) = (c_tags c)\<lparr>tg_index := retag (e_key e) (e_tags e0) (e_tags e) (tg_index (c_tags c))\<rparr>"
    "c_now (fst cs) = c_now c" "eb_ok (c_events c) \<Longrightarrow> eb_ok (c_events (fst cs))"
    using shard_ok_update [OF locked_invD(2) [OF inv] old e(4)]
    unfolding cs_def upsertExisting_def updatedEntry_count e_def [symmetric]
    by (simp_all add: Let_def e_def [symmetric] e putEntry_def expiryFix_def)
  from locked_ok_update [OF inv old cs] show ?thesis unfolding cs_def [symmetric] by simp
qed

lemma upsertExisting_fields:
  "sh_storage (snd (upsertExisting v weight x sliding raw tags e0 (c, s))) =
     st_set (e_key e0) (updatedEntry c v weight x sliding raw tags e0) (sh_storage s)"
  "sh_flights (snd (upsertExisting v weight x sliding raw tags e0 (c, s))) = sh_flights s"
  "frozen (fst (upsertExisting v weight x sliding raw tags e0 (c, s))) = frozen c"
  by (simp_all add: upsertExisting_def Let_def putEntry_def expiryFix_def)

lemma expiry_time_ok:
  assumes "core_ok c" and "effTTL \<le> 2 ^ 61"
  shows "time_ok (if effTTL > 0 then wrap64 (c_now c + effTTL) else 0)"
proof -
  have "wrap64 (c_now c + effTTL) = c_now c + effTTL" if "effTTL > 0"
    using assms that by (intro wrap64_id) (simp_all add: core_ok_def)
  then show ?thesis using assms by (simp add: core_ok_def time_ok_def)
qed

text \<open>What \<open>upsertLocked\<close> leaves: a well-formed state in which the key has the new value, or no entry
  when it was not admitted or evicted again at once, and no other key has a new entry.\<close>

definition upserted :: "'k \<Rightarrow> 'v \<Rightarrow> ('k, 'v) shard \<Rightarrow> ('k, 'v) shard \<Rightarrow> bool" where
  "upserted key v s s' \<longleftrightarrow>
     (\<forall>k. k \<noteq> key \<longrightarrow> st_get k (sh_storage s') = st_get k (sh_storage s) \<or> st_get k (sh_storage s') = None) \<and>
     (\<forall>e. st_get key (sh_storage s') = Some e \<longrightarrow> e_value e = Some v \<and> \<not> flags_has (e_flags e) flagNegative)"

lemma insertAdmitted_spec:
  assumes inv: "locked_ok own oth n w (c, s)" and own: "own key" and args: "args_ok weight x raw"
    and new: "st_get key (sh_storage s) = None"
    and r: "insertAdmitted key v weight x sliding raw tags (c, s) = (c', s')"
  shows "locked_ok own oth n w (c', s') \<and> frozen c' = frozen c \<and> upserted key v s s'"
proof -
  note sd = shard_invD [OF locked_invD(2) [OF inv]]
  obtain c2 s2 where r2: "recordHashCollisionLocked key (c, s) = (c2, s2)" by force
  obtain c3 s3 where r3: "insertEntry (freshEntry c2 key v weight x sliding raw tags) (c2, s2) = (c3, s3)" by force
  obtain c4 s4 where r4: "evictWhileOverBudgetLocked (c3, s3) = (c4, s4)" by force
  have r: "c' = publishEvent (keyEvent EventInsert key v tags c4) c4" "s' = s4"
    using r r2 r3 r4 by (simp_all add: insertAdmitted_def)
  have f2: "frozen c2 = frozen c" "sh_storage s2 = sh_storage s" "shard_ok own s2" "c_tags c2 = c_tags c"
    "c_events c2 = c_events c" "sc_entries (c_counters c2) = sc_entries (c_counters c)"
    "sc_bytes (c_counters c2) = sc_bytes (c_counters c)"
    using recordHashCollisionLocked_fields [where k = key and c = c and s = s] locked_invD(2) [OF inv] r2 by simp_all
  have "locked_ok own oth n w (c2, s)"
    by (rule locked_inv_core [OF inv]) (simp_all add: f2(4-7) frozenD(2) [OF f2(1)])
  then have l2: "locked_ok own oth n w (c2, s2)" by (rule locked_inv_shard) (simp_all add: f2(2,3))
  have l3: "locked_ok own oth n w (c3, s3)"
    using insertEntry_ok [OF l2, of "freshEntry c2 key v weight x sliding raw tags"] new own args
    by (simp add: r3 f2(2))
  have f3: "frozen c3 = frozen c" "sh_storage s3 = st_set key (freshEntry c2 key v weight x sliding raw tags) (sh_storage s)"
    using insertEntry_fields [of "freshEntry c2 key v weight x sliding raw tags" c2 s2] by (simp_all add: r3 f2(1,2))
  have l4: "locked_ok own oth n w (c4, s4)" "frozen c4 = frozen c" "shrunk s3 s4"
    using evictLoop_ok [OF l3] evictLoop_frozen evictLoop_shrunk [OF l3] f3(1) r4
    unfolding evictWhileOverBudgetLocked_def evictOverBudgetLocked_def by (metis fst_conv snd_conv)+
  have "upserted key v s s4"
    unfolding upserted_def
  proof (intro conjI allI impI)
    fix k assume "k \<noteq> key"
    then show "st_get k (sh_storage s4) = st_get k (sh_storage s) \<or> st_get k (sh_storage s4) = None"
      using l4(3) by (simp add: shrunk_def f3(2) st.get_set [OF sd(1)]) metis
  next
    fix e assume "st_get key (sh_storage s4) = Some e"
    then have "e = freshEntry c2 key v weight x sliding raw tags"
      using l4(3) by (simp add: shrunk_def f3(2) st.get_set [OF sd(1)]) (metis option.distinct(1) option.inject)
    then show "e_value e = Some v" "\<not> flags_has (e_flags e) flagNegative" by simp_all
  qed
  then show ?thesis using r l4(1,2) locked_inv_core [OF l4(1), of c'] by simp
qed

lemma upsertLocked_spec:
  assumes inv: "locked_ok own oth n w (c, s)" and own: "own key"
    and a: "1 \<le> weight" "weight \<le> maxEntryWeight" "effTTL \<le> 2 ^ 61" "raw \<le> ttl_max"
    and r: "upsertLocked key v weight effTTL sliding raw tags (c, s) = (c', s')"
  shows "locked_ok own oth n w (c', s') \<and> frozen c' = frozen c \<and> (\<not> c_sealed c \<longrightarrow> upserted key v s s')"
proof -
  define x where "x = (if effTTL > 0 then wrap64 (c_now c + effTTL) else 0)"
  define s1 where "s1 = s\<lparr>sh_flights := supersedeFlight key (sh_flights s)\<rparr>"
  define c1 where "c1 = c\<lparr>c_admission := adm_Observe (c_hasher c) key (c_admission c)\<rparr>"
  note d = locked_invD [OF inv]
  note sd = shard_invD [OF d(2)]
  have args: "args_ok weight x raw" using a expiry_time_ok [OF d(1) a(3)] by (simp add: args_ok_def x_def)
  have s1: "locked_ok own oth n w (c, s1)" "sh_storage s1 = sh_storage s"
    using locked_inv_shard [OF inv, of s1] shard_inv_flights [OF d(2) fl_ok_supersede [OF sd(9)]] by (simp_all add: s1_def)
  have up: "upserted key v s1 s' = upserted key v s s'" by (simp add: upserted_def s1(2))
  note r = r [unfolded upsertLocked_def prod.case x_def [symmetric] s1_def [symmetric] Let_def c1_def [symmetric] s1(2)]
  show ?thesis
  proof (cases "c_sealed c")
    case True
    then show ?thesis using r s1 by simp
  next
    case open_cache: False
    show ?thesis
    proof (cases "st_get key (sh_storage s)")
      case (Some e0)
      have k: "e_key e0 = key" using sd(2) [OF Some] .
      have "upsertExisting v weight x sliding raw tags e0 (c, s1) = (c', s')" using r open_cache Some by simp
      then show ?thesis
        using upsertExisting_ok [OF s1(1) _ args, of e0 v sliding tags] k Some s1(2)
          upsertExisting_fields [of v weight x sliding raw tags e0 c s1]
        by (simp add: upserted_def st.get_set [OF sd(1)])
    next
      case None
      have l1: "locked_ok own oth n w (c1, s1)" by (rule locked_inv_core [OF s1(1)]) (simp_all add: c1_def)
      show ?thesis
      proof (cases "adm_Admit (c_hasher c) key (c_admission c)")
        case True
        then have "insertAdmitted key v weight x sliding raw tags (c1, s1) = (c', s')" using r open_cache None by simp
        from insertAdmitted_spec [OF l1 own args _ this] show ?thesis using None s1(2) up by (simp add: c1_def)
      next
        case False
        then show ?thesis
          using r open_cache None locked_inv_core [OF l1, of c'] s1(2) by (auto simp: upserted_def c1_def)
      qed
    qed
  qed
qed

section \<open>The invariant of the cache\<close>

definition storedWeight :: "('k, 'v) cache \<Rightarrow> int" where
  "storedWeight C = sum_list (map (weightIn \<circ> sh_storage) (shards C))"

text \<open>The entry of a key, wherever its shard is.\<close>

definition look :: "('k, 'v) cache \<Rightarrow> 'k \<Rightarrow> ('k, 'v) entry option" where
  "look C k = st_get k (sh_storage (shards C ! shardFor k C))"

definition tagsOf :: "('k, 'v) cache \<Rightarrow> 'k \<Rightarrow> string list" where
  "tagsOf C k = tagsIn (sh_storage (shards C ! shardFor k C)) k"

definition cache_ok :: "('k, 'v) cache \<Rightarrow> bool" where
  "cache_ok C \<longleftrightarrow> core_ok (core C) \<and> (\<exists>b < 64. length (shards C) = 2 ^ b) \<and>
     (\<forall>i < length (shards C). shard_ok (\<lambda>k. shardFor k C = i) (shards C ! i)) \<and>
     sc_entries (c_counters (core C)) = wrap64 (storedEntries C) \<and>
     sc_bytes (c_counters (core C)) = wrap64 (storedWeight C) \<and>
     tags_ok (tagsOf C) (c_tags (core C))"

lemma shardFor_cong:
  "c_settings (core C') = c_settings (core C) \<Longrightarrow> length (shards C') = length (shards C) \<Longrightarrow> shardFor k C' = shardFor k C"
  by (simp add: shardFor_def shardMask_def)

lemma shardMask_mask:
  assumes "length (shards C) = 2 ^ b" and "b < 64"
  shows "shardMask C = mask b"
  using assms by (simp add: shardMask_def mask_eq_exp_minus_1 of_nat_diff)

lemma shardFor_less: "cache_ok C \<Longrightarrow> shardFor k C < length (shards C)"
proof -
  assume "cache_ok C"
  then obtain b where b: "b < 64" "length (shards C) = 2 ^ b" by (auto simp: cache_ok_def)
  have "shardFor k C = unat (take_bit b (c_hasher (core C) k))"
    using shardMask_mask [OF b(2,1)] by (simp add: shardFor_def take_bit_eq_mask)
  then show ?thesis by (simp add: b(2) unsigned_take_bit_eq)
qed

lemma sum_list_replace:
  "i < length xs \<Longrightarrow> sum_list (map f (xs[i := x])) = sum_list (map f xs) - f (xs ! i) + (f x :: int)"
  by (induction xs arbitrary: i) (auto split: nat.split)

text \<open>The cache as one locked shard among others, and back.\<close>

lemma cache_locked:
  assumes "cache_ok C" and "i < length (shards C)"
  shows "locked_ok (\<lambda>k. shardFor k C = i) (tagsOf C) (storedEntries C - st_length (sh_storage (shards C ! i)))
    (storedWeight C - weightIn (sh_storage (shards C ! i))) (core C, shards C ! i)"
proof -
  have "tagsNow (\<lambda>k. shardFor k C = i) (tagsOf C) (sh_storage (shards C ! i)) = tagsOf C"
    by (auto simp: tagsNow_def tagsOf_def)
  then show ?thesis using assms by (simp add: locked_inv_def cache_ok_def)
qed

lemma locked_cache:
  assumes ok: "cache_ok C" and i: "i < length (shards C)" and st: "c_settings c = c_settings (core C)"
    and l: "locked_ok (\<lambda>k. shardFor k C = i) (tagsOf C) (storedEntries C - st_length (sh_storage (shards C ! i)))
      (storedWeight C - weightIn (sh_storage (shards C ! i))) (c, s)"
  shows "cache_ok (C\<lparr>core := c, shards := (shards C)[i := s]\<rparr>)"
proof -
  let ?C = "C\<lparr>core := c, shards := (shards C)[i := s]\<rparr>"
  have sf: "shardFor k ?C = shardFor k C" for k using st by (intro shardFor_cong) simp_all
  have "tagsOf ?C = tagsNow (\<lambda>k. shardFor k C = i) (tagsOf C) (sh_storage s)"
    using i by (auto simp: tagsOf_def tagsNow_def sf)
  moreover have "storedEntries ?C = storedEntries C - st_length (sh_storage (shards C ! i)) + st_length (sh_storage s)"
    "storedWeight ?C = storedWeight C - weightIn (sh_storage (shards C ! i)) + weightIn (sh_storage s)"
    using i by (simp_all add: storedEntries_def storedWeight_def sum_list_replace)
  moreover have "shard_ok (\<lambda>k. shardFor k C = j) ((shards C)[i := s] ! j)" if "j < length (shards C)" for j
    using ok l that by (cases "j = i") (auto simp: cache_ok_def locked_inv_def)
  ultimately show ?thesis
    using ok locked_invD [OF l] unfolding cache_ok_def sf by simp
qed

lemma cache_ok_core:
  assumes "cache_ok C" and "sc_entries (c_counters c) = sc_entries (c_counters (core C))"
    and "sc_bytes (c_counters c) = sc_bytes (c_counters (core C))" and "c_tags c = c_tags (core C)"
    and "frozen c = frozen (core C)" and "eb_ok (c_events (core C)) \<Longrightarrow> eb_ok (c_events c)"
  shows "cache_ok (C\<lparr>core := c\<rparr>)"
proof -
  have "shardFor k (C\<lparr>core := c\<rparr>) = shardFor k C" for k
    using frozenD(1) [OF assms(5)] by (intro shardFor_cong) simp_all
  moreover have "core_ok c" using assms frozenD(2) [OF assms(5)] by (simp add: cache_ok_def core_ok_def)
  ultimately show ?thesis
    using assms unfolding cache_ok_def by (simp add: storedEntries_def storedWeight_def tagsOf_def [abs_def])
qed

text \<open>A cache that lost entries at most.\<close>

definition cshrunk :: "('k, 'v) cache \<Rightarrow> ('k, 'v) cache \<Rightarrow> bool" where
  "cshrunk C C' \<longleftrightarrow> frozen (core C') = frozen (core C) \<and> length (shards C') = length (shards C) \<and>
     (\<forall>i < length (shards C). shrunk (shards C ! i) (shards C' ! i))"

lemma cshrunk_refl [simp]: "cshrunk C C"
  by (simp add: cshrunk_def)

lemma cshrunk_trans: "cshrunk C1 C2 \<Longrightarrow> cshrunk C2 C3 \<Longrightarrow> cshrunk C1 C3"
  unfolding cshrunk_def by (auto intro: shrunk_trans)

lemma cshrunk_look:
  assumes "cshrunk C C'" and "cache_ok C"
  shows "look C' k = look C k \<or> look C' k = None"
proof -
  have "shardFor k C' = shardFor k C"
    using assms(1) frozenD(1) by (intro shardFor_cong) (auto simp: cshrunk_def)
  then show ?thesis using assms shardFor_less [OF assms(2)] by (simp add: look_def cshrunk_def shrunk_def)
qed

lemma shrunk_empty: "shrunk s s' \<Longrightarrow> st_ok (sh_storage s) \<Longrightarrow> st_ok (sh_storage s') \<Longrightarrow>
    st_length (sh_storage s) = 0 \<Longrightarrow> st_length (sh_storage s') = 0"
  by (metis length_zero shrunk_def)

section \<open>Releasing a shard\<close>

lemma removeCallbackFor_fields [simp]:
  "sc_entries (c_counters (removeCallbackFor r c)) = sc_entries (c_counters c)"
  "sc_bytes (c_counters (removeCallbackFor r c)) = sc_bytes (c_counters c)"
  "c_tags (removeCallbackFor r c) = c_tags c" "frozen (removeCallbackFor r c) = frozen c"
  "eb_ok (c_events c) \<Longrightarrow> eb_ok (c_events (removeCallbackFor r c))"
  by (simp_all add: removeCallbackFor_def publishInvalidation_def Let_def)

lemma removeCallbacks_fields [simp]:
  "sc_entries (c_counters (fold removeCallbackFor rs c)) = sc_entries (c_counters c)"
  "sc_bytes (c_counters (fold removeCallbackFor rs c)) = sc_bytes (c_counters c)"
  "c_tags (fold removeCallbackFor rs c) = c_tags c" "frozen (fold removeCallbackFor rs c) = frozen c"
  "eb_ok (c_events c) \<Longrightarrow> eb_ok (c_events (fold removeCallbackFor rs c))"
  by (induction rs arbitrary: c) simp_all

lemma releaseShard_spec:
  assumes ok: "cache_ok C" and i: "i < length (shards C)"
  shows "cache_ok (releaseShard i C)" "cshrunk C (releaseShard i C)"
    "sh_storage (shards (releaseShard i C) ! j) = sh_storage (shards C ! j)"
    "overBudget (core (releaseShard i C)) = overBudget (core C)" "storedEntries (releaseShard i C) = storedEntries C"
proof -
  let ?s = "(shards C ! i)\<lparr>sh_pendingCallbacks := []\<rparr>"
  let ?C = "C\<lparr>shards := (shards C)[i := ?s]\<rparr>"
  have "cache_ok (C\<lparr>core := core C, shards := (shards C)[i := ?s]\<rparr>)"
    using cache_locked [OF ok i] by (intro locked_cache [OF ok i]) (simp_all add: locked_inv_def)
  then have "cache_ok ?C" by simp
  then show "cache_ok (releaseShard i C)"
    using cache_ok_core [of ?C "fold removeCallbackFor (sh_pendingCallbacks (shards C ! i)) (core C)"]
    by (simp add: releaseShard_def Let_def)
  show st: "sh_storage (shards (releaseShard i C) ! j) = sh_storage (shards C ! j)" for j
    using i by (cases "j = i") (simp_all add: releaseShard_def Let_def)
  show "cshrunk C (releaseShard i C)"
    unfolding cshrunk_def shrunk_def st by (simp add: releaseShard_def Let_def)
  show "overBudget (core (releaseShard i C)) = overBudget (core C)"
    using removeCallbacks_fields(4) [of "sh_pendingCallbacks (shards C ! i)" "core C", THEN frozenD(5)]
      removeCallbacks_fields(4) [of "sh_pendingCallbacks (shards C ! i)" "core C", THEN frozenD(6)]
    by (simp add: releaseShard_def Let_def overBudget_def)
  show "storedEntries (releaseShard i C) = storedEntries C"
    using i by (simp add: storedEntries_def releaseShard_def Let_def sum_list_replace)
qed

section \<open>Shedding\<close>

lemma shed_one:
  assumes ok: "cache_ok C" and i: "i < length (shards C)"
    and r: "withShard i (evictOverBudgetLocked reason 0) C = (n, C')"
  shows "cache_ok C'" "cshrunk C C'" "0 \<le> n" "storedEntries C' = storedEntries C - n"
    "overBudget (core C') \<Longrightarrow> st_length (sh_storage (shards C' ! i)) = 0"
proof -
  note l = cache_locked [OF ok i]
  define fuel where "fuel = Suc (nat (st_length (sh_storage (shards C ! i))))"
  obtain c s where e: "evictLoop fuel reason 0 (core C, shards C ! i) = (n, (c, s))"
    and C': "C' = C\<lparr>core := c, shards := (shards C)[i := s]\<rparr>"
    using r by (auto simp: withShard_def evictOverBudgetLocked_def fuel_def split: prod.splits)
  have f: "frozen c = frozen (core C)" using evictLoop_frozen [of fuel reason 0 "core C" "shards C ! i"] e by simp
  show "cache_ok C'"
    using locked_cache [OF ok i frozenD(1) [OF f]] evictLoop_ok [OF l, of fuel reason 0] e C' by simp
  show "cshrunk C C'"
    using evictLoop_shrunk [OF l, of fuel reason 0] e f C' i by (simp add: cshrunk_def nth_list_update)
  have n: "0 \<le> n \<and> st_length (sh_storage s) = st_length (sh_storage (shards C ! i)) - n"
    using evictLoop_count [OF l, of fuel reason 0] e by simp
  then show "0 \<le> n" "storedEntries C' = storedEntries C - n"
    using C' i by (simp_all add: storedEntries_def sum_list_replace)
  show "overBudget (core C') \<Longrightarrow> st_length (sh_storage (shards C' ! i)) = 0"
    using evictLoop_sheds [OF l _ e] C' i by (simp add: fuel_def)
qed

lemma cache_ok_storage: "cache_ok C \<Longrightarrow> i < length (shards C) \<Longrightarrow> st_ok (sh_storage (shards C ! i))"
  by (auto simp: cache_ok_def shard_inv_def)

lemma cshrunk_empty:
  assumes "cshrunk C C'" and "cache_ok C" and "cache_ok C'" and "i < length (shards C)"
    and "st_length (sh_storage (shards C ! i)) = 0"
  shows "st_length (sh_storage (shards C' ! i)) = 0"
proof -
  have "shrunk (shards C ! i) (shards C' ! i)" "i < length (shards C')" using assms(1,4) by (simp_all add: cshrunk_def)
  then show ?thesis
    using shrunk_empty cache_ok_storage [OF assms(2,4)] cache_ok_storage [OF assms(3)] assms(5) by blast
qed

lemma shedShards_spec:
  assumes "cache_ok C" and "set is \<subseteq> {..<length (shards C)}" and "shedShards is reason C = (n, C')"
  shows "cache_ok C' \<and> cshrunk C C' \<and> 0 \<le> n \<and> storedEntries C' = storedEntries C - n \<and>
    (overBudget (core C') \<longrightarrow> (\<forall>i \<in> set is. st_length (sh_storage (shards C' ! i)) = 0))"
  using assms
proof (induction "is" arbitrary: C n)
  case (Cons i "is")
  show ?case
  proof (cases "overBudget (core C)")
    case True
    obtain m C1 where r1: "withShard i (evictOverBudgetLocked reason 0) C = (m, C1)" by force
    define m2 where "m2 = fst (shedShards is reason (releaseShard i C1))"
    have r2: "shedShards is reason (releaseShard i C1) = (m2, C')" "n = m + m2"
      using Cons.prems(3) r1 True by (auto simp: case_prod_beta Let_def m2_def)
    have i: "i < length (shards C)" using Cons.prems(2) by simp
    note o = shed_one [OF Cons.prems(1) i r1]
    have i1: "i < length (shards C1)" using o(2) i by (simp add: cshrunk_def)
    note rel = releaseShard_spec [OF o(1) i1]
    have sh: "cshrunk C (releaseShard i C1)" using o(2) rel(2) by (rule cshrunk_trans)
    then have len: "length (shards (releaseShard i C1)) = length (shards C)" by (simp add: cshrunk_def)
    have IH: "cache_ok C'" "cshrunk (releaseShard i C1) C'" "0 \<le> m2" "storedEntries C' = storedEntries (releaseShard i C1) - m2"
      "overBudget (core C') \<Longrightarrow> j \<in> set is \<Longrightarrow> st_length (sh_storage (shards C' ! j)) = 0" for j
      using Cons.IH [OF rel(1) _ r2(1)] Cons.prems(2) len by auto
    have "st_length (sh_storage (shards C' ! i)) = 0" if "overBudget (core C')"
    proof (cases "overBudget (core (releaseShard i C1))")
      case True
      then have "st_length (sh_storage (shards (releaseShard i C1) ! i)) = 0" using o(5) rel(3,4) by simp
      then show ?thesis using cshrunk_empty [OF IH(2) rel(1) IH(1)] i len by simp
    next
      case False
      then have "C' = releaseShard i C1" using r2(1) by (cases "is") auto
      then show ?thesis using False that by simp
    qed
    then show ?thesis
      using IH o(3,4) rel(5) r2(2) cshrunk_trans [OF sh IH(2)] by auto
  next
    case False
    then show ?thesis using Cons.prems by simp
  qed
qed simp

lemma shedOrder_set:
  assumes "length (shards C) = 2 ^ b" and "b < 64" and "case lastShard of None \<Rightarrow> True | Some i \<Rightarrow> i < length (shards C)"
  shows "set (shedOrder start lastShard C) = {..<length (shards C)}"
proof -
  let ?f = "\<lambda>i. unat ((start + of_nat i) AND shardMask C)"
  have f: "?f i = (unat start + i) mod 2 ^ b" if "i < 2 ^ b" for i
  proof -
    have "?f i = take_bit b (unat (start + of_nat i))"
      using shardMask_mask [OF assms(1,2)] by (simp add: take_bit_eq_mask [symmetric] unsigned_take_bit_eq)
    also have "\<dots> = take_bit b (unat start + i)"
    proof -
      have "(2 :: nat) ^ b dvd 2 ^ 64" using assms(2) by (intro le_imp_power_dvd) simp
      then have "(unat start + i) mod 2 ^ 64 mod 2 ^ b = (unat start + i) mod 2 ^ b" by (rule mod_mod_cancel)
      then show ?thesis by (simp add: unat_word_ariths(1) unat_of_nat take_bit_eq_mod mod_simps)
    qed
    finally show ?thesis by (simp add: take_bit_eq_mod)
  qed
  define N :: nat where "N = 2 ^ b"
  have "?f ` {..<N} = {..<N}"
  proof (rule endo_inj_surj)
    show "?f ` {..<N} \<subseteq> {..<N}" by (auto simp: f N_def)
    show "inj_on ?f {..<N}"
    proof (rule inj_onI)
      fix i j assume "i \<in> {..<N}" "j \<in> {..<N}" "?f i = ?f j"
      then have "i < N" "j < N" "(unat start + i) mod N = (unat start + j) mod N" by (simp_all add: f N_def)
      then obtain q1 q2 where "unat start + i + N * q1 = unat start + j + N * q2" unfolding nat_mod_eq_iff by blast
      then have "i + N * q1 = j + N * q2" by simp
      then have "i mod N = j mod N" by (metis nat_mod_eq_iff)
      then show "i = j" using \<open>i < N\<close> \<open>j < N\<close> by simp
    qed
  qed simp
  then have "set (map ?f [0..<length (shards C)]) = {..<length (shards C)}" using assms(1) by (simp add: lessThan_atLeast0 N_def)
  then show ?thesis using assms(3) by (cases lastShard) (auto simp: shedOrder_def)
qed

lemma empty_not_over:
  assumes "cache_ok C" and "\<forall>i < length (shards C). st_length (sh_storage (shards C ! i)) = 0"
  shows "\<not> overBudget (core C)"
proof -
  have e: "st_each (sh_storage s) = []" if "s \<in> set (shards C)" for s
    using that assms st.size_each [OF cache_ok_storage [OF assms(1)]] by (auto simp: in_set_conv_nth)
  then have "map (st_length \<circ> sh_storage) (shards C) = map (\<lambda>_. 0) (shards C)"
    "map (weightIn \<circ> sh_storage) (shards C) = map (\<lambda>_. 0) (shards C)"
    using assms(2) by (auto simp: weightIn_def in_set_conv_nth)
  then have "storedEntries C = 0" "storedWeight C = 0"
    unfolding storedEntries_def storedWeight_def by (simp_all only: sum_list_0)
  then show ?thesis using assms(1) by (simp add: cache_ok_def overBudget_def wrap64_def)
qed

definition valid_last :: "nat option \<Rightarrow> ('k, 'v) cache \<Rightarrow> bool" where
  "valid_last l C \<longleftrightarrow> (case l of None \<Rightarrow> True | Some i \<Rightarrow> i < length (shards C))"

text \<open>One sweep over all shards brings the cache within its bounds.\<close>

lemma shedPass_spec:
  assumes ok: "cache_ok C" and l: "valid_last l C" and r: "shedPass reason l C = (n, C')"
  shows "cache_ok C' \<and> cshrunk C C' \<and> \<not> overBudget (core C')"
proof -
  define start where "start = c_shedNext (core C) + 1"
  define C1 where "C1 = C\<lparr>core := (core C)\<lparr>c_shedNext := start\<rparr>\<rparr>"
  have ok1: "cache_ok C1" unfolding C1_def by (rule cache_ok_core [OF ok]) simp_all
  have C1: "shards C1 = shards C" "cshrunk C C1" by (simp_all add: C1_def cshrunk_def)
  obtain b where b: "b < 64" "length (shards C1) = 2 ^ b" using ok1 by (auto simp: cache_ok_def)
  have set: "set (shedOrder start l C1) = {..<length (shards C1)}"
    using shedOrder_set [OF b(2,1), of l start] l C1(1) by (auto simp: valid_last_def split: option.splits)
  have r: "shedShards (shedOrder start l C1) reason C1 = (n, C')"
    using r unfolding shedPass_def Let_def start_def [symmetric] C1_def [symmetric] .
  have s: "cache_ok C'" "cshrunk C1 C'"
    "overBudget (core C') \<Longrightarrow> i < length (shards C1) \<Longrightarrow> st_length (sh_storage (shards C' ! i)) = 0" for i
    using shedShards_spec [OF ok1 _ r] set by auto
  have "length (shards C') = length (shards C1)" using s(2) by (simp add: cshrunk_def)
  then have "\<not> overBudget (core C')" using empty_not_over [OF s(1)] s(3) by auto
  then show ?thesis using s cshrunk_trans [OF C1(2)] by blast
qed

lemma shedLoop_spec:
  assumes ok: "cache_ok C" and l: "valid_last l C" and f: "0 < fuel"
  shows "cache_ok (snd (shedLoop fuel reason l C)) \<and> cshrunk C (snd (shedLoop fuel reason l C)) \<and>
    \<not> overBudget (core (snd (shedLoop fuel reason l C)))"
proof (cases "overBudget (core C)")
  case True
  obtain k where k: "fuel = Suc k" using f by (cases fuel) auto
  obtain n C1 where r: "shedPass reason l C = (n, C1)" by force
  note s = shedPass_spec [OF ok l r]
  have "shedLoop k reason l C1 = (0, C1)" using s by (cases k) auto
  then show ?thesis using s r True k by (auto simp: Let_def)
next
  case False
  then show ?thesis using assms by (cases fuel) auto
qed

lemma flushAndUnlock_spec:
  assumes ok: "cache_ok C" and i: "i < length (shards C)"
  shows "cache_ok (flushAndUnlock i C)" "cshrunk C (flushAndUnlock i C)" "\<not> overBudget (core (flushAndUnlock i C))"
proof -
  note r = releaseShard_spec [OF ok i]
  have "valid_last (Some i) (releaseShard i C)" using r(2) i by (simp add: valid_last_def cshrunk_def)
  from shedLoop_spec [OF r(1) this, of "Suc (nat (storedEntries (releaseShard i C)))" EvictReasonCapacity]
  have s: "cache_ok (flushAndUnlock i C)" "cshrunk (releaseShard i C) (flushAndUnlock i C)"
    "\<not> overBudget (core (flushAndUnlock i C))"
    unfolding flushAndUnlock_def shedOverBudget_def by blast+
  then show "cache_ok (flushAndUnlock i C)" "cshrunk C (flushAndUnlock i C)" "\<not> overBudget (core (flushAndUnlock i C))"
    using cshrunk_trans [OF r(2)] by blast+
qed

end
