(* ===== verification/Cache_Read.thy ===== *)
theory Cache_Read
  imports Cache_Inv
begin

text \<open>
  The reading operations of a cache (cache.go): \<open>Has\<close>, \<open>Peek\<close>, \<open>Get\<close>, \<open>GetWithExpiry\<close>, \<open>TTL\<close>, \<open>Expiry\<close>,
  \<open>Keys\<close>, \<open>Range\<close> and the refresh of an expiry, \<open>Touch\<close>. An operation that leaves the cache alone is a
  function to its result; the others return the result and the new cache. A pair of a value and a flag
  is Go's \<open>(V, bool)\<close>, with the zero value on a miss.

  The lemmas show that every operation preserves the invariant, and what it returns: the value of a
  live entry, where live means stored, not expired and not a tombstone.
\<close>

section \<open>Looking up\<close>

definition onCore :: "(('k, 'v) core \<Rightarrow> ('k, 'v) core) \<Rightarrow> ('k, 'v) cache \<Rightarrow> ('k, 'v) cache" where
  "onCore f C = C\<lparr>core := f (core C)\<rparr>"

definition freshEntryLocked :: "'k \<Rightarrow> ('k, 'v) locked \<Rightarrow> ('k, 'v) entry option" where
  "freshEntryLocked key cs =
     (case cs of (c, s) \<Rightarrow>
        case st_get key (sh_storage s) of
          None \<Rightarrow> None
        | Some e \<Rightarrow> if flags_has (e_flags e) flagNegative \<or> entryExpiredLocked c e then None else Some e)"

definition Has :: "'k \<Rightarrow> ('k, 'v) cache \<Rightarrow> bool" where
  "Has key C =
     (if c_closed (core C) then False
      else case look C key of
             None \<Rightarrow> False
           | Some e \<Rightarrow> \<not> (entryExpiredLocked (core C) e \<or> flags_has (e_flags e) flagNegative))"

definition Peek :: "'k \<Rightarrow> ('k, 'v) cache \<Rightarrow> 'v \<times> bool" where
  "Peek key C =
     (let zero = ty_zeroV (c_types (core C))
      in if c_closed (core C) then (zero, False)
         else case look C key of
                None \<Rightarrow> (zero, False)
              | Some e \<Rightarrow> if entryExpiredLocked (core C) e \<or> flags_has (e_flags e) flagNegative then (zero, False)
                          else (returnValue (core C) (e_loadValue zero e), True))"

section \<open>Get\<close>

text \<open>A background load is started unless one is in flight; its goroutine is a later step.\<close>

definition startRefreshLocked :: "'k \<Rightarrow> ('k, 'v) shard \<Rightarrow> ('k, 'v) shard" where
  "startRefreshLocked key s =
     (if map_of (fl_inflight (sh_flights s)) key \<noteq> None then s
      else s\<lparr>sh_flights := snd (startFlight key (sh_flights s))\<rparr>)"

definition triggerAsyncRefreshLocked :: "'k \<Rightarrow> ('k, 'v) locked \<Rightarrow> ('k, 'v) shard" where
  "triggerAsyncRefreshLocked key cs =
     (case cs of (c, s) \<Rightarrow> if \<not> su_loader (c_settings c) then s else startRefreshLocked key s)"

text \<open>Serving an entry under the write lock: the hit is counted, a sliding expiry moves, the policy is told.\<close>

definition touchLocked :: "('k, 'v) entry \<Rightarrow> ('k, 'v) locked \<Rightarrow> ('k, 'v) entry \<times> ('k, 'v) shard" where
  "touchLocked e cs =
     (case cs of (c, s) \<Rightarrow>
        let (moved, e) = touchAccess (c_now c) (e\<lparr>e_hits := e_hits e + 1\<rparr>);
            s = putEntry e s;
            s = (if moved then expiryFix (e_key e) s else s)
        in (e, s\<lparr>sh_policy := pol_onAccess (e_key e) (sh_policy s)\<rparr>))"

text \<open>Whether \<open>Get\<close> can serve an entry under the read lock.\<close>

definition fastPath :: "('k, 'v) core \<Rightarrow> ('k, 'v) shard \<Rightarrow> ('k, 'v) entry \<Rightarrow> bool" where
  "fastPath c s e \<longleftrightarrow>
     \<not> entryExpiredLocked c e \<and> \<not> flags_has (e_flags e) flagNegative \<and> \<not> flags_has (e_flags e) flagSliding \<and>
     \<not> pol_promotionNeeded (e_key e) (sh_policy s) \<and> \<not> shouldRefreshAhead c e"

datatype 'v getOutcome = GetHit 'v | GetMissing | GetNegative

text \<open>The slow path of \<open>getCtx\<close>, between locking and unlocking the shard.\<close>

definition getSlowLocked :: "'k \<Rightarrow> ('k, 'v) locked \<Rightarrow> 'v getOutcome \<times> ('k, 'v) locked" where
  "getSlowLocked key cs =
     (case cs of (c, s) \<Rightarrow>
        let zero = ty_zeroV (c_types c)
        in case st_get key (sh_storage s) of
             None \<Rightarrow> (GetMissing, (c, s))
           | Some e \<Rightarrow>
               case entryExpiredLockedReason c e of
                 Some reason \<Rightarrow>
                   if \<not> flags_has (e_flags e) flagNegative \<and> shouldServeStale c e
                   then let s = triggerAsyncRefreshLocked key (c, s);
                            c = count (sc_staleWhileRevalidate_update (\<lambda>n. n + 1)) c;
                            s = putEntry (e\<lparr>e_hits := e_hits e + 1\<rparr>) s;
                            s = s\<lparr>sh_policy := pol_onAccess key (sh_policy s)\<rparr>
                        in (GetHit (e_loadValue zero e), (c, s))
                   else let (c, s) = removeLocked e reason (c, s)
                        in (GetMissing, (count (sc_expirations_update (\<lambda>n. n + 1)) c, s))
               | None \<Rightarrow>
                   if flags_has (e_flags e) flagNegative
                   then (GetNegative, (count (sc_negativeHits_update (\<lambda>n. n + 1)) c, s))
                   else let (e, s) = touchLocked e (c, s);
                            ahead = shouldRefreshAhead c e;
                            c = count_if ahead (sc_refreshAhead_update (\<lambda>n. n + 1)) c;
                            s = (if ahead then triggerAsyncRefreshLocked key (c, s) else s)
                        in (GetHit (e_loadValue zero e), (c, s)))"

definition getSlow :: "'k \<Rightarrow> ('k, 'v) cache \<Rightarrow> ('v \<times> bool) \<times> ('k, 'v) cache" where
  "getSlow key C =
     (let zero = ty_zeroV (c_types (core C));
          i = shardFor key C;
          (out, C) = withShard i (getSlowLocked key) C;
          C = flushAndUnlock i C
      in case out of
           GetHit v \<Rightarrow> ((returnValue (core C) v, True), onCore (fireHit key v \<circ> recordHitObserve key) C)
         | GetMissing \<Rightarrow> ((zero, False), onCore (fireMiss key \<circ> recordMiss) C)
         | GetNegative \<Rightarrow> ((zero, False), onCore (fireMiss key \<circ> recordMiss) C))"

definition Get :: "'k \<Rightarrow> ('k, 'v) cache \<Rightarrow> ('v \<times> bool) \<times> ('k, 'v) cache" where
  "Get key C =
     (let zero = ty_zeroV (c_types (core C)); i = shardFor key C
      in if c_closed (core C) then ((zero, False), C)
         else case look C key of
                None \<Rightarrow> getSlow key C
              | Some e \<Rightarrow>
                  if fastPath (core C) (shards C ! i) e
                  then let val = e_loadValue zero e;
                           C = C\<lparr>shards := (shards C)[i := putEntry (e\<lparr>e_hits := e_hits e + 1\<rparr>) (shards C ! i)]\<rparr>
                       in ((returnValue (core C) val, True), onCore (fireHit key val \<circ> recordHitObserve key) C)
                  else getSlow key C)"

section \<open>Expiry\<close>

text \<open>\<open>GetWithExpiry\<close> between locking and the deferred unlock; \<^const>\<open>None\<close> is the zero time.\<close>

definition getWithExpiryLocked :: "'k \<Rightarrow> ('k, 'v) locked \<Rightarrow> ('v \<times> int option \<times> bool) \<times> ('k, 'v) locked" where
  "getWithExpiryLocked key cs =
     (case cs of (c, s) \<Rightarrow>
        let zero = ty_zeroV (c_types c)
        in case st_get key (sh_storage s) of
             None \<Rightarrow> ((zero, None, False), (recordMiss c, s))
           | Some e \<Rightarrow>
               case entryExpiredLockedReason c e of
                 Some reason \<Rightarrow>
                   let (c, s) = removeLocked e reason (c, s);
                       c = count (sc_expirations_update (\<lambda>n. n + 1)) c
                   in ((zero, None, False), (recordMiss c, s))
               | None \<Rightarrow>
                   if flags_has (e_flags e) flagNegative then ((zero, None, False), (recordMiss c, s))
                   else let (e, s) = touchLocked e (c, s);
                            c = recordHit c
                        in ((returnValue c (e_loadValue zero e),
                             if e_expireAt e = 0 then None else Some (e_expireAt e), True), (c, s)))"

definition GetWithExpiry :: "'k \<Rightarrow> ('k, 'v) cache \<Rightarrow> ('v \<times> int option \<times> bool) \<times> ('k, 'v) cache" where
  "GetWithExpiry key C =
     (if c_closed (core C) then ((ty_zeroV (c_types (core C)), None, False), C)
      else let i = shardFor key C; (r, C) = withShard i (getWithExpiryLocked key) C in (r, flushAndUnlock i C))"

definition TTL :: "'k \<Rightarrow> ('k, 'v) cache \<Rightarrow> int \<times> bool" where
  "TTL key C =
     (if c_closed (core C) then (0, False)
      else case look C key of
             None \<Rightarrow> (0, False)
           | Some e \<Rightarrow>
               if entryExpiredLocked (core C) e \<or> flags_has (e_flags e) flagNegative then (0, False)
               else if e_expireAt e = 0 then (0, True)
               else let remaining = wrap64 (e_expireAt e - c_now (core C))
                    in if remaining < 0 then (0, False) else (remaining, True))"

definition Expiry :: "'k \<Rightarrow> ('k, 'v) cache \<Rightarrow> int option \<times> bool" where
  "Expiry key C =
     (if c_closed (core C) then (None, False)
      else case look C key of
             None \<Rightarrow> (None, False)
           | Some e \<Rightarrow>
               if entryExpiredLocked (core C) e \<or> flags_has (e_flags e) flagNegative then (None, False)
               else if e_expireAt e = 0 then (None, True) else (Some (e_expireAt e), True))"

definition refreshExpiryLocked :: "('k, 'v) entry \<Rightarrow> int \<Rightarrow> ('k, 'v) locked \<Rightarrow> ('k, 'v) locked" where
  "refreshExpiryLocked e ttl cs =
     (case cs of (c, s) \<Rightarrow>
        let (expireAt, c) = (if ttl > 0 then let (eff, c') = effectiveTTL ttl c in (wrap64 (c_now c + eff), c') else (0, c));
            s = putEntry (e\<lparr>e_expireAt := expireAt, e_lastAccess := c_now c\<rparr>) s;
            s = expiryFix (e_key e) s
        in (c, if expireAt > 0 then startJanitorLocked (c, s) else s))"

text \<open>The common body of \<open>Touch\<close> and \<open>TouchWithTTL\<close> under the lock; \<open>ttlOf\<close> gives the new TTL.\<close>

definition touchWithLocked :: "'k \<Rightarrow> (('k, 'v) entry \<Rightarrow> int) \<Rightarrow> ('k, 'v) locked \<Rightarrow> bool \<times> ('k, 'v) locked" where
  "touchWithLocked key ttlOf cs =
     (case freshEntryLocked key cs of
        None \<Rightarrow> (False, cs)
      | Some e \<Rightarrow> (True, refreshExpiryLocked e (ttlOf e) cs))"

definition Touch :: "'k \<Rightarrow> ('k, 'v) cache \<Rightarrow> bool \<times> ('k, 'v) cache" where
  "Touch key C =
     (if c_closed (core C) then (False, C)
      else let i = shardFor key C;
               ttlOf = (\<lambda>e. if flags_has (e_flags e) flagSliding \<and> e_slidingTTL e > 0 then e_slidingTTL e
                            else cf_defaultTTL (c_cfg (core C)));
               (r, C) = withShard i (touchWithLocked key ttlOf) C
           in (r, flushAndUnlock i C))"

definition TouchWithTTL :: "'k \<Rightarrow> int \<Rightarrow> ('k, 'v) cache \<Rightarrow> bool \<times> ('k, 'v) cache" where
  "TouchWithTTL key ttl C =
     (if c_closed (core C) \<or> ttl < 0 then (False, C)
      else let i = shardFor key C;
               (r, C) = withShard i (touchWithLocked key (\<lambda>_. ttl)) C
           in (r, flushAndUnlock i C))"

section \<open>Enumeration and counters\<close>

definition copyShard :: "('k, 'v) core \<Rightarrow> ('k, 'v) shard \<Rightarrow> ('k \<times> 'v) list" where
  "copyShard c s =
     map (\<lambda>e. (e_key e, e_loadValue (ty_zeroV (c_types c)) e))
       (filter (\<lambda>e. \<not> entryExpiredLocked c e \<and> \<not> flags_has (e_flags e) flagNegative) (map snd (st_each (sh_storage s))))"

text \<open>The pairs \<open>Range\<close> passes to a callback that never stops it and does not write.\<close>

definition Cache_Range :: "('k, 'v) cache \<Rightarrow> ('k \<times> 'v) list" where
  "Cache_Range C =
     (if c_closed (core C) then []
      else concat (map (\<lambda>s. map (\<lambda>(k, v). (k, returnValue (core C) v)) (copyShard (core C) s)) (shards C)))"

definition Keys :: "('k, 'v) cache \<Rightarrow> 'k list" where
  "Keys C =
     (if c_closed (core C) then []
      else concat (map (\<lambda>s. map e_key (filter (\<lambda>e. \<not> entryExpiredLocked (core C) e \<and> \<not> flags_has (e_flags e) flagNegative)
             (map snd (st_each (sh_storage s))))) (shards C)))"

definition Len :: "('k, 'v) cache \<Rightarrow> int" where
  "Len C = sc_entries (c_counters (core C))"

definition Bytes :: "('k, 'v) cache \<Rightarrow> int" where
  "Bytes C = sc_bytes (c_counters (core C))"

definition Capacity :: "('k, 'v) cache \<Rightarrow> int" where
  "Capacity C = (if c_maxEntries (core C) > 0 then c_maxEntries (core C) else c_maxBytes (core C))"

definition Cache_Tags :: "'k \<Rightarrow> ('k, 'v) cache \<Rightarrow> string list" where
  "Cache_Tags key C = (if c_closed (core C) then [] else case look C key of None \<Rightarrow> [] | Some e \<Rightarrow> e_tags e)"

fun GetMulti_loop :: "'k list \<Rightarrow> ('k \<times> 'v) list \<Rightarrow> ('k, 'v) cache \<Rightarrow> ('k \<times> 'v) list \<times> ('k, 'v) cache" where
  "GetMulti_loop [] out C = (out, C)"
| "GetMulti_loop (k # ks) out C =
     (case Get k C of ((v, ok), C) \<Rightarrow> GetMulti_loop ks (if ok then AList.update k v out else out) C)"

definition GetMulti :: "'k list \<Rightarrow> ('k, 'v) cache \<Rightarrow> ('k \<times> 'v) list \<times> ('k, 'v) cache" where
  "GetMulti keys C = (if c_closed (core C) \<or> keys = [] then ([], C) else GetMulti_loop keys [] C)"

definition policy_String :: "8 word \<Rightarrow> string" where
  "policy_String p =
     (if p = PolicyS3FIFO then ''s3fifo'' else if p = PolicyLRU then ''lru'' else if p = PolicyLFU then ''lfu''
      else if p = PolicyTinyLFU then ''tinylfu'' else if p = PolicyFIFO then ''fifo'' else if p = PolicyARC then ''arc''
      else if p = Policy2Q then ''2q'' else ''unknown'')"

definition Cache_Stats :: "('k, 'v) cache \<Rightarrow> stats" where
  "Cache_Stats C =
     (let s = sc_snapshot (c_now (core C)) (c_counters (core C))
      in s\<lparr>s_Capacity := Capacity C, s_PolicyName := policy_String (cf_policyKind (c_cfg (core C))),
           s_TagsTracked := distinctTagCount (tg_index (c_tags (core C))),
           s_TagCleanupBacklog := tagCleanupBacklog (c_tags (core C)),
           s_Compactions := s_Compactions s + sum_list (map (\<lambda>sh. of_nat (st_compactions (sh_storage sh))) (shards C)),
           s_PolicyDetail := (case shards C of [] \<Rightarrow> None | sh # _ \<Rightarrow> Some (pol_snapshot (sh_policy sh)))\<rparr>)"

definition ResetStats :: "('k, 'v) cache \<Rightarrow> ('k, 'v) cache" where
  "ResetStats C = onCore (count (stampReset (c_now (core C)) \<circ> sc_reset)) C"

section \<open>In-place changes of an entry\<close>

lemma locked_ok_policy:
  assumes "locked_inv D own oth n w (c, s)" and "pol_ok p" and "pol_tracked p = pol_tracked (sh_policy s)"
  shows "locked_inv D own oth n w (c, s\<lparr>sh_policy := p\<rparr>)"
  using assms locked_invD(2) [OF assms(1)] by (intro locked_inv_shard [OF assms(1)]) (simp_all add: shard_inv_policy)

lemma locked_ok_access:
  assumes "locked_inv D own oth n w (c, s)"
  shows "locked_inv D own oth n w (c, s\<lparr>sh_policy := pol_onAccess k (sh_policy s)\<rparr>)"
proof -
  have "pol_ok (sh_policy s)" by (rule shard_invD(5) [OF locked_invD(2) [OF assms]])
  then show ?thesis by (intro locked_ok_policy [OF assms]) (simp_all add: pol.ok_access pol.tracked_access)
qed

lemma locked_ok_flights:
  assumes "locked_inv D own oth n w (c, s)" and "fl_ok f"
  shows "locked_inv D own oth n w (c, s\<lparr>sh_flights := f\<rparr>)"
  by (rule locked_inv_shard [OF assms(1)]) (simp_all add: shard_inv_flights [OF locked_invD(2) [OF assms(1)] assms(2)])

lemma locked_ok_entry:
  assumes inv: "locked_ok own oth n w (c, s)" and e0: "st_get (e_key e) (sh_storage s) = Some e0"
    and e: "e_weight e = e_weight e0" "e_tags e = e_tags e0"
    and s': "sh_storage s' = st_set (e_key e) e (sh_storage s)" "shard_ok own s'"
  shows "locked_ok own oth n w (c, s')"
proof -
  note d = locked_invD [OF inv]
  note sd = shard_invD [OF d(2)]
  have "own (e_key e)" using sd(3) [OF e0] .
  then have "tagsNow own oth (sh_storage s') = tagsNow own oth (sh_storage s)"
    using e0 e(2) by (auto simp: s' tagsNow_set [OF sd(1)] tagsNow_def tagsIn_def)
  then show ?thesis
    using d s' st.size_set_old [OF sd(1) e0, of e] weight_set [OF sd(1), of "e_key e" e] e0 e(1)
    by (simp add: locked_inv_def)
qed

lemma locked_ok_rewrite:
  assumes inv: "locked_ok own oth n w (c, s)" and e0: "st_get (e_key e) (sh_storage s) = Some e0"
    and e: "entry_ok e" "e_weight e = e_weight e0" "e_tags e = e_tags e0" "e_expireAt e = e_expireAt e0"
  shows "locked_ok own oth n w (c, putEntry e s)"
  using shard_ok_rewrite [OF locked_invD(2) [OF inv] e0 e(1,4)]
  by (intro locked_ok_entry [OF inv e0 e(2,3)]) (simp_all add: putEntry_def)

lemma locked_ok_reexpire:
  assumes inv: "locked_ok own oth n w (c, s)" and e0: "st_get (e_key e) (sh_storage s) = Some e0"
    and e: "entry_ok e" "e_weight e = e_weight e0" "e_tags e = e_tags e0"
  shows "locked_ok own oth n w (c, expiryFix (e_key e) (putEntry e s))"
  using shard_ok_replace [OF locked_invD(2) [OF inv] e0 e(1)]
  by (intro locked_ok_entry [OF inv e0 e(2,3)]) (simp_all add: putEntry_def expiryFix_def)

lemma touchAccess_entry_ok:
  assumes "entry_ok e" and "0 \<le> now" and "now \<le> 2 ^ 62"
  shows "entry_ok (snd (touchAccess now e))"
proof -
  have "wrap64 (now + e_slidingTTL e) = now + e_slidingTTL e" if "0 < e_slidingTTL e"
    using assms that by (intro wrap64_id) (simp_all add: entry_ok_def ttl_max_def)
  then show ?thesis using assms by (auto simp: entry_ok_def touchAccess_def ttl_max_def time_ok_def)
qed

lemma touchLocked_ok:
  assumes inv: "locked_ok own oth n w (c, s)" and e: "st_get (e_key e) (sh_storage s) = Some e"
  shows "locked_ok own oth n w (c, snd (touchLocked e (c, s)))" "e_value (fst (touchLocked e (c, s))) = e_value e"
proof -
  let ?e = "e\<lparr>e_hits := e_hits e + 1\<rparr>"
  obtain moved e' where t: "touchAccess (c_now c) ?e = (moved, e')" by force
  have e': "e_key e' = e_key e" "e_weight e' = e_weight e" "e_tags e' = e_tags e" "e_value e' = e_value e"
    "\<not> moved \<Longrightarrow> e_expireAt e' = e_expireAt e"
    using touchAccess_fields [of "c_now c" ?e] touchAccess_unshifted [of "c_now c" ?e] t by simp_all
  have "entry_ok ?e" using shard_invD(4) [OF locked_invD(2) [OF inv] e] by (simp add: entry_ok_def)
  then have ok: "entry_ok e'"
    using touchAccess_entry_ok [of ?e "c_now c"] t locked_invD(1) [OF inv] by (simp add: core_ok_def)
  have "locked_ok own oth n w (c, if moved then expiryFix (e_key e') (putEntry e' s) else putEntry e' s)"
    using locked_ok_rewrite [OF inv _ ok] locked_ok_reexpire [OF inv _ ok] e e' by simp
  then show "locked_ok own oth n w (c, snd (touchLocked e (c, s)))"
    using locked_ok_access [of "{}" own oth n w c _ "e_key e'"] by (simp add: touchLocked_def t Let_def)
  show "e_value (fst (touchLocked e (c, s))) = e_value e" using e' by (simp add: touchLocked_def t Let_def)
qed

lemma startRefreshLocked_ok: "locked_ok own oth n w (c, s) \<Longrightarrow> locked_ok own oth n w (c, startRefreshLocked k s)"
proof -
  assume inv: "locked_ok own oth n w (c, s)"
  have "fl_ok (sh_flights s)" using shard_invD(9) [OF locked_invD(2) [OF inv]] .
  then show ?thesis using inv by (simp add: startRefreshLocked_def locked_ok_flights fl_ok_start)
qed

lemma triggerAsyncRefreshLocked_ok:
  "locked_ok own oth n w (c, s) \<Longrightarrow> locked_ok own oth n w (c, triggerAsyncRefreshLocked k (c', s))"
  by (simp add: triggerAsyncRefreshLocked_def startRefreshLocked_ok)

lemma triggerAsyncRefreshLocked_storage [simp]: "sh_storage (triggerAsyncRefreshLocked k (c, s)) = sh_storage s"
  by (simp add: triggerAsyncRefreshLocked_def startRefreshLocked_def)

lemma locked_ok_count [simp]:
  assumes "\<And>x. sc_entries (f x) = sc_entries x" and "\<And>x. sc_bytes (f x) = sc_bytes x"
  shows "locked_inv D own oth n w (count f c, s) = locked_inv D own oth n w (c, s)"
    "locked_inv D own oth n w (count_if b f c, s) = locked_inv D own oth n w (c, s)"
  using assms by (simp_all add: locked_inv_def core_ok_def)

section \<open>From locked sections to operations\<close>

text \<open>A section of code that keeps the invariant of the locked shard, whatever the others hold.\<close>

definition keeps :: "('k \<Rightarrow> bool) \<Rightarrow> (('k, 'v) locked \<Rightarrow> 'r \<times> ('k, 'v) locked) \<Rightarrow> ('k, 'v) locked \<Rightarrow> bool" where
  "keeps own f cs \<longleftrightarrow> (\<forall>oth n w. locked_ok own oth n w cs \<longrightarrow> locked_ok own oth n w (snd (f cs))) \<and>
     frozen (fst (snd (f cs))) = frozen (fst cs)"

lemma keepsI:
  assumes "\<And>oth n w. locked_ok own oth n w (c, s) \<Longrightarrow> locked_ok own oth n w (snd (f (c, s)))"
    and "frozen (fst (snd (f (c, s)))) = frozen c"
  shows "keeps own f (c, s)"
  using assms by (simp add: keeps_def)

lemma withShard_eq: "withShard i f C = (fst (f (core C, shards C ! i)),
    C\<lparr>core := fst (snd (f (core C, shards C ! i))), shards := (shards C)[i := snd (snd (f (core C, shards C ! i)))]\<rparr>)"
  by (simp add: withShard_def case_prod_beta)

lemma withShard_ok:
  assumes ok: "cache_ok C" and i: "i < length (shards C)" and k: "keeps (\<lambda>k. shardFor k C = i) f (core C, shards C ! i)"
  shows "cache_ok (snd (withShard i f C))" "frozen (core (snd (withShard i f C))) = frozen (core C)"
    "length (shards (snd (withShard i f C))) = length (shards C)" "\<And>k. shardFor k (snd (withShard i f C)) = shardFor k C"
proof -
  let ?cs = "snd (f (core C, shards C ! i))"
  have f: "frozen (fst ?cs) = frozen (core C)" using k by (simp add: keeps_def)
  have "locked_ok (\<lambda>k. shardFor k C = i) (tagsOf C) (storedEntries C - st_length (sh_storage (shards C ! i)))
      (storedWeight C - weightIn (sh_storage (shards C ! i))) (fst ?cs, snd ?cs)"
    using k cache_locked [OF ok i] by (simp add: keeps_def)
  from locked_cache [OF ok i frozenD(1) [OF f] this] show "cache_ok (snd (withShard i f C))"
    by (simp add: withShard_eq)
  show fr: "frozen (core (snd (withShard i f C))) = frozen (core C)" using f by (simp add: withShard_eq)
  show len: "length (shards (snd (withShard i f C))) = length (shards C)" by (simp add: withShard_eq)
  show "\<And>k. shardFor k (snd (withShard i f C)) = shardFor k C" using frozenD(1) [OF fr] len by (rule shardFor_cong)
qed

text \<open>A locked section followed by the release of the shard: the outline of most operations.\<close>

definition lockedOp :: "nat \<Rightarrow> (('k, 'v) locked \<Rightarrow> 'r \<times> ('k, 'v) locked) \<Rightarrow> ('k, 'v) cache \<Rightarrow> ('k, 'v) cache" where
  "lockedOp i f C = flushAndUnlock i (snd (withShard i f C))"

lemma lockedOp_spec:
  assumes ok: "cache_ok C" and i: "i < length (shards C)" and k: "keeps (\<lambda>k. shardFor k C = i) f (core C, shards C ! i)"
  shows "cache_ok (lockedOp i f C)" "frozen (core (lockedOp i f C)) = frozen (core C)"
    "length (shards (lockedOp i f C)) = length (shards C)" "\<And>k. shardFor k (lockedOp i f C) = shardFor k C"
    "\<not> overBudget (core (lockedOp i f C))" "cshrunk (snd (withShard i f C)) (lockedOp i f C)"
proof -
  note w = withShard_ok [OF assms]
  have "i < length (shards (snd (withShard i f C)))" using i w(3) by simp
  note fl = flushAndUnlock_spec [OF w(1) this]
  show "cache_ok (lockedOp i f C)" "\<not> overBudget (core (lockedOp i f C))" "cshrunk (snd (withShard i f C)) (lockedOp i f C)"
    using fl by (simp_all add: lockedOp_def)
  show fr: "frozen (core (lockedOp i f C)) = frozen (core C)" and len: "length (shards (lockedOp i f C)) = length (shards C)"
    using fl(2) w(2,3) by (simp_all add: lockedOp_def cshrunk_def)
  show "\<And>k. shardFor k (lockedOp i f C) = shardFor k C" using frozenD(1) [OF fr] len by (rule shardFor_cong)
qed

text \<open>Hooks and counters around the locked sections do not touch what the invariant speaks of.\<close>

definition quiet :: "(('k, 'v) core \<Rightarrow> ('k, 'v) core) \<Rightarrow> bool" where
  "quiet f \<longleftrightarrow> (\<forall>c. sc_entries (c_counters (f c)) = sc_entries (c_counters c) \<and>
     sc_bytes (c_counters (f c)) = sc_bytes (c_counters c) \<and> c_tags (f c) = c_tags c \<and> frozen (f c) = frozen c \<and>
     (eb_ok (c_events c) \<longrightarrow> eb_ok (c_events (f c))))"

lemma quiet_simps [simp]:
  "quiet recordHit" "quiet recordMiss" "quiet (recordHitObserve key)" "quiet (fireHit key v)" "quiet (fireMiss key)"
  "quiet (publishEvent ev)" "quiet (callHook b h)"
  by (simp_all add: quiet_def recordHitObserve_def fireHit_def fireMiss_def Let_def)

lemma quiet_count: "(\<And>x. sc_entries (f x) = sc_entries x) \<Longrightarrow> (\<And>x. sc_bytes (f x) = sc_bytes x) \<Longrightarrow> quiet (count f)"
  by (simp add: quiet_def)

lemma quiet_comp [simp]: "quiet f \<Longrightarrow> quiet g \<Longrightarrow> quiet (f \<circ> g)"
  by (simp add: quiet_def)

lemma quiet_locked:
  assumes "quiet f" and "locked_inv D own oth n w (c, s)"
  shows "locked_inv D own oth n w (f c, s)" "frozen (f c) = frozen c"
proof -
  have f: "sc_entries (c_counters (f c)) = sc_entries (c_counters c)" "sc_bytes (c_counters (f c)) = sc_bytes (c_counters c)"
    "c_tags (f c) = c_tags c" "frozen (f c) = frozen c" "eb_ok (c_events c) \<Longrightarrow> eb_ok (c_events (f c))"
    using assms(1) by (auto simp: quiet_def)
  show "frozen (f c) = frozen c" by (rule f)
  show "locked_inv D own oth n w (f c, s)"
    by (rule locked_inv_core [OF assms(2)]) (simp_all add: f frozenD(2) [OF f(4)])
qed

lemma onCore_spec:
  assumes "quiet f" and "cache_ok C"
  shows "cache_ok (onCore f C)" "frozen (core (onCore f C)) = frozen (core C)" "shards (onCore f C) = shards C"
    "look (onCore f C) = look C" "overBudget (core (onCore f C)) = overBudget (core C)"
    "storedEntries (onCore f C) = storedEntries C" "shardFor k (onCore f C) = shardFor k C"
proof -
  have f: "sc_entries (c_counters (f c)) = sc_entries (c_counters c)" "sc_bytes (c_counters (f c)) = sc_bytes (c_counters c)"
    "c_tags (f c) = c_tags c" "frozen (f c) = frozen c" "eb_ok (c_events c) \<Longrightarrow> eb_ok (c_events (f c))" for c
    using assms(1) by (auto simp: quiet_def)
  show "cache_ok (onCore f C)" unfolding onCore_def by (rule cache_ok_core [OF assms(2)]) (simp_all add: f)
  show fr: "frozen (core (onCore f C)) = frozen (core C)" by (simp add: onCore_def f)
  show sh: "shards (onCore f C) = shards C" by (simp add: onCore_def)
  have sf: "shardFor k (onCore f C) = shardFor k C" for k using frozenD(1) [OF fr] by (rule shardFor_cong) (simp add: sh)
  show "shardFor k (onCore f C) = shardFor k C" by (rule sf)
  show "look (onCore f C) = look C" by (rule ext) (simp add: look_def sf sh)
  show "overBudget (core (onCore f C)) = overBudget (core C)"
    using frozenD(5,6) [OF f(4), of "core C"] by (simp add: onCore_def overBudget_def f)
  show "storedEntries (onCore f C) = storedEntries C" by (simp add: storedEntries_def sh)
qed

text \<open>The outcome of an operation that keeps the invariant, the settings and the clock, and does not lead
  out of the bounds.\<close>

definition settled :: "('k, 'v) cache \<Rightarrow> ('k, 'v) cache \<Rightarrow> bool" where
  "settled C C' \<longleftrightarrow> cache_ok C' \<and> frozen (core C') = frozen (core C) \<and>
     (\<not> overBudget (core C) \<longrightarrow> \<not> overBudget (core C'))"

lemma settledD:
  assumes "settled C C'"
  shows "cache_ok C'" "frozen (core C') = frozen (core C)" "\<not> overBudget (core C) \<Longrightarrow> \<not> overBudget (core C')"
  using assms by (auto simp: settled_def)

lemma settled_refl: "cache_ok C \<Longrightarrow> settled C C"
  by (simp add: settled_def)

lemma settled_trans: "settled C C1 \<Longrightarrow> settled C1 C2 \<Longrightarrow> settled C C2"
  by (simp add: settled_def)

lemma settled_lockedOp:
  assumes "cache_ok C" and "i < length (shards C)" and "keeps (\<lambda>k. shardFor k C = i) f (core C, shards C ! i)"
  shows "settled C (lockedOp i f C)"
  using lockedOp_spec(1,2,5) [OF assms] by (simp add: settled_def)

lemma settled_onCore:
  assumes "quiet f" and "settled C C'"
  shows "settled C (onCore f C')"
  using onCore_spec(1,2,5) [OF assms(1) settledD(1) [OF assms(2)]] assms(2) by (simp add: settled_def)

text \<open>The entry a key has after an operation on its own shard, and on another.\<close>

lemma look_lockedOp:
  assumes ok: "cache_ok C" and i: "i = shardFor key C" and k: "keeps (\<lambda>k. shardFor k C = i) f (core C, shards C ! i)"
  shows "look (lockedOp i f C) k = None \<or> look (lockedOp i f C) k =
    (if shardFor k C = i then st_get k (sh_storage (snd (snd (f (core C, shards C ! i))))) else look C k)"
proof -
  have il: "i < length (shards C)" using shardFor_less [OF ok] i by simp
  note w = withShard_ok [OF ok il k]
  have "look (snd (withShard i f C)) k =
      (if shardFor k C = i then st_get k (sh_storage (snd (snd (f (core C, shards C ! i))))) else look C k)"
    using il shardFor_less [OF ok, of k] by (auto simp: look_def w(4)) (auto simp: withShard_eq)
  then show ?thesis using cshrunk_look [OF lockedOp_spec(6) [OF ok il k] w(1), of k] by metis
qed

section \<open>What Get returns\<close>

text \<open>An entry \<open>Get\<close> may serve: not a tombstone and not expired, unless it is within the time
  \<open>WithStaleWhileRevalidate\<close> allows.\<close>

definition servable :: "('k, 'v) core \<Rightarrow> ('k, 'v) entry \<Rightarrow> bool" where
  "servable c e \<longleftrightarrow> \<not> flags_has (e_flags e) flagNegative \<and> (entryExpiredLocked c e \<longrightarrow> shouldServeStale c e)"

lemma touchLocked_value: "e_loadValue z (fst (touchLocked e (c, s))) = e_loadValue z e"
proof -
  have "e_value (snd (touchAccess (c_now c) (e\<lparr>e_hits := e_hits e + 1\<rparr>))) = e_value e" by simp
  then show ?thesis by (simp add: touchLocked_def case_prod_beta Let_def e_loadValue_def)
qed

lemma getSlowLocked_out:
  "fst (getSlowLocked key (c, s)) =
     (case st_get key (sh_storage s) of
        None \<Rightarrow> GetMissing
      | Some e \<Rightarrow> if servable c e then GetHit (e_loadValue (ty_zeroV (c_types c)) e)
                  else if entryExpiredLocked c e then GetMissing else GetNegative)"
proof (cases "st_get key (sh_storage s)")
  case (Some e)
  show ?thesis
  proof (cases "entryExpiredLockedReason c e")
    case None
    then show ?thesis
      using Some touchLocked_value [of "ty_zeroV (c_types c)" e c s]
      by (simp add: getSlowLocked_def servable_def entryExpiredLocked_def case_prod_beta Let_def)
  next
    case (Some r)
    then show ?thesis
      using \<open>st_get key (sh_storage s) = Some e\<close>
      by (simp add: getSlowLocked_def servable_def entryExpiredLocked_def case_prod_beta Let_def)
  qed
qed (simp add: getSlowLocked_def)

lemma getSlowLocked_locked:
  assumes inv: "locked_ok own oth n w (c, s)"
  shows "locked_ok own oth n w (snd (getSlowLocked key (c, s)))"
proof (cases "st_get key (sh_storage s)")
  case None
  then show ?thesis using inv by (simp add: getSlowLocked_def)
next
  case (Some e)
  note sd = shard_invD [OF locked_invD(2) [OF inv]]
  have k: "e_key e = key" using sd(2) [OF Some] .
  show ?thesis
  proof (cases "entryExpiredLockedReason c e")
    case None
    let ?s = "snd (touchLocked e (c, s))"
    have t: "locked_ok own oth n w (c, ?s)" using touchLocked_ok(1) [OF inv] Some k by simp
    show ?thesis
      using Some None inv t triggerAsyncRefreshLocked_ok [OF t]
      by (auto simp: getSlowLocked_def case_prod_beta Let_def)
  next
    case r: (Some reason)
    show ?thesis
    proof (cases "\<not> flags_has (e_flags e) flagNegative \<and> shouldServeStale c e")
      case True
      let ?s = "triggerAsyncRefreshLocked key (c, s)"
      have t: "locked_ok own oth n w (c, ?s)" by (rule triggerAsyncRefreshLocked_ok [OF inv])
      have "locked_ok own oth n w (c, putEntry (e\<lparr>e_hits := e_hits e + 1\<rparr>) ?s)"
        using Some k sd(4) [OF Some] by (intro locked_ok_rewrite [OF t]) (simp_all add: entry_ok_def)
      from locked_ok_access [OF this, of key] show ?thesis
        using Some r True by (simp add: getSlowLocked_def Let_def)
    next
      case False
      show ?thesis
        using Some r False removeLocked_ok [OF inv, of e reason] k
        by (auto simp: getSlowLocked_def case_prod_beta Let_def)
    qed
  qed
qed

lemma getSlowLocked_frozen: "frozen (fst (snd (getSlowLocked key (c, s)))) = frozen c"
  by (simp add: getSlowLocked_def case_prod_beta Let_def split: option.split)

lemma getSlowLocked_keeps: "keeps own (getSlowLocked key) (c, s)"
  by (rule keepsI) (simp_all add: getSlowLocked_locked getSlowLocked_frozen)

lemma getSlow_spec:
  assumes ok: "cache_ok C"
  defines "zero \<equiv> ty_zeroV (c_types (core C))"
  shows "cache_ok (snd (getSlow key C)) \<and> frozen (core (snd (getSlow key C))) = frozen (core C)"
    "fst (getSlow key C) =
       (case look C key of
          None \<Rightarrow> (zero, False)
        | Some e \<Rightarrow> if servable (core C) e then (returnValue (core C) (e_loadValue zero e), True) else (zero, False))"
proof -
  let ?i = "shardFor key C"
  define out where "out = fst (getSlowLocked key (core C, shards C ! ?i))"
  define C1 where "C1 = lockedOp ?i (getSlowLocked key) C"
  note o = lockedOp_spec [OF ok shardFor_less [OF ok] getSlowLocked_keeps, of key key, folded C1_def]
  have rv: "returnValue (core C1) = returnValue (core C)"
    using frozenD(1) [OF o(2)] by (simp add: returnValue_def fun_eq_iff)
  have g: "getSlow key C = (case out of
      GetHit v \<Rightarrow> ((returnValue (core C1) v, True), onCore (fireHit key v \<circ> recordHitObserve key) C1)
    | GetMissing \<Rightarrow> ((zero, False), onCore (fireMiss key \<circ> recordMiss) C1)
    | GetNegative \<Rightarrow> ((zero, False), onCore (fireMiss key \<circ> recordMiss) C1))"
    unfolding getSlow_def Let_def case_prod_beta withShard_eq out_def C1_def lockedOp_def zero_def by simp
  show "cache_ok (snd (getSlow key C)) \<and> frozen (core (snd (getSlow key C))) = frozen (core C)"
    using o(1,2) by (cases out) (simp_all add: g onCore_spec)
  show "fst (getSlow key C) =
       (case look C key of
          None \<Rightarrow> (zero, False)
        | Some e \<Rightarrow> if servable (core C) e then (returnValue (core C) (e_loadValue zero e), True) else (zero, False))"
    by (simp add: g out_def getSlowLocked_out look_def zero_def rv split: option.split)
qed

lemma fastHit_ok:
  assumes ok: "cache_ok C" and e: "look C key = Some e" and i: "i = shardFor key C"
  shows "cache_ok (C\<lparr>shards := (shards C)[i := putEntry (e\<lparr>e_hits := e_hits e + 1\<rparr>) (shards C ! i)]\<rparr>)"
proof -
  have il: "i < length (shards C)" using shardFor_less [OF ok] i by simp
  note l = cache_locked [OF ok il]
  note sd = shard_invD [OF locked_invD(2) [OF l]]
  have e: "st_get key (sh_storage (shards C ! i)) = Some e" using e i by (simp add: look_def)
  have "cache_ok (C\<lparr>core := core C, shards := (shards C)[i := putEntry (e\<lparr>e_hits := e_hits e + 1\<rparr>) (shards C ! i)]\<rparr>)"
  proof (rule locked_cache [OF ok il])
    show "locked_ok (\<lambda>k. shardFor k C = i) (tagsOf C) (storedEntries C - st_length (sh_storage (shards C ! i)))
        (storedWeight C - weightIn (sh_storage (shards C ! i))) (core C, putEntry (e\<lparr>e_hits := e_hits e + 1\<rparr>) (shards C ! i))"
      by (rule locked_ok_rewrite [OF l, of _ e]) (use e sd(2) [OF e] sd(4) [OF e] in \<open>simp_all add: entry_ok_def\<close>)
  qed simp
  then show ?thesis by simp
qed

lemma Get_ok:
  assumes "cache_ok C"
  shows "cache_ok (snd (Get key C))" "frozen (core (snd (Get key C))) = frozen (core C)"
  using assms getSlow_spec(1) [OF assms, of key] fastHit_ok [OF assms]
  by (auto simp: Get_def Let_def onCore_spec split: option.split)

lemma Get_result:
  assumes "cache_ok C"
  shows "fst (Get key C) =
     (case look C key of
        Some e \<Rightarrow> if \<not> c_closed (core C) \<and> servable (core C) e
          then (returnValue (core C) (e_loadValue (ty_zeroV (c_types (core C))) e), True)
          else (ty_zeroV (c_types (core C)), False)
      | None \<Rightarrow> (ty_zeroV (c_types (core C)), False))"
  using getSlow_spec(2) [OF assms, of key]
  by (auto simp: Get_def Let_def fastPath_def servable_def split: option.split)

section \<open>Expiry operations keep the invariant\<close>

text \<open>The TTLs a cache is configured with, and those its values bring, are at most 36 years.\<close>

definition ttls_ok :: "('k, 'v) settings \<Rightarrow> bool" where
  "ttls_ok st \<longleftrightarrow> cf_defaultTTL (su_cfg st) \<le> ttl_max \<and> cf_negativeTTL (su_cfg st) \<le> ttl_max \<and>
     (\<forall>v fallback. fallback \<le> ttl_max \<longrightarrow> extractCacheableTTL (su_types st) v fallback \<le> ttl_max)"

lemma effectiveTTL_frozen [simp]: "frozen (snd (effectiveTTL ttl c)) = frozen c"
  by (simp add: effectiveTTL_def case_prod_beta Let_def)

lemma effectiveTTL_quiet: "quiet (\<lambda>c. snd (effectiveTTL ttl c))"
  by (simp add: quiet_def effectiveTTL_def case_prod_beta Let_def)

text \<open>Jitter changes a TTL by at most a quarter, so it stays positive and does not overflow.\<close>

lemma effectiveTTL_bounds:
  assumes "ttl \<le> ttl_max"
  shows "fst (effectiveTTL ttl c) \<le> 2 ^ 61" "0 < ttl \<Longrightarrow> 0 < fst (effectiveTTL ttl c)"
proof -
  have "fst (effectiveTTL ttl c) \<le> 2 ^ 61 \<and> 0 < fst (effectiveTTL ttl c)" if pos: "0 < ttl"
  proof -
    define j where "j = resolveJitter c ttl"
    define w where "w = jitterWindow ttl j"
    define draw where "draw = int (fst (drawRand c)) mod (2 * w + 1)"
    have e: "fst (effectiveTTL ttl c) = applyJitter ttl j draw"
      using pos by (simp add: effectiveTTL_def case_prod_beta Let_def j_def w_def draw_def)
    show ?thesis
    proof (cases "w < 0")
      case True
      then have "j \<le> 0" using pos by (auto simp: w_def jitterWindow_def split: if_splits)
      then show ?thesis using pos assms by (simp add: e applyJitter_def ttl_max_def)
    next
      case False
      then have "0 < 2 * w + 1" by simp
      from pos_mod_sign [OF this, of "int (fst (drawRand c))"] pos_mod_bound [OF this, of "int (fst (drawRand c))"]
      have "0 \<le> draw" "draw \<le> 2 * w" unfolding draw_def by linarith+
      then have "3 * ttl \<le> 4 * applyJitter ttl j draw" "4 * applyJitter ttl j draw \<le> 5 * ttl"
        using applyJitter_bounds(2,3) [of ttl draw j] pos assms by (simp_all add: w_def ttl_max_def)
      then show ?thesis using pos assms by (simp add: e ttl_max_def)
    qed
  qed
  then show "fst (effectiveTTL ttl c) \<le> 2 ^ 61" "0 < ttl \<Longrightarrow> 0 < fst (effectiveTTL ttl c)"
    using assms by (cases "0 < ttl"; simp add: effectiveTTL_def)+
qed

lemma refreshExpiryLocked_ok:
  assumes inv: "locked_ok own oth n w (c, s)" and e: "st_get (e_key e) (sh_storage s) = Some e" and t: "ttl \<le> ttl_max"
  shows "locked_ok own oth n w (refreshExpiryLocked e ttl (c, s))"
proof -
  define c' where "c' = (if ttl > 0 then snd (effectiveTTL ttl c) else c)"
  define x where "x = (if ttl > 0 then wrap64 (c_now c + fst (effectiveTTL ttl c)) else 0)"
  have f: "frozen c' = frozen c" by (simp add: c'_def)
  have r: "refreshExpiryLocked e ttl (c, s) =
      (let s = expiryFix (e_key e) (putEntry (e\<lparr>e_expireAt := x, e_lastAccess := c_now c\<rparr>) s)
       in (c', if x > 0 then startJanitorLocked (c', s) else s))"
    unfolding refreshExpiryLocked_def c'_def x_def
    by (simp add: case_prod_beta Let_def frozenD(2) [OF effectiveTTL_frozen])
  have "time_ok x"
    using expiry_time_ok [OF locked_invD(1) [OF inv] effectiveTTL_bounds(1) [OF t, of c]] effectiveTTL_bounds(2) [OF t, of c]
    by (auto simp: x_def time_ok_def split: if_splits)
  then have ok: "entry_ok (e\<lparr>e_expireAt := x, e_lastAccess := c_now c\<rparr>)"
    using shard_invD(4) [OF locked_invD(2) [OF inv] e] by (simp add: entry_ok_def)
  have "locked_ok own oth n w (c', s)"
    using quiet_locked(1) [OF effectiveTTL_quiet inv] inv by (simp add: c'_def)
  from locked_ok_reexpire [OF this _ ok, of e] e
  have l: "locked_ok own oth n w (c', expiryFix (e_key e) (putEntry (e\<lparr>e_expireAt := x, e_lastAccess := c_now c\<rparr>) s))" by simp
  show ?thesis
    using locked_inv_shard [OF l] locked_invD(2) [OF l] l by (simp add: r Let_def)
qed

lemma refreshExpiryLocked_frozen: "frozen (fst (refreshExpiryLocked e ttl (c, s))) = frozen c"
  by (simp add: refreshExpiryLocked_def case_prod_beta Let_def)

lemma freshEntryLocked_Some:
  "freshEntryLocked key (c, s) = Some e \<longleftrightarrow>
     st_get key (sh_storage s) = Some e \<and> \<not> flags_has (e_flags e) flagNegative \<and> \<not> entryExpiredLocked c e"
  by (auto simp: freshEntryLocked_def split: option.splits)

lemma touchWithLocked_keeps:
  assumes "\<And>e. st_get key (sh_storage s) = Some e \<Longrightarrow> entry_ok e \<Longrightarrow> ttlOf e \<le> ttl_max"
  shows "keeps own (touchWithLocked key ttlOf) (c, s)"
proof (rule keepsI)
  fix oth n w assume inv: "locked_ok own oth n w (c, s)"
  note sd = shard_invD [OF locked_invD(2) [OF inv]]
  show "locked_ok own oth n w (snd (touchWithLocked key ttlOf (c, s)))"
  proof (cases "freshEntryLocked key (c, s)")
    case None
    then show ?thesis using inv by (simp add: touchWithLocked_def)
  next
    case (Some e)
    then have e: "st_get key (sh_storage s) = Some e" by (simp add: freshEntryLocked_Some)
    show ?thesis
      using Some refreshExpiryLocked_ok [OF inv, of e "ttlOf e"] assms [OF e sd(4) [OF e]] e sd(2) [OF e]
      by (simp add: touchWithLocked_def)
  qed
next
  show "frozen (fst (snd (touchWithLocked key ttlOf (c, s)))) = frozen c"
    by (simp add: touchWithLocked_def refreshExpiryLocked_frozen split: option.split)
qed

lemma withShard_flush: "(case withShard i f C of (r, C) \<Rightarrow> (r, flushAndUnlock i C)) = (fst (f (core C, shards C ! i)), lockedOp i f C)"
  by (simp add: lockedOp_def withShard_eq)

lemma Touch_ok:
  assumes ok: "cache_ok C" and t: "ttls_ok (c_settings (core C))"
  shows "cache_ok (snd (Touch key C))" "frozen (core (snd (Touch key C))) = frozen (core C)"
proof -
  let ?ttlOf = "\<lambda>e. if flags_has (e_flags e) flagSliding \<and> e_slidingTTL e > 0 then e_slidingTTL e else cf_defaultTTL (c_cfg (core C))"
  have k: "keeps (\<lambda>k. shardFor k C = shardFor key C) (touchWithLocked key ?ttlOf) (core C, shards C ! shardFor key C)"
    using t by (intro touchWithLocked_keeps) (simp add: ttls_ok_def entry_ok_def)
  note o = lockedOp_spec [OF ok shardFor_less [OF ok] k]
  show "cache_ok (snd (Touch key C))" "frozen (core (snd (Touch key C))) = frozen (core C)"
    using ok o(1,2) by (simp_all add: Touch_def Let_def withShard_flush)
qed

lemma TouchWithTTL_ok:
  assumes ok: "cache_ok C" and t: "ttl \<le> ttl_max"
  shows "cache_ok (snd (TouchWithTTL key ttl C))" "frozen (core (snd (TouchWithTTL key ttl C))) = frozen (core C)"
proof -
  have k: "keeps (\<lambda>k. shardFor k C = shardFor key C) (touchWithLocked key (\<lambda>_. ttl)) (core C, shards C ! shardFor key C)"
    using t by (intro touchWithLocked_keeps) simp
  note o = lockedOp_spec [OF ok shardFor_less [OF ok] k]
  show "cache_ok (snd (TouchWithTTL key ttl C))" "frozen (core (snd (TouchWithTTL key ttl C))) = frozen (core C)"
    using ok o(1,2) by (simp_all add: TouchWithTTL_def Let_def withShard_flush)
qed

lemma getWithExpiryLocked_keeps: "keeps own (getWithExpiryLocked key) (c, s)"
proof (rule keepsI)
  fix oth n w assume inv: "locked_ok own oth n w (c, s)"
  show "locked_ok own oth n w (snd (getWithExpiryLocked key (c, s)))"
  proof (cases "st_get key (sh_storage s)")
    case None
    then show ?thesis using quiet_locked(1) [OF _ inv] by (simp add: getWithExpiryLocked_def)
  next
    case (Some e)
    have k: "e_key e = key" using shard_invD(2) [OF locked_invD(2) [OF inv] Some] .
    show ?thesis
    proof (cases "entryExpiredLockedReason c e")
      case None
      have "locked_ok own oth n w (c, snd (touchLocked e (c, s)))" using touchLocked_ok(1) [OF inv] Some k by simp
      from quiet_locked(1) [OF quiet_simps(1) this] show ?thesis
        using Some None quiet_locked(1) [OF quiet_simps(2) inv]
        by (simp add: getWithExpiryLocked_def case_prod_beta Let_def)
    next
      case r: (Some reason)
      obtain c1 s1 where rm: "removeLocked e reason (c, s) = (c1, s1)" by force
      have "locked_ok own oth n w (c1, s1)" using removeLocked_ok [OF inv, of e reason] Some k rm by simp
      then have "locked_ok own oth n w (count (sc_expirations_update (\<lambda>n. n + 1)) c1, s1)" by simp
      from quiet_locked(1) [OF quiet_simps(2) this] show ?thesis
        using Some r rm by (simp add: getWithExpiryLocked_def Let_def)
    qed
  qed
next
  show "frozen (fst (snd (getWithExpiryLocked key (c, s)))) = frozen c"
    by (simp add: getWithExpiryLocked_def case_prod_beta Let_def split: option.split)
qed

lemma GetWithExpiry_ok:
  assumes ok: "cache_ok C"
  shows "cache_ok (snd (GetWithExpiry key C))" "frozen (core (snd (GetWithExpiry key C))) = frozen (core C)"
  using ok lockedOp_spec(1,2) [OF ok shardFor_less [OF ok] getWithExpiryLocked_keeps]
  by (simp_all add: GetWithExpiry_def Let_def withShard_flush)

lemma GetMulti_loop_ok:
  "cache_ok C \<Longrightarrow> cache_ok (snd (GetMulti_loop ks out C)) \<and> frozen (core (snd (GetMulti_loop ks out C))) = frozen (core C)"
proof (induction ks arbitrary: out C)
  case (Cons k ks)
  obtain v ok C' where g: "Get k C = ((v, ok), C')" by (metis prod.exhaust)
  have "cache_ok C'" "frozen (core C') = frozen (core C)" using Get_ok [OF Cons.prems, of k] g by simp_all
  then show ?case using Cons.IH g by simp
qed simp

lemma ResetStats_ok: "cache_ok C \<Longrightarrow> cache_ok (ResetStats C) \<and> frozen (core (ResetStats C)) = frozen (core C)"
proof -
  have "quiet (count (stampReset t \<circ> sc_reset))" for t
    by (rule quiet_count) (simp_all add: stampReset_def sc_reset_def)
  from onCore_spec(1,2) [OF this] show "cache_ok C \<Longrightarrow> ?thesis" unfolding ResetStats_def by blast
qed

end
