(* ===== verification/Cache_Write.thy ===== *)
theory Cache_Write
  imports Cache_Read
begin

text \<open>
  The writing operations of a cache (cache.go, setoptions.go, tags.go, cache_ctx.go): the \<open>Set\<close> family
  with its per-call options, the conditional writes, the deletions, \<open>Reset\<close>, \<open>Clear\<close> and \<open>Close\<close>,
  \<open>Resize\<close>, the invalidation of tags and the budgets of groups.

  A write checks the limits before it takes the lock, and returns the error of the first one that
  fails; a write that fails leaves every entry alone. An error is \<^const>\<open>Inl\<close>, or \<^const>\<open>Some\<close> for a
  function that returns nothing else. A \<open>context\<close> is the error it ended with, if it ended.
\<close>

section \<open>Groups\<close>

definition countLiveMembers :: "'k list \<Rightarrow> ('k, 'v) cache \<Rightarrow> int" where
  "countLiveMembers members C = int (length (filter (\<lambda>k. look C k \<noteq> None) members))"

fun oldestMember :: "'k list \<Rightarrow> ('k \<times> int) option \<Rightarrow> ('k, 'v) cache \<Rightarrow> ('k \<times> int) option" where
  "oldestMember [] acc C = acc"
| "oldestMember (k # ks) acc C =
     oldestMember ks
       (case look C k of
          None \<Rightarrow> acc
        | Some e \<Rightarrow> (case acc of
                       None \<Rightarrow> Some (k, e_inserted e)
                     | Some (_, oldestTime) \<Rightarrow> if e_inserted e < oldestTime then Some (k, e_inserted e) else acc)) C"

definition findOldestMember :: "'k list \<Rightarrow> ('k, 'v) cache \<Rightarrow> 'k option" where
  "findOldestMember members C = map_option fst (oldestMember members None C)"

text \<open>Removing the entry of a key, if it has one, under a tag.\<close>

definition removeTagged :: "'k \<Rightarrow> ('k, 'v) locked \<Rightarrow> bool \<times> ('k, 'v) locked" where
  "removeTagged key cs =
     (case st_get key (sh_storage (snd cs)) of
        None \<Rightarrow> (False, cs)
      | Some e \<Rightarrow> (True, removeLocked e EvictReasonTag cs))"

definition invalidateKey :: "'k \<Rightarrow> ('k, 'v) cache \<Rightarrow> bool \<times> ('k, 'v) cache" where
  "invalidateKey key C =
     (let i = shardFor key C; (r, C) = withShard i (removeTagged key) C in (r, flushAndUnlock i C))"

text \<open>The loop of \<open>shrinkGroup\<close>: every round removes a live member, so one more than there are is enough
  rounds.\<close>

fun shrinkLoop :: "nat \<Rightarrow> string \<Rightarrow> int \<Rightarrow> ('k, 'v) cache \<Rightarrow> ('k, 'v) cache" where
  "shrinkLoop 0 tag capacity C = C"
| "shrinkLoop (Suc fuel) tag capacity C =
     (let members = idx_snapshot tag (tg_index (c_tags (core C)))
      in if countLiveMembers members C \<le> capacity then C
         else case findOldestMember members C of
                None \<Rightarrow> C
              | Some oldestKey \<Rightarrow> shrinkLoop fuel tag capacity (snd (invalidateKey oldestKey C)))"

definition shrinkGroup :: "string \<Rightarrow> int \<Rightarrow> ('k, 'v) cache \<Rightarrow> ('k, 'v) cache" where
  "shrinkGroup tag capacity C = shrinkLoop (Suc (nat (storedEntries C))) tag capacity C"

definition enforceGroupBudgets :: "string list \<Rightarrow> ('k, 'v) cache \<Rightarrow> ('k, 'v) cache" where
  "enforceGroupBudgets tags C =
     (if cf_groups (c_cfg (core C)) = [] \<or> tags = [] then C
      else fold (\<lambda>tag C. case map_of (cf_groups (c_cfg (core C))) tag of None \<Rightarrow> C | Some capacity \<Rightarrow> shrinkGroup tag capacity C)
             tags C)"

definition settleGroups :: "string list \<Rightarrow> ('k, 'v) cache \<Rightarrow> ('k, 'v) cache" where
  "settleGroups tags C = (if cf_groups (c_cfg (core C)) = [] \<or> tags = [] then C else enforceGroupBudgets tags C)"

section \<open>Set\<close>

text \<open>\<open>upsertLocked\<close> with the TTL jittered, as every caller but one calls it.\<close>

definition upsertTTL :: "'k \<Rightarrow> 'v \<Rightarrow> int \<Rightarrow> int \<Rightarrow> bool \<Rightarrow> string list \<Rightarrow> ('k, 'v) locked \<Rightarrow> ('k, 'v) locked" where
  "upsertTTL key v weight ttl sliding tags cs =
     (case cs of (c, s) \<Rightarrow> let (eff, c) = effectiveTTL ttl c in upsertLocked key v weight eff sliding ttl tags (c, s))"

text \<open>The checks of \<open>setLockedInto\<close>; the weight when they pass.\<close>

definition checkSet :: "'k \<Rightarrow> 'v \<Rightarrow> string list \<Rightarrow> ('k, 'v) core \<Rightarrow> 'k error + int" where
  "checkSet key v tags c =
     (if c_closed c then Inl ErrClosed
      else case checkKeySize c key of
             Some err \<Rightarrow> Inl err
           | None \<Rightarrow>
               bind_err (computeWeight c key v) (\<lambda>weight.
                 case checkTagLimits (c_cfg c) (tg_index (c_tags c)) key tags of Some err \<Rightarrow> Inl err | None \<Rightarrow> Inr weight))"

definition setLockedInto :: "'k \<Rightarrow> 'v \<Rightarrow> int \<Rightarrow> bool \<Rightarrow> string list \<Rightarrow> ('k, 'v) cache \<Rightarrow> 'k error option \<times> ('k, 'v) cache" where
  "setLockedInto key v ttl sliding tags C =
     (case checkSet key v tags (core C) of
        Inl err \<Rightarrow> (Some err, C)
      | Inr weight \<Rightarrow> (None, snd (withShard (shardFor key C) (\<lambda>cs. ((), upsertTTL key v weight ttl sliding tags cs)) C)))"

text \<open>The callbacks collected by \<open>releaseShardInto\<close> are those of the shard.\<close>

definition setAndStore :: "'k \<Rightarrow> 'v \<Rightarrow> int \<Rightarrow> bool \<Rightarrow> string list \<Rightarrow> ('k, 'v) cache \<Rightarrow> 'k error option \<times> ('k, 'v) cache" where
  "setAndStore key v ttl sliding tags C =
     (case setLockedInto key v ttl sliding tags C of
        (Some err, C) \<Rightarrow> (Some err, snd (shedOverBudget EvictReasonCapacity (Some (shardFor key C)) C))
      | (None, C) \<Rightarrow> (None, flushAndUnlock (shardFor key C) C))"

definition setTTLCtx :: "'k \<Rightarrow> 'v \<Rightarrow> int \<Rightarrow> ('k, 'v) cache \<Rightarrow> 'k error option \<times> ('k, 'v) cache" where
  "setTTLCtx key v ttl C =
     (let tags = autoTags (core C) v
      in case setAndStore key v ttl (cf_slidingTTL (c_cfg (core C))) tags C of
           (Some err, C) \<Rightarrow> (Some err, C)
         | (None, C) \<Rightarrow> (None, settleGroups tags C))"

definition Set :: "'k \<Rightarrow> 'v \<Rightarrow> ('k, 'v) cache \<Rightarrow> 'k error option \<times> ('k, 'v) cache" where
  "Set key v C = setTTLCtx key v (valueTTL (core C) v (cf_defaultTTL (c_cfg (core C)))) C"

definition SetWithTTL :: "'k \<Rightarrow> 'v \<Rightarrow> int \<Rightarrow> ('k, 'v) cache \<Rightarrow> 'k error option \<times> ('k, 'v) cache" where
  "SetWithTTL key v ttl C = (if ttl < 0 then (Some ErrInvalidTTL, C) else setTTLCtx key v ttl C)"

fun SetMulti_loop :: "('k \<times> 'v) list \<Rightarrow> ('k, 'v) cache \<Rightarrow> 'k error option \<times> ('k, 'v) cache" where
  "SetMulti_loop [] C = (None, C)"
| "SetMulti_loop ((k, v) # items) C =
     (case Set k v C of (Some err, C) \<Rightarrow> (Some err, C) | (None, C) \<Rightarrow> SetMulti_loop items C)"

definition SetMulti :: "('k \<times> 'v) list \<Rightarrow> ('k, 'v) cache \<Rightarrow> 'k error option \<times> ('k, 'v) cache" where
  "SetMulti items C = (if c_closed (core C) then (Some ErrClosed, C) else SetMulti_loop items C)"

section \<open>Set with options\<close>

text \<open>\<open>guard\<close> is the result the guard function gives when it is called, \<^const>\<open>None\<close> without one; the
  zero time is \<^const>\<open>None\<close>.\<close>

record setConfig =
  sc_ttl :: int
  sc_weight :: int
  sc_tags :: "string list"
  sc_expireAt :: "int option"
  sc_sliding :: bool
  sc_hasTTL :: bool
  sc_hasWeight :: bool
  sc_hasExpiry :: bool
  sc_hasTags :: bool
  sc_guard :: "bool option"

definition defaultSetConfig :: "('k, 'v) config \<Rightarrow> setConfig" where
  "defaultSetConfig cfg =
     \<lparr>sc_ttl = cf_defaultTTL cfg, sc_weight = 0, sc_tags = [], sc_expireAt = None, sc_sliding = cf_slidingTTL cfg,
      sc_hasTTL = False, sc_hasWeight = False, sc_hasExpiry = False, sc_hasTags = False, sc_guard = None\<rparr>"

type_synonym setOption = "setConfig \<Rightarrow> setConfig"

definition setGuard :: "bool \<Rightarrow> setOption" where
  "setGuard b sc = sc\<lparr>sc_guard := Some b\<rparr>"

definition SetTTL :: "int \<Rightarrow> setOption" where
  "SetTTL ttl sc = sc\<lparr>sc_ttl := ttl, sc_hasTTL := True\<rparr>"

definition SetWeight :: "int \<Rightarrow> setOption" where
  "SetWeight w sc = sc\<lparr>sc_weight := w, sc_hasWeight := True\<rparr>"

definition SetTags :: "string list \<Rightarrow> setOption" where
  "SetTags tags sc = sc\<lparr>sc_tags := tags, sc_hasTags := True\<rparr>"

definition SetSliding :: "bool \<Rightarrow> setOption" where
  "SetSliding b sc = sc\<lparr>sc_sliding := b\<rparr>"

definition SetExpireAt :: "int option \<Rightarrow> setOption" where
  "SetExpireAt t sc = sc\<lparr>sc_expireAt := t, sc_hasExpiry := True\<rparr>"

definition explicitWeight :: "('k, 'v) core \<Rightarrow> 'k \<Rightarrow> setConfig \<Rightarrow> 'k error + int" where
  "explicitWeight c key sc =
     (let weight = clampWeight (sc_weight sc)
      in if cf_maxValueWeight (c_cfg c) > 0 \<and> weight > cf_maxValueWeight (c_cfg c)
         then Inl (CapacityError (Some key) ''explicit weight exceeds MaxValueWeight'' ''MaxValueWeight'' (Some ErrValueTooLarge))
         else Inr weight)"

definition applySetOptions :: "setOption option list \<Rightarrow> ('k, 'v) config \<Rightarrow> setConfig" where
  "applySetOptions opts cfg = fold (\<lambda>opt sc. case opt of None \<Rightarrow> sc | Some f \<Rightarrow> f sc) opts (defaultSetConfig cfg)"

text \<open>The options applied and the limits checked; the resolved options and the weight when they pass.\<close>

definition checkSetOptions :: "'k \<Rightarrow> 'v \<Rightarrow> setOption option list \<Rightarrow> ('k, 'v) core \<Rightarrow> 'k error + setConfig \<times> int" where
  "checkSetOptions key v opts c =
     (let sc = applySetOptions opts (c_cfg c)
      in if sc_hasTTL sc \<and> sc_ttl sc < 0 then Inl ErrInvalidTTL
         else case checkKeySize c key of
                Some err \<Rightarrow> Inl err
              | None \<Rightarrow>
                  let sc = (if sc_hasTags sc then sc else sc\<lparr>sc_tags := autoTags c v\<rparr>)
                  in case checkTagLimits (c_cfg c) (tg_index (c_tags c)) key (sc_tags sc) of
                       Some err \<Rightarrow> Inl err
                     | None \<Rightarrow> bind_err (if sc_hasWeight sc then explicitWeight c key sc else computeWeight c key v)
                                 (\<lambda>weight. Inr (sc, weight)))"

text \<open>\<open>upsertWithAbsoluteExpiryLocked\<close>: the entry changed, and the new entry.\<close>

definition upsertAbsoluteExisting :: "'v \<Rightarrow> int \<Rightarrow> int \<Rightarrow> string list \<Rightarrow> ('k, 'v) entry \<Rightarrow> ('k, 'v) locked \<Rightarrow> ('k, 'v) locked" where
  "upsertAbsoluteExisting v weight expireAt tags existing cs =
     (case cs of (c, s) \<Rightarrow>
        let key = e_key existing;
            c = count (addBytes (- e_weight existing + weight)) c;
            e = (e_storeValue v existing)\<lparr>e_weight := weight, e_expireAt := expireAt, e_lastAccess := c_now c, e_hits := 0\<rparr>;
            e = e\<lparr>e_flags := flags_clear (e_flags e) (flagSliding OR flagNegative), e_slidingTTL := 0, e_tags := tags\<rparr>;
            s = putEntry e s;
            c = c\<lparr>c_tags := (c_tags c)\<lparr>tg_index := retag key (e_tags existing) tags (tg_index (c_tags c))\<rparr>\<rparr>;
            s = expiryFix key s;
            s = s\<lparr>sh_policy := pol_onUpdate key (sh_policy s)\<rparr>;
            c = count_if (cf_statsEnabled (c_cfg c)) (sc_updates_update (\<lambda>n. n + 1)) c
        in (c, if expireAt > 0 then startJanitorLocked (c, s) else s))"

definition upsertWithAbsoluteExpiryLocked :: "'k \<Rightarrow> 'v \<Rightarrow> int \<Rightarrow> setConfig \<Rightarrow> ('k, 'v) locked \<Rightarrow> ('k, 'v) locked" where
  "upsertWithAbsoluteExpiryLocked key v weight sc cs =
     (case cs of (c, s) \<Rightarrow>
        let expireAt = (case sc_expireAt sc of None \<Rightarrow> 0 | Some t \<Rightarrow> t);
            s = s\<lparr>sh_flights := supersedeFlight key (sh_flights s)\<rparr>
        in if c_sealed c then (c, s)
           else case st_get key (sh_storage s) of
                  Some existing \<Rightarrow> upsertAbsoluteExisting v weight expireAt (sc_tags sc) existing (c, s)
                | None \<Rightarrow>
                    evictWhileOverBudgetLocked
                      (insertEntry (freshEntry c key v weight expireAt False 0 (sc_tags sc)) (c, s)))"

definition setOptionsLocked :: "'k \<Rightarrow> 'v \<Rightarrow> int \<Rightarrow> setConfig \<Rightarrow> ('k, 'v) locked \<Rightarrow> 'k error option \<times> ('k, 'v) locked" where
  "setOptionsLocked key v weight sc cs =
     (if sc_guard sc = Some False then (Some errWriteSuperseded, cs)
      else (None, if sc_hasExpiry sc then upsertWithAbsoluteExpiryLocked key v weight sc cs
                  else upsertTTL key v weight (sc_ttl sc) (sc_sliding sc) (sc_tags sc) cs))"

definition SetWithOptions :: "'k \<Rightarrow> 'v \<Rightarrow> setOption option list \<Rightarrow> ('k, 'v) cache \<Rightarrow> 'k error option \<times> ('k, 'v) cache" where
  "SetWithOptions key v opts C =
     (if c_closed (core C) then (Some ErrClosed, C)
      else case checkSetOptions key v opts (core C) of
             Inl err \<Rightarrow> (Some err, C)
           | Inr (sc, weight) \<Rightarrow>
               let i = shardFor key C;
                   (err, C) = withShard i (setOptionsLocked key v weight sc) C;
                   C = flushAndUnlock i C
               in if err = None then (None, settleGroups (sc_tags sc) C) else (err, C))"

definition SetWithTags :: "'k \<Rightarrow> 'v \<Rightarrow> string list \<Rightarrow> ('k, 'v) cache \<Rightarrow> 'k error option \<times> ('k, 'v) cache" where
  "SetWithTags key v tags C = SetWithOptions key v [Some (SetTags tags)] C"

section \<open>Conditional writes\<close>

text \<open>Without a \<open>Store\<close>, the current value of a key is that of its fresh entry.\<close>

definition upsertDefault :: "'k \<Rightarrow> 'v \<Rightarrow> int \<Rightarrow> string list \<Rightarrow> ('k, 'v) locked \<Rightarrow> ('k, 'v) locked" where
  "upsertDefault key v weight tags cs =
     upsertTTL key v weight (cf_defaultTTL (c_cfg (fst cs))) (cf_slidingTTL (c_cfg (fst cs))) tags cs"

definition condSet :: "bool \<Rightarrow> 'k \<Rightarrow> 'v \<Rightarrow> ('k, 'v) cache \<Rightarrow> ('k error + bool) \<times> ('k, 'v) cache" where
  "condSet present key v C =
     (let tags = autoTags (core C) v
      in case checkSet key v tags (core C) of
           Inl err \<Rightarrow> (Inl err, C)
         | Inr weight \<Rightarrow>
             let i = shardFor key C;
                 (r, C) = withShard i (\<lambda>cs. if (freshEntryLocked key cs \<noteq> None) \<noteq> present then (False, cs)
                                             else (True, upsertDefault key v weight tags cs)) C
             in (Inr r, flushAndUnlock i C))"

definition SetIfAbsent :: "'k \<Rightarrow> 'v \<Rightarrow> ('k, 'v) cache \<Rightarrow> ('k error + bool) \<times> ('k, 'v) cache" where
  "SetIfAbsent key v C = condSet False key v C"

definition SetIfPresent :: "'k \<Rightarrow> 'v \<Rightarrow> ('k, 'v) cache \<Rightarrow> ('k error + bool) \<times> ('k, 'v) cache" where
  "SetIfPresent key v C = condSet True key v C"

definition getOrSetLocked :: "bool \<Rightarrow> 'k \<Rightarrow> 'v \<Rightarrow> int \<Rightarrow> string list \<Rightarrow> ('k, 'v) locked \<Rightarrow> ('v \<times> bool) \<times> ('k, 'v) locked" where
  "getOrSetLocked promote key v weight tags cs =
     (case freshEntryLocked key cs of
        Some e \<Rightarrow>
          (case cs of (c, s) \<Rightarrow>
             let current = e_loadValue (ty_zeroV (c_types c)) e
             in if promote
                then ((returnValue c current, True), (recordHit c, snd (touchLocked e (c, s))))
                else ((returnValue c current, True), (c, s)))
      | None \<Rightarrow> ((v, False), upsertDefault key v weight tags cs))"

definition getOrAdd :: "bool \<Rightarrow> 'k \<Rightarrow> 'v \<Rightarrow> ('k, 'v) cache \<Rightarrow> ('k error + 'v \<times> bool) \<times> ('k, 'v) cache" where
  "getOrAdd promote key v C =
     (let tags = autoTags (core C) v
      in case checkSet key v tags (core C) of
           Inl err \<Rightarrow> (Inl err, C)
         | Inr weight \<Rightarrow>
             let i = shardFor key C; (r, C) = withShard i (getOrSetLocked promote key v weight tags) C
             in (Inr r, flushAndUnlock i C))"

definition GetOrSet :: "'k \<Rightarrow> 'v \<Rightarrow> ('k, 'v) cache \<Rightarrow> ('k error + 'v \<times> bool) \<times> ('k, 'v) cache" where
  "GetOrSet key v C = getOrAdd True key v C"

definition PeekOrAdd :: "'k \<Rightarrow> 'v \<Rightarrow> ('k, 'v) cache \<Rightarrow> ('k error + 'v \<times> bool) \<times> ('k, 'v) cache" where
  "PeekOrAdd key v C = getOrAdd False key v C"

section \<open>Removals\<close>

lemma lockedOp_shrinks:
  assumes ok: "cache_ok C" and i: "i < length (shards C)" and k: "keeps (\<lambda>k. shardFor k C = i) f (core C, shards C ! i)"
    and s: "shrunk (shards C ! i) (snd (snd (f (core C, shards C ! i))))"
  shows "cshrunk C (lockedOp i f C)"
proof -
  have "cshrunk C (snd (withShard i f C))"
    using withShard_ok(2,3) [OF ok i k] s i by (auto simp: cshrunk_def withShard_eq nth_list_update)
  then show ?thesis using lockedOp_spec(6) [OF ok i k] by (rule cshrunk_trans)
qed

lemma removeTagged_keeps: "keeps own (removeTagged key) (c, s)"
proof (rule keepsI)
  fix oth n w assume inv: "locked_ok own oth n w (c, s)"
  show "locked_ok own oth n w (snd (removeTagged key (c, s)))"
  proof (cases "st_get key (sh_storage s)")
    case (Some e)
    then show ?thesis
      using removeLocked_ok [OF inv, of e] shard_invD(2) [OF locked_invD(2) [OF inv] Some] by (simp add: removeTagged_def)
  qed (use inv in \<open>simp add: removeTagged_def\<close>)
qed (simp add: removeTagged_def split: option.split)

lemma removeTagged_storage:
  assumes "shard_ok own s"
  shows "shrunk s (snd (snd (removeTagged key (c, s))))" "st_get key (sh_storage (snd (snd (removeTagged key (c, s))))) = None"
proof -
  note sd = shard_invD [OF assms]
  show "shrunk s (snd (snd (removeTagged key (c, s))))"
    using removeLocked_shrunk [OF sd(1)] by (simp add: removeTagged_def split: option.split)
  show "st_get key (sh_storage (snd (snd (removeTagged key (c, s))))) = None"
    using sd(1,2) by (auto simp: removeTagged_def removeLocked_shard(1) st.get_del split: option.split)
qed

lemma invalidateKey_eq: "invalidateKey key C = (look C key \<noteq> None, lockedOp (shardFor key C) (removeTagged key) C)"
  by (simp add: invalidateKey_def Let_def withShard_flush look_def removeTagged_def split: option.split)

lemma cshrunk_none: "cshrunk C C' \<Longrightarrow> cache_ok C \<Longrightarrow> look C k = None \<Longrightarrow> look C' k = None"
  using cshrunk_look [of C C' k] by auto

lemma invalidateKey_spec:
  assumes ok: "cache_ok C"
  shows "cache_ok (snd (invalidateKey key C))" "cshrunk C (snd (invalidateKey key C))"
    "look (snd (invalidateKey key C)) key = None" "\<not> overBudget (core (snd (invalidateKey key C)))"
proof -
  let ?i = "shardFor key C"
  have il: "?i < length (shards C)" by (rule shardFor_less [OF ok])
  note l = shard_invD(1) locked_invD(2) [OF cache_locked [OF ok il]]
  note o = lockedOp_spec [OF ok il removeTagged_keeps [of _ key]]
  note st = removeTagged_storage [OF l(2), of key "core C"]
  show "cache_ok (snd (invalidateKey key C))" "\<not> overBudget (core (snd (invalidateKey key C)))"
    using o by (simp_all add: invalidateKey_eq)
  show "cshrunk C (snd (invalidateKey key C))"
    using lockedOp_shrinks [OF ok il removeTagged_keeps st(1)] by (simp add: invalidateKey_eq)
  show "look (snd (invalidateKey key C)) key = None"
    using look_lockedOp [OF ok refl removeTagged_keeps, of key key key] st(2) by (auto simp: invalidateKey_eq)
qed

lemma shrinkLoop_spec:
  "cache_ok C \<Longrightarrow> cache_ok (shrinkLoop fuel tag cap C) \<and> cshrunk C (shrinkLoop fuel tag cap C) \<and>
    (\<not> overBudget (core C) \<longrightarrow> \<not> overBudget (core (shrinkLoop fuel tag cap C)))"
proof (induction fuel arbitrary: C)
  case (Suc fuel)
  show ?case
    using Suc.prems invalidateKey_spec [OF Suc.prems] Suc.IH cshrunk_trans
    by (auto simp: Let_def split: option.split) blast+
qed simp

lemma settleGroups_spec:
  assumes "cache_ok C"
  shows "cache_ok (settleGroups tags C) \<and> cshrunk C (settleGroups tags C) \<and>
    (\<not> overBudget (core C) \<longrightarrow> \<not> overBudget (core (settleGroups tags C)))"
proof -
  let ?f = "\<lambda>tag C. case map_of (cf_groups (c_cfg (core C))) tag of None \<Rightarrow> C | Some capacity \<Rightarrow> shrinkGroup tag capacity C"
  have one: "cache_ok (?f t C) \<and> cshrunk C (?f t C) \<and> (\<not> overBudget (core C) \<longrightarrow> \<not> overBudget (core (?f t C)))"
    if "cache_ok C" for t and C :: "('a, 'b) cache"
    using that shrinkLoop_spec [OF that, of "Suc (nat (storedEntries C))" t] by (simp add: shrinkGroup_def split: option.split)
  have "cache_ok (fold ?f tags C) \<and> cshrunk C (fold ?f tags C) \<and> (\<not> overBudget (core C) \<longrightarrow> \<not> overBudget (core (fold ?f tags C)))"
    using assms
  proof (induction tags arbitrary: C)
    case (Cons t tags)
    show ?case using one [OF Cons.prems, of t] Cons.IH [of "?f t C"] cshrunk_trans [of C "?f t C"] by simp
  qed simp
  then show ?thesis using assms by (simp add: settleGroups_def enforceGroupBudgets_def)
qed

section \<open>Writes keep the invariant\<close>

lemma computeWeight_range: "computeWeight c key v = Inr weight \<Longrightarrow> 1 \<le> weight \<and> weight \<le> maxEntryWeight"
  using clampWeight_range by (auto simp: computeWeight_def weighOf_def Let_def split: if_splits)

lemma checkSet_weight: "checkSet key v tags c = Inr weight \<Longrightarrow> \<not> c_closed c \<and> 1 \<le> weight \<and> weight \<le> maxEntryWeight"
  using computeWeight_range [of c key v] by (auto simp: checkSet_def bind_err_Inr split: if_splits option.splits)

lemma upsertTTL_spec:
  assumes inv: "locked_ok own oth n w (c, s)" and own: "own key"
    and a: "1 \<le> weight" "weight \<le> maxEntryWeight" "ttl \<le> ttl_max"
    and r: "upsertTTL key v weight ttl sliding tags (c, s) = (c', s')"
  shows "locked_ok own oth n w (c', s') \<and> frozen c' = frozen c \<and> (\<not> c_sealed c \<longrightarrow> upserted key v s s')"
proof -
  obtain eff c1 where e: "effectiveTTL ttl c = (eff, c1)" by force
  have f: "frozen c1 = frozen c" "eff \<le> 2 ^ 61"
    using effectiveTTL_frozen [of ttl c] effectiveTTL_bounds(1) [OF a(3), of c] e by simp_all
  have l: "locked_ok own oth n w (c1, s)" using quiet_locked(1) [OF effectiveTTL_quiet inv, of ttl] e by simp
  have "upsertLocked key v weight eff sliding ttl tags (c1, s) = (c', s')" using r e by (simp add: upsertTTL_def)
  from upsertLocked_spec [OF l own a(1,2) f(2) a(3) this] show ?thesis using frozenD(3) [OF f(1)] f(1) by simp
qed

lemma upsertTTL_keeps:
  assumes own: "own key" and a: "1 \<le> weight" "weight \<le> maxEntryWeight" "ttl \<le> ttl_max"
    and ex: "locked_ok own oth n w (c, s)"
  shows "keeps own (\<lambda>cs. (r cs, upsertTTL key v weight ttl sliding tags cs)) (c, s)"
proof -
  obtain c' s' where u: "upsertTTL key v weight ttl sliding tags (c, s) = (c', s')" by force
  show ?thesis using upsertTTL_spec [where own = own, OF _ own a u] ex u by (auto simp: keeps_def)
qed

text \<open>The entries after a write of \<open>v\<close> to \<open>key\<close>: the key has the new value or no entry, every other key
  its old entry or none.\<close>

definition wrote :: "'k \<Rightarrow> 'v \<Rightarrow> ('k, 'v) cache \<Rightarrow> ('k, 'v) cache \<Rightarrow> bool" where
  "wrote key v C C' \<longleftrightarrow>
     (\<forall>k. k \<noteq> key \<longrightarrow> look C' k = look C k \<or> look C' k = None) \<and>
     (\<forall>e. look C' key = Some e \<longrightarrow> e_value e = Some v \<and> \<not> flags_has (e_flags e) flagNegative)"

lemma wrote_cshrunk: "wrote key v C C1 \<Longrightarrow> cshrunk C1 C2 \<Longrightarrow> cache_ok C1 \<Longrightarrow> wrote key v C C2"
  unfolding wrote_def using cshrunk_look [of C1 C2] by (metis option.distinct(1))

lemma lockedOp_wrote:
  assumes ok: "cache_ok C" and i: "i = shardFor key C" and k: "keeps (\<lambda>k. shardFor k C = i) f (core C, shards C ! i)"
    and u: "upserted key v (shards C ! i) (snd (snd (f (core C, shards C ! i))))"
  shows "wrote key v C (lockedOp i f C)"
  unfolding wrote_def
proof (intro conjI allI impI)
  fix j assume "j \<noteq> key"
  then have "shardFor j C = i \<Longrightarrow> st_get j (sh_storage (snd (snd (f (core C, shards C ! i))))) = look C j \<or>
      st_get j (sh_storage (snd (snd (f (core C, shards C ! i))))) = None"
    using u by (simp add: upserted_def look_def)
  then show "look (lockedOp i f C) j = look C j \<or> look (lockedOp i f C) j = None"
    using look_lockedOp [OF ok i k, of j] by (cases "shardFor j C = i") auto
next
  fix e assume "look (lockedOp i f C) key = Some e"
  then show "e_value e = Some v" "\<not> flags_has (e_flags e) flagNegative"
    using look_lockedOp [OF ok i k, of key] u i by (auto simp: upserted_def)
qed

lemma shed_spec:
  assumes "cache_ok C" and "i < length (shards C)"
  shows "cache_ok (snd (shedOverBudget r (Some i) C))" "cshrunk C (snd (shedOverBudget r (Some i) C))"
    "\<not> overBudget (core (snd (shedOverBudget r (Some i) C)))"
  using shedLoop_spec [OF assms(1), of "Some i" "Suc (nat (storedEntries C))" r] assms(2)
  by (simp_all add: shedOverBudget_def valid_last_def)

text \<open>A write through \<open>setTTLCtx\<close>, with its outcome.\<close>

lemma setAndStore_spec:
  assumes ok: "cache_ok C" and t: "ttl \<le> ttl_max" and r: "setAndStore key v ttl sliding tags C = (err, C')"
  shows "cache_ok C' \<and> frozen (core C') = frozen (core C) \<and> \<not> overBudget (core C') \<and>
    (err = None \<longrightarrow> \<not> c_closed (core C) \<and> (\<not> c_sealed (core C) \<longrightarrow> wrote key v C C')) \<and> (err \<noteq> None \<longrightarrow> cshrunk C C')"
proof -
  let ?i = "shardFor key C"
  have il: "?i < length (shards C)" by (rule shardFor_less [OF ok])
  show ?thesis
  proof (cases "checkSet key v tags (core C)")
    case (Inl e)
    then have "err = Some e" "C' = snd (shedOverBudget EvictReasonCapacity (Some ?i) C)"
      using r by (simp_all add: setAndStore_def setLockedInto_def)
    then show ?thesis using shed_spec [OF ok il, of EvictReasonCapacity] by (simp add: cshrunk_def)
  next
    case (Inr weight)
    let ?f = "\<lambda>cs. ((), upsertTTL key v weight ttl sliding tags cs)"
    note w = checkSet_weight [OF Inr]
    have k: "keeps (\<lambda>k. shardFor k C = ?i) ?f (core C, shards C ! ?i)"
      using w by (intro upsertTTL_keeps [OF refl _ _ t cache_locked [OF ok il]]) simp_all
    have sf: "shardFor key (snd (withShard ?i ?f C)) = ?i" by (rule withShard_ok(4) [OF ok il k])
    have e: "err = None" "C' = lockedOp ?i ?f C"
      using r Inr sf by (simp_all add: setAndStore_def setLockedInto_def lockedOp_def)
    obtain c1 s1 where u: "upsertTTL key v weight ttl sliding tags (core C, shards C ! ?i) = (c1, s1)" by force
    have up: "\<not> c_sealed (core C) \<longrightarrow> upserted key v (shards C ! ?i) s1"
      using upsertTTL_spec [OF cache_locked [OF ok il] refl _ _ t u] w by simp
    then have "\<not> c_sealed (core C) \<longrightarrow> wrote key v C C'"
      using lockedOp_wrote [OF ok refl k] u e(2) by simp
    then show ?thesis using e lockedOp_spec [OF ok il k] w by simp
  qed
qed

lemma setTTLCtx_spec:
  assumes ok: "cache_ok C" and t: "ttl \<le> ttl_max" and r: "setTTLCtx key v ttl C = (err, C')"
  shows "cache_ok C' \<and> frozen (core C') = frozen (core C) \<and> \<not> overBudget (core C') \<and>
    (err = None \<longrightarrow> \<not> c_closed (core C) \<and> (\<not> c_sealed (core C) \<longrightarrow> wrote key v C C')) \<and> (err \<noteq> None \<longrightarrow> cshrunk C C')"
proof -
  let ?tags = "autoTags (core C) v"
  obtain e C1 where s: "setAndStore key v ttl (cf_slidingTTL (c_cfg (core C))) ?tags C = (e, C1)" by force
  note sp = setAndStore_spec [OF ok t s]
  show ?thesis
  proof (cases e)
    case None
    then have e: "err = None" "C' = settleGroups ?tags C1" using r s by (simp_all add: setTTLCtx_def)
    have g: "cache_ok C'" "cshrunk C1 C'" "\<not> overBudget (core C')" using settleGroups_spec [of C1 ?tags] sp e by auto
    show ?thesis
      using sp None e g wrote_cshrunk [OF _ g(2)] by (auto simp: cshrunk_def)
  next
    case (Some x)
    then have "err = Some x" "C' = C1" using r s by (simp_all add: setTTLCtx_def)
    then show ?thesis using sp Some by simp
  qed
qed

lemma ttls_value: "ttls_ok (c_settings c) \<Longrightarrow> valueTTL c v (cf_defaultTTL (c_cfg c)) \<le> ttl_max"
  by (simp add: ttls_ok_def valueTTL_def)

lemma Set_spec:
  assumes "cache_ok C" and "ttls_ok (c_settings (core C))" and "Set key v C = (err, C')"
  shows "cache_ok C' \<and> frozen (core C') = frozen (core C) \<and> \<not> overBudget (core C') \<and>
    (err = None \<longrightarrow> \<not> c_closed (core C) \<and> (\<not> c_sealed (core C) \<longrightarrow> wrote key v C C')) \<and> (err \<noteq> None \<longrightarrow> cshrunk C C')"
  using setTTLCtx_spec [OF assms(1) ttls_value [OF assms(2)]] assms(3) by (simp add: Set_def)

lemma SetWithTTL_ok:
  assumes "cache_ok C" and "ttl \<le> ttl_max"
  shows "cache_ok (snd (SetWithTTL key v ttl C)) \<and> frozen (core (snd (SetWithTTL key v ttl C))) = frozen (core C)"
  using setTTLCtx_spec [OF assms, of key v "fst (setTTLCtx key v ttl C)" "snd (setTTLCtx key v ttl C)"] assms(1)
  by (simp add: SetWithTTL_def)

lemma SetMulti_ok:
  assumes "cache_ok C" and "ttls_ok (c_settings (core C))"
  shows "cache_ok (snd (SetMulti items C)) \<and> frozen (core (snd (SetMulti items C))) = frozen (core C)"
proof -
  have "cache_ok (snd (SetMulti_loop items C)) \<and> frozen (core (snd (SetMulti_loop items C))) = frozen (core C)"
    using assms
  proof (induction items arbitrary: C)
    case (Cons kv items)
    obtain k v where kv: "kv = (k, v)" by force
    obtain err C1 where s: "Set k v C = (err, C1)" by force
    note sp = Set_spec [OF Cons.prems s]
    have "ttls_ok (c_settings (core C1))" using sp Cons.prems(2) frozenD(1) [of "core C1" "core C"] by simp
    then show ?case using sp Cons.IH [of C1] by (cases err) (simp_all add: kv s)
  qed simp
  then show ?thesis using assms(1) by (simp add: SetMulti_def)
qed

lemma upsertAbsoluteExisting_fields:
  "sh_storage (snd (upsertAbsoluteExisting v weight x tags e0 (c, s))) =
     st_set (e_key e0) ((e_storeValue v e0)\<lparr>e_weight := weight, e_expireAt := x, e_lastAccess := c_now c, e_hits := 0,
       e_flags := flags_clear (e_flags e0) (flagSliding OR flagNegative), e_slidingTTL := 0, e_tags := tags\<rparr>) (sh_storage s)"
  "frozen (fst (upsertAbsoluteExisting v weight x tags e0 (c, s))) = frozen c"
  by (simp_all add: upsertAbsoluteExisting_def Let_def putEntry_def expiryFix_def e_storeValue_def)

lemma upsertAbsoluteExisting_ok:
  assumes inv: "locked_ok own oth n w (c, s)" and old: "st_get (e_key e0) (sh_storage s) = Some e0"
    and a: "args_ok weight x 0"
  shows "locked_ok own oth n w (upsertAbsoluteExisting v weight x tags e0 (c, s))"
proof -
  define e where "e = (e_storeValue v e0)\<lparr>e_weight := weight, e_expireAt := x, e_lastAccess := c_now c, e_hits := 0,
    e_flags := flags_clear (e_flags e0) (flagSliding OR flagNegative), e_slidingTTL := 0, e_tags := tags\<rparr>"
  have e: "e_key e = e_key e0" "e_weight e = weight" "e_tags e = tags" "entry_ok e"
    using a by (simp_all add: e_def e_storeValue_def entry_ok_def args_ok_def ttl_max_def)
  have old: "st_get (e_key e) (sh_storage s) = Some e0" using old e(1) by simp
  define cs where "cs = upsertAbsoluteExisting v weight x tags e0 (c, s)"
  have st: "sh_storage (snd cs) = st_set (e_key e) e (sh_storage s)"
    unfolding cs_def upsertAbsoluteExisting_fields e(1) by (simp add: e_def)
  have "shard_ok own (snd cs)"
    using shard_ok_update [OF locked_invD(2) [OF inv] old e(4)]
    by (simp add: cs_def upsertAbsoluteExisting_def Let_def e_def e_storeValue_def putEntry_def expiryFix_def)
  moreover have "sc_entries (c_counters (fst cs)) = sc_entries (c_counters c)"
    "sc_bytes (c_counters (fst cs)) = wrap64 (sc_bytes (c_counters c) + (e_weight e - e_weight e0))"
    "c_tags (fst cs) = (c_tags c)\<lparr>tg_index := retag (e_key e) (e_tags e0) (e_tags e) (tg_index (c_tags c))\<rparr>"
    "c_now (fst cs) = c_now c" "eb_ok (c_events c) \<Longrightarrow> eb_ok (c_events (fst cs))"
    by (simp_all add: cs_def upsertAbsoluteExisting_def Let_def e)
  ultimately have "locked_ok own oth n w (fst cs, snd cs)" by (rule locked_ok_update [OF inv old st])
  then show ?thesis by (simp add: cs_def)
qed

lemma upsertWithAbsoluteExpiryLocked_spec:
  assumes inv: "locked_ok own oth n w (c, s)" and own: "own key"
    and a: "1 \<le> weight" "weight \<le> maxEntryWeight" "time_ok (case sc_expireAt sc of None \<Rightarrow> 0 | Some t \<Rightarrow> t)"
    and r: "upsertWithAbsoluteExpiryLocked key v weight sc (c, s) = (c', s')"
  shows "locked_ok own oth n w (c', s') \<and> frozen c' = frozen c \<and> (\<not> c_sealed c \<longrightarrow> upserted key v s s')"
proof -
  define x where "x = (case sc_expireAt sc of None \<Rightarrow> 0 | Some t \<Rightarrow> t)"
  define s1 where "s1 = s\<lparr>sh_flights := supersedeFlight key (sh_flights s)\<rparr>"
  note d = locked_invD [OF inv]
  note sd = shard_invD [OF d(2)]
  have args: "args_ok weight x 0" using a by (simp add: args_ok_def x_def ttl_max_def)
  have s1: "locked_ok own oth n w (c, s1)" "sh_storage s1 = sh_storage s"
    using locked_ok_flights [OF inv fl_ok_supersede [OF sd(9)]] by (simp_all add: s1_def)
  note r = r [unfolded upsertWithAbsoluteExpiryLocked_def prod.case x_def [symmetric] s1_def [symmetric] Let_def s1(2)]
  show ?thesis
  proof (cases "c_sealed c")
    case True
    then show ?thesis using r s1 by simp
  next
    case open_cache: False
    show ?thesis
    proof (cases "st_get key (sh_storage s)")
      case (Some e0)
      have k: "e_key e0 = key" using sd(2) [OF Some] .
      have u: "upsertAbsoluteExisting v weight x (sc_tags sc) e0 (c, s1) = (c', s')" using r open_cache Some by simp
      have "locked_ok own oth n w (c', s')" using upsertAbsoluteExisting_ok [OF s1(1) _ args, of e0 v "sc_tags sc"] k Some s1(2) u by simp
      then show ?thesis
        using upsertAbsoluteExisting_fields [of v weight x "sc_tags sc" e0 c s1] k s1(2) u
        by (auto simp: upserted_def st.get_set [OF sd(1)] e_storeValue_def)
    next
      case None
      let ?e = "freshEntry c key v weight x False 0 (sc_tags sc)"
      obtain c2 s2 where i: "insertEntry ?e (c, s1) = (c2, s2)" by force
      have l2: "locked_ok own oth n w (c2, s2)"
        using insertEntry_ok [OF s1(1), of ?e] None s1(2) own args i by simp
      have f2: "frozen c2 = frozen c" "sh_storage s2 = st_set key ?e (sh_storage s)"
        using insertEntry_fields [of ?e c s1] i s1(2) by simp_all
      have r: "snd (evictLoop (Suc (nat (st_length (sh_storage s2)))) EvictReasonCapacity 1 (c2, s2)) = (c', s')"
        using r open_cache None i by (simp add: evictWhileOverBudgetLocked_def evictOverBudgetLocked_def del: evictLoop.simps)
      have "shrunk s2 s'" using evictLoop_shrunk [OF l2] r by (metis snd_conv)
      then have "upserted key v s s'"
        by (auto simp: upserted_def shrunk_def f2(2) st.get_set [OF sd(1)])
          (metis freshEntry_fields(2,7) option.inject option.distinct(1))+
      then show ?thesis using evictLoop_ok [OF l2] evictLoop_frozen f2(1) r by (metis fst_conv)
    qed
  qed
qed

text \<open>The TTL and the expiry the options of a call resolve to.\<close>

definition opts_ok :: "setOption option list \<Rightarrow> ('k, 'v) config \<Rightarrow> bool" where
  "opts_ok opts cfg \<longleftrightarrow> sc_ttl (applySetOptions opts cfg) \<le> ttl_max \<and>
     time_ok (case sc_expireAt (applySetOptions opts cfg) of None \<Rightarrow> 0 | Some t \<Rightarrow> t)"

lemma checkSetOptions_result:
  assumes "checkSetOptions key v opts c = Inr (sc, weight)" and "opts_ok opts (c_cfg c)"
  shows "1 \<le> weight" "weight \<le> maxEntryWeight" "sc_ttl sc \<le> ttl_max" "time_ok (case sc_expireAt sc of None \<Rightarrow> 0 | Some t \<Rightarrow> t)"
proof -
  have w: "1 \<le> weight \<and> weight \<le> maxEntryWeight" if "(if b then explicitWeight c key sc else computeWeight c key v) = Inr weight" for b sc
    using that computeWeight_range [of c key v] clampWeight_range by (auto simp: explicitWeight_def Let_def split: if_splits)
  obtain b sc0 where "(if b then explicitWeight c key sc0 else computeWeight c key v) = Inr weight"
    and sc: "sc = applySetOptions opts (c_cfg c) \<or> (\<exists>t. sc = (applySetOptions opts (c_cfg c))\<lparr>sc_tags := t\<rparr>)"
    using assms(1) unfolding checkSetOptions_def Let_def
    by (fastforce simp: bind_err_Inr split: if_splits option.splits)
  then show "1 \<le> weight" "weight \<le> maxEntryWeight" using w by blast+
  show "sc_ttl sc \<le> ttl_max" "time_ok (case sc_expireAt sc of None \<Rightarrow> 0 | Some t \<Rightarrow> t)"
    using sc assms(2) by (auto simp: opts_ok_def)
qed

lemma setOptionsLocked_spec:
  assumes "locked_ok own oth n w (c, s)" and "own key" and "1 \<le> weight" and "weight \<le> maxEntryWeight"
    and "sc_ttl sc \<le> ttl_max" and "time_ok (case sc_expireAt sc of None \<Rightarrow> 0 | Some t \<Rightarrow> t)"
    and "setOptionsLocked key v weight sc (c, s) = (err, (c', s'))"
  shows "locked_ok own oth n w (c', s') \<and> frozen c' = frozen c \<and>
    (if err = None then \<not> c_sealed c \<longrightarrow> upserted key v s s' else s' = s)"
proof (cases "sc_guard sc = Some False")
  case True
  then show ?thesis using assms by (auto simp: setOptionsLocked_def)
next
  case False
  show ?thesis
  proof (cases "sc_hasExpiry sc")
    case True
    then have "upsertWithAbsoluteExpiryLocked key v weight sc (c, s) = (c', s')" "err = None"
      using assms(7) False by (simp_all add: setOptionsLocked_def)
    then show ?thesis using upsertWithAbsoluteExpiryLocked_spec [OF assms(1-4,6)] by simp
  next
    case noexp: False
    then have "upsertTTL key v weight (sc_ttl sc) (sc_sliding sc) (sc_tags sc) (c, s) = (c', s')" "err = None"
      using assms(7) False by (simp_all add: setOptionsLocked_def)
    then show ?thesis using upsertTTL_spec [OF assms(1-5)] by simp
  qed
qed

lemma SetWithOptions_spec:
  assumes ok: "cache_ok C" and o: "opts_ok opts (c_cfg (core C))" and r: "SetWithOptions key v opts C = (err, C')"
  shows "cache_ok C' \<and> frozen (core C') = frozen (core C) \<and>
    (err = None \<longrightarrow> \<not> c_closed (core C) \<and> \<not> overBudget (core C') \<and> (\<not> c_sealed (core C) \<longrightarrow> wrote key v C C')) \<and>
    (err \<noteq> None \<longrightarrow> cshrunk C C')"
proof (cases "c_closed (core C) \<or> (\<exists>e. checkSetOptions key v opts (core C) = Inl e)")
  case True
  then have "C' = C" "err \<noteq> None" using r by (auto simp: SetWithOptions_def split: if_splits)
  then show ?thesis using ok by auto
next
  case False
  then obtain sc weight where c: "checkSetOptions key v opts (core C) = Inr (sc, weight)"
    by (metis sum.exhaust prod.exhaust)
  note a = checkSetOptions_result [OF c o]
  let ?i = "shardFor key C" and ?f = "setOptionsLocked key v weight sc"
  have il: "?i < length (shards C)" by (rule shardFor_less [OF ok])
  obtain e c1 s1 where f: "?f (core C, shards C ! ?i) = (e, (c1, s1))" by (metis prod.exhaust)
  have k: "keeps (\<lambda>k. shardFor k C = ?i) ?f (core C, shards C ! ?i)"
  proof (rule keepsI)
    fix oth n w assume "locked_ok (\<lambda>k. shardFor k C = ?i) oth n w (core C, shards C ! ?i)"
    from setOptionsLocked_spec [OF this refl a f]
    show "locked_ok (\<lambda>k. shardFor k C = ?i) oth n w (snd (?f (core C, shards C ! ?i)))" using f by simp
  qed (use setOptionsLocked_spec [OF cache_locked [OF ok il] refl a f] f in simp)
  note op = lockedOp_spec [OF ok il k]
  note sp = setOptionsLocked_spec [OF cache_locked [OF ok il] refl a f]
  have res: "err = e" "C' = (if e = None then settleGroups (sc_tags sc) (lockedOp ?i ?f C) else lockedOp ?i ?f C)"
    using r False c f by (auto simp: SetWithOptions_def Let_def withShard_eq lockedOp_def split: if_splits)
  note g = settleGroups_spec [OF op(1), of "sc_tags sc"]
  show ?thesis
  proof (cases e)
    case None
    have "\<not> c_sealed (core C) \<longrightarrow> wrote key v C (lockedOp ?i ?f C)"
      using lockedOp_wrote [OF ok refl k] sp f None by simp
    then have "\<not> c_sealed (core C) \<longrightarrow> wrote key v C C'"
      using wrote_cshrunk [of key v C "lockedOp ?i ?f C" C'] g op(1) res None by simp
    then show ?thesis using g op res None False by (auto simp: cshrunk_def)
  next
    case (Some x)
    have "cshrunk C (lockedOp ?i ?f C)" using lockedOp_shrinks [OF ok il k] sp f Some by simp
    then show ?thesis using op res Some by simp
  qed
qed

lemma upsertDefault_eq: "upsertDefault key v weight tags (c, s) =
    upsertTTL key v weight (cf_defaultTTL (c_cfg c)) (cf_slidingTTL (c_cfg c)) tags (c, s)"
  by (simp add: upsertDefault_def)

lemma condSet_ok:
  assumes ok: "cache_ok C" and t: "ttls_ok (c_settings (core C))"
  shows "cache_ok (snd (condSet present key v C)) \<and> frozen (core (snd (condSet present key v C))) = frozen (core C)"
proof (cases "checkSet key v (autoTags (core C) v) (core C)")
  case (Inl e)
  then show ?thesis using ok by (simp add: condSet_def)
next
  case (Inr weight)
  let ?i = "shardFor key C" and ?tags = "autoTags (core C) v"
  let ?f = "\<lambda>cs. if (freshEntryLocked key cs \<noteq> None) \<noteq> present then (False, cs) else (True, upsertDefault key v weight ?tags cs)"
  have il: "?i < length (shards C)" by (rule shardFor_less [OF ok])
  note w = checkSet_weight [OF Inr]
  have t': "cf_defaultTTL (c_cfg (core C)) \<le> ttl_max" using t by (simp add: ttls_ok_def)
  have "keeps (\<lambda>k. shardFor k C = ?i) (\<lambda>cs. ((), upsertDefault key v weight ?tags cs)) (core C, shards C ! ?i)"
    using upsertTTL_keeps [OF refl _ _ t' cache_locked [OF ok il]] w by (simp add: keeps_def upsertDefault_eq)
  then have "keeps (\<lambda>k. shardFor k C = ?i) ?f (core C, shards C ! ?i)" by (auto simp: keeps_def)
  from lockedOp_spec(1,2) [OF ok il this] show ?thesis
    using Inr unfolding condSet_def Let_def sum.case by (simp add: case_prod_beta lockedOp_def)
qed

lemma getOrAdd_ok:
  assumes ok: "cache_ok C" and t: "ttls_ok (c_settings (core C))"
  shows "cache_ok (snd (getOrAdd promote key v C)) \<and> frozen (core (snd (getOrAdd promote key v C))) = frozen (core C)"
proof (cases "checkSet key v (autoTags (core C) v) (core C)")
  case (Inl e)
  then show ?thesis using ok by (simp add: getOrAdd_def)
next
  case (Inr weight)
  let ?i = "shardFor key C" and ?tags = "autoTags (core C) v" and ?s = "shards C ! shardFor key C"
  have il: "?i < length (shards C)" by (rule shardFor_less [OF ok])
  note w = checkSet_weight [OF Inr]
  have t': "cf_defaultTTL (c_cfg (core C)) \<le> ttl_max" using t by (simp add: ttls_ok_def)
  have up: "keeps (\<lambda>k. shardFor k C = ?i) (\<lambda>cs. ((), upsertDefault key v weight ?tags cs)) (core C, ?s)"
    using upsertTTL_keeps [OF refl _ _ t' cache_locked [OF ok il]] w by (simp add: keeps_def upsertDefault_eq)
  have "keeps (\<lambda>k. shardFor k C = ?i) (getOrSetLocked promote key v weight ?tags) (core C, ?s)"
  proof (cases "freshEntryLocked key (core C, ?s)")
    case None
    then show ?thesis using up by (simp add: keeps_def getOrSetLocked_def)
  next
    case (Some e)
    then have e: "st_get key (sh_storage ?s) = Some e" by (simp add: freshEntryLocked_Some)
    show ?thesis
    proof (rule keepsI)
      fix oth n w assume inv: "locked_ok (\<lambda>k. shardFor k C = ?i) oth n w (core C, ?s)"
      have "e_key e = key" using shard_invD(2) [OF locked_invD(2) [OF inv] e] .
      then have "locked_ok (\<lambda>k. shardFor k C = ?i) oth n w (core C, snd (touchLocked e (core C, ?s)))"
        using touchLocked_ok(1) [OF inv] e by simp
      from quiet_locked(1) [OF quiet_simps(1) this]
      show "locked_ok (\<lambda>k. shardFor k C = ?i) oth n w (snd (getOrSetLocked promote key v weight ?tags (core C, ?s)))"
        using Some inv by (simp add: getOrSetLocked_def Let_def)
    qed (use Some in \<open>simp add: getOrSetLocked_def Let_def\<close>)
  qed
  from lockedOp_spec(1,2) [OF ok il this] show ?thesis
    using Inr unfolding getOrAdd_def Let_def sum.case by (simp add: case_prod_beta lockedOp_def)
qed

end
