(* ===== verification/Cache_Delete.thy ===== *)
theory Cache_Delete
  imports Cache_Write
begin

text \<open>
  The operations of a cache that take entries out (cache.go, tags.go, expiry.go): deletion of a key, of
  the expired entries, of those a prefix or a predicate selects, of those that carry a tag; \<open>Reset\<close>,
  \<open>Clear\<close> and \<open>Close\<close>; \<open>Resize\<close>; the sweep of the janitor. The goroutines of a cache, the janitor of a
  shard and the cleanup of the tag index, are here as the steps they make while they hold a lock.
\<close>

section \<open>Deleting keys\<close>

definition removeKeyLocked :: "'k \<Rightarrow> evictionReason \<Rightarrow> ('k, 'v) locked \<Rightarrow> bool \<times> ('k, 'v) locked" where
  "removeKeyLocked key reason cs =
     (case cs of (c, s) \<Rightarrow>
        let s = s\<lparr>sh_flights := supersedeFlight key (sh_flights s)\<rparr>
        in case st_get key (sh_storage s) of
             None \<Rightarrow> (False, (c, s))
           | Some e \<Rightarrow>
               let (c, s) = removeLocked e reason (c, s)
               in (True, (count_if (reason \<noteq> EvictReasonDeletedWhere \<and> reason \<noteq> EvictReasonDeletedPrefix)
                            (sc_deletes_update (\<lambda>n. n + 1)) c, s)))"

definition deleteKey :: "'k \<Rightarrow> evictionReason \<Rightarrow> ('k, 'v) cache \<Rightarrow> bool \<times> ('k, 'v) cache" where
  "deleteKey key reason C =
     (if c_closed (core C) then (False, C)
      else let i = shardFor key C; (r, C) = withShard i (removeKeyLocked key reason) C in (r, flushAndUnlock i C))"

definition Delete :: "'k \<Rightarrow> ('k, 'v) cache \<Rightarrow> bool \<times> ('k, 'v) cache" where
  "Delete key C = deleteKey key EvictReasonDeleted C"

text \<open>One message of the invalidation channel.\<close>

definition invalidateRemote :: "'k \<Rightarrow> ('k, 'v) cache \<Rightarrow> ('k, 'v) cache" where
  "invalidateRemote key C = (if c_closed (core C) then C else snd (deleteKey key EvictReasonRemote C))"

definition deleteIfLocked :: "'k \<Rightarrow> ('v \<Rightarrow> bool) \<Rightarrow> ('k, 'v) locked \<Rightarrow> bool \<times> ('k, 'v) locked" where
  "deleteIfLocked key pred cs =
     (case freshEntryLocked key cs of
        None \<Rightarrow> (False, cs)
      | Some e \<Rightarrow>
          if \<not> pred (returnValue (fst cs) (e_loadValue (ty_zeroV (c_types (fst cs))) e)) then (False, cs)
          else let (c, s) = removeLocked e EvictReasonDeleted cs in (True, (count (sc_deletes_update (\<lambda>n. n + 1)) c, s)))"

definition DeleteIf :: "'k \<Rightarrow> ('v \<Rightarrow> bool) \<Rightarrow> ('k, 'v) cache \<Rightarrow> bool \<times> ('k, 'v) cache" where
  "DeleteIf key pred C =
     (if c_closed (core C) then (False, C)
      else let i = shardFor key C; (r, C) = withShard i (deleteIfLocked key pred) C in (r, flushAndUnlock i C))"

fun DeleteMulti_loop :: "'k list \<Rightarrow> ('k, 'v) cache \<Rightarrow> int \<times> ('k, 'v) cache" where
  "DeleteMulti_loop [] C = (0, C)"
| "DeleteMulti_loop (k # ks) C =
     (let (removed, C) = Delete k C; (n, C) = DeleteMulti_loop ks C in ((if removed then 1 else 0) + n, C))"

definition DeleteMulti :: "'k list \<Rightarrow> ('k, 'v) cache \<Rightarrow> int \<times> ('k, 'v) cache" where
  "DeleteMulti keys C = (if c_closed (core C) \<or> keys = [] then (0, C) else DeleteMulti_loop keys C)"

definition GetCtx :: "'k error option \<Rightarrow> 'k \<Rightarrow> ('k, 'v) cache \<Rightarrow> ('k error + 'v \<times> bool) \<times> ('k, 'v) cache" where
  "GetCtx ctxErr key C = (case ctxErr of Some err \<Rightarrow> (Inl err, C) | None \<Rightarrow> (case Get key C of (r, C) \<Rightarrow> (Inr r, C)))"

definition SetCtx :: "'k error option \<Rightarrow> 'k \<Rightarrow> 'v \<Rightarrow> ('k, 'v) cache \<Rightarrow> 'k error option \<times> ('k, 'v) cache" where
  "SetCtx ctxErr key v C = (case ctxErr of Some err \<Rightarrow> (Some err, C) | None \<Rightarrow> Set key v C)"

definition DeleteCtx :: "'k error option \<Rightarrow> 'k \<Rightarrow> ('k, 'v) cache \<Rightarrow> ('k error + bool) \<times> ('k, 'v) cache" where
  "DeleteCtx ctxErr key C =
     (case ctxErr of Some err \<Rightarrow> (Inl err, C)
      | None \<Rightarrow> (case deleteKey key EvictReasonDeleted C of (r, C) \<Rightarrow> (Inr r, C)))"

section \<open>Deleting many entries\<close>

text \<open>The loops that remove the entries collected before; \<open>f\<close> is what is counted for each.\<close>

fun removeEntries :: "('k, 'v) entry list \<Rightarrow> evictionReason \<Rightarrow> (statsCounters \<Rightarrow> statsCounters) \<Rightarrow> ('k, 'v) locked \<Rightarrow>
    ('k, 'v) locked" where
  "removeEntries [] reason f cs = cs"
| "removeEntries (e # es) reason f cs =
     (let (c, s) = removeLocked e reason cs in removeEntries es reason f (count f c, s))"

definition deleteExpiredLocked :: "('k, 'v) locked \<Rightarrow> int \<times> ('k, 'v) locked" where
  "deleteExpiredLocked cs =
     (let doomed = filter (\<lambda>e. e_expired e (c_now (fst cs))) (map snd (st_each (sh_storage (snd cs))))
      in (int (length doomed), removeEntries doomed EvictReasonExpired (sc_expirations_update (\<lambda>n. n + 1)) cs))"

text \<open>A loop over the shards, each locked and released in turn.\<close>

fun overShards :: "nat list \<Rightarrow> (('k, 'v) locked \<Rightarrow> int \<times> ('k, 'v) locked) \<Rightarrow> ('k, 'v) cache \<Rightarrow> int \<times> ('k, 'v) cache" where
  "overShards [] f C = (0, C)"
| "overShards (i # is) f C =
     (let (n, C) = withShard i f C; C = flushAndUnlock i C; (m, C) = overShards is f C in (n + m, C))"

abbreviation allShards :: "('k, 'v) cache \<Rightarrow> nat list" where
  "allShards C \<equiv> [0..<length (shards C)]"

definition DeleteExpired :: "('k, 'v) cache \<Rightarrow> int \<times> ('k, 'v) cache" where
  "DeleteExpired C = (if c_closed (core C) then (0, C) else overShards (allShards C) deleteExpiredLocked C)"

text \<open>Marking the loads whose key matches.\<close>

definition markMatching :: "('k \<Rightarrow> bool) \<Rightarrow> 'k flights \<Rightarrow> 'k flights" where
  "markMatching matcher f =
     (let f = fl_markAll (map snd (filter (\<lambda>(k, _). matcher k) (fl_inflight f))) f
      in fl_markAll (map snd (filter (\<lambda>(k, _). matcher k) (fl_orphans f))) f)"

definition deletePrefixShard :: "('k \<Rightarrow> bool) \<Rightarrow> ('k, 'v) locked \<Rightarrow> int \<times> ('k, 'v) locked" where
  "deletePrefixShard matcher cs =
     (case cs of (c, s) \<Rightarrow>
        let s = s\<lparr>sh_flights := markMatching matcher (sh_flights s)\<rparr>;
            doomed = filter (\<lambda>e. matcher (e_key e)) (map snd (st_each (sh_storage s)))
        in (int (length doomed), removeEntries doomed EvictReasonDeletedPrefix id (c, s)))"

definition DeletePrefix :: "string \<Rightarrow> ('k, 'v) cache \<Rightarrow> int \<times> ('k, 'v) cache" where
  "DeletePrefix prefix C =
     (if c_closed (core C) then (0, C)
      else case ty_hasPrefix (c_types (core C)) of
             None \<Rightarrow> (0, C)
           | Some hasPrefix \<Rightarrow> overShards (allShards C) (deletePrefixShard (\<lambda>k. hasPrefix k prefix)) C)"

text \<open>\<open>DeleteWhere\<close> on a shard: the candidates are copied, the predicate chooses, the chosen keys that
  still have an entry lose it.\<close>

fun removeChosen :: "'k list \<Rightarrow> ('k, 'v) locked \<Rightarrow> int \<times> ('k, 'v) locked" where
  "removeChosen [] cs = (0, cs)"
| "removeChosen (k # ks) cs =
     (case st_get k (sh_storage (snd cs)) of
        None \<Rightarrow> removeChosen ks cs
      | Some e \<Rightarrow> (let (n, cs) = removeChosen ks (removeLocked e EvictReasonDeletedWhere cs) in (n + 1, cs)))"

definition chosenBy :: "('k \<Rightarrow> 'v \<Rightarrow> bool) \<Rightarrow> ('k, 'v) locked \<Rightarrow> 'k list" where
  "chosenBy pred cs =
     map fst (filter (\<lambda>(k, v). pred k v)
       (map (\<lambda>(k, v). (k, returnValue (fst cs) v)) (copyShard (fst cs) (snd cs))))"

fun deleteWhereLoop :: "nat list \<Rightarrow> ('k \<Rightarrow> 'v \<Rightarrow> bool) \<Rightarrow> ('k, 'v) cache \<Rightarrow> int \<times> ('k, 'v) cache" where
  "deleteWhereLoop [] pred C = (0, C)"
| "deleteWhereLoop (i # is) pred C =
     (let doomed = chosenBy pred (core C, shards C ! i)
      in if doomed = [] then deleteWhereLoop is pred C
         else let (n, C) = withShard i (removeChosen doomed) C;
                  C = flushAndUnlock i C;
                  (m, C) = deleteWhereLoop is pred C
              in (n + m, C))"

definition DeleteWhere :: "('k \<Rightarrow> 'v \<Rightarrow> bool) \<Rightarrow> ('k, 'v) cache \<Rightarrow> int \<times> ('k, 'v) cache" where
  "DeleteWhere pred C = (if c_closed (core C) then (0, C) else deleteWhereLoop (allShards C) pred C)"

section \<open>Tags\<close>

fun invalidateKeys :: "'k list \<Rightarrow> ('k, 'v) cache \<Rightarrow> int \<times> ('k, 'v) cache" where
  "invalidateKeys [] C = (0, C)"
| "invalidateKeys (k # ks) C =
     (let (removed, C) = invalidateKey k C; (n, C) = invalidateKeys ks C in ((if removed then 1 else 0) + n, C))"

definition publishTags :: "int \<Rightarrow> string list \<Rightarrow> ('k, 'v) core \<Rightarrow> ('k, 'v) core" where
  "publishTags n tags c =
     (if n > 0
      then publishEvent \<lparr>ev_Kind = EventInvalidateTag, ev_Key = None, ev_Value = None, ev_Reason = None, ev_At = c_now c,
             ev_Tags = tags, ev_Err = None\<rparr> c
      else c)"

definition InvalidateTag :: "string \<Rightarrow> ('k, 'v) cache \<Rightarrow> int \<times> ('k, 'v) cache" where
  "InvalidateTag tag C =
     (if c_closed (core C) then (0, C)
      else let C = onCore (count (sc_tagInvalidations_update (\<lambda>n. n + 1))) C;
               (n, C) = invalidateKeys (idx_snapshot tag (tg_index (c_tags (core C)))) C
           in (n, onCore (publishTags n [tag]) C))"

definition InvalidateTags :: "string list \<Rightarrow> ('k, 'v) cache \<Rightarrow> int \<times> ('k, 'v) cache" where
  "InvalidateTags tags C =
     (if c_closed (core C) \<or> tags = [] then (0, C)
      else let C = onCore (count (sc_tagInvalidations_update (\<lambda>n. n + 1))) C;
               doomed = remdups (concat (map (\<lambda>tag. idx_snapshot tag (tg_index (c_tags (core C)))) tags));
               (n, C) = invalidateKeys doomed C
           in (n, onCore (publishTags n tags) C))"

section \<open>Reset, Clear, Close\<close>

definition untagShardLocked :: "('k, 'v) shard \<Rightarrow> 'k tagIndex \<Rightarrow> 'k tagIndex" where
  "untagShardLocked s idx = fold (\<lambda>e idx. fold (untag_one (e_key e)) (e_tags e) idx) (map snd (st_each (sh_storage s))) idx"

text \<open>The body of the loops of \<open>Reset\<close> and \<open>Clear\<close>; \<open>Clear\<close> counts every removal.\<close>

definition resetShardLocked :: "bool \<Rightarrow> ('k, 'v) locked \<Rightarrow> ('k, 'v) locked" where
  "resetShardLocked counted cs =
     (case cs of (c, s) \<Rightarrow>
        let es = map snd (st_each (sh_storage s));
            c = c\<lparr>c_tags := (c_tags c)\<lparr>tg_index := untagShardLocked s (tg_index (c_tags c))\<rparr>\<rparr>;
            c = fold (\<lambda>e c. count_if (counted \<and> cf_statsEnabled (c_cfg c))
                       (sc_evictionsByReason_update (\<lambda>f. f(EvictReasonClear := f EvictReasonClear + 1)))
                       (count (addBytes (- e_weight e) \<circ> addEntries (- 1)) c)) es c;
            p = fold (\<lambda>e p. pol_onRemove (e_key e) p) es (sh_policy s)
        in (c, s\<lparr>sh_storage := st_clearAll (sh_storage s), sh_flights := supersedeAllFlights (sh_flights s),
                 sh_policy := pol_reset p, sh_ttl := ttl_Reset (sh_ttl s)\<rparr>))"

definition Reset :: "('k, 'v) cache \<Rightarrow> ('k, 'v) cache" where
  "Reset C =
     (let C = onCore (\<lambda>c. c\<lparr>c_admission := adm_Reset (c_admission c)\<rparr>) C
      in snd (overShards (allShards C) (\<lambda>cs. (0, resetShardLocked False cs)) C))"

definition runPurgeVisitor :: "('k, 'v) cache \<Rightarrow> ('k, 'v) cache" where
  "runPurgeVisitor C =
     (let c = core C;
          staged = concat (map (\<lambda>s. map (\<lambda>e. (e_key e, returnValue c (e_loadValue (ty_zeroV (c_types c)) e)))
                     (filter (\<lambda>e. \<not> flags_has (e_flags e) flagNegative) (map snd (st_each (sh_storage s))))) (shards C))
      in onCore (fold (\<lambda>(k, v). callHook (su_purgeVisitor (c_settings c)) (HookPurge k v)) staged) C)"

definition Clear :: "('k, 'v) cache \<Rightarrow> ('k, 'v) cache" where
  "Clear C =
     (if c_closed (core C) then C
      else let C = runPurgeVisitor C in snd (overShards (allShards C) (\<lambda>cs. (0, resetShardLocked True cs)) C))"

definition stopJanitor :: "('k, 'v) shard \<Rightarrow> ('k, 'v) shard" where
  "stopJanitor s = s\<lparr>sh_janitor := (sh_janitor s)\<lparr>ja_running := False\<rparr>\<rparr>"

text \<open>The cleanup goroutine ends: what it holds and what is queued is applied.\<close>

definition stopTagCleanup :: "('k, 'v) cache \<Rightarrow> ('k, 'v) cache" where
  "stopTagCleanup C =
     onCore (\<lambda>c. c\<lparr>c_tags := (let g = cleanupApply (tagsOf C) (c_tags c)
                              in g\<lparr>tg_index := drainRemaining (tagsOf C) (tg_queue g) (tg_index g), tg_queue := []\<rparr>)\<rparr>) C"

text \<open>Without the final snapshot of \<open>WithAutoSave\<close>.\<close>

definition Close :: "('k, 'v) cache \<Rightarrow> ('k, 'v) cache" where
  "Close C =
     (if c_closed (core C) then C
      else let C = onCore (\<lambda>c. c\<lparr>c_closed := True, c_sealed := True\<rparr>) C;
               C = C\<lparr>shards := map stopJanitor (shards C)\<rparr>;
               C = runPurgeVisitor C;
               C = Reset C;
               C = stopTagCleanup C
           in onCore (\<lambda>c. c\<lparr>c_events := eb_close (c_events c)\<rparr>) C)"

section \<open>Resize\<close>

definition MaxInt :: int where
  "MaxInt = 2 ^ 63 - 1"

definition resizeShardLocked :: "int \<Rightarrow> ('k, 'v) locked \<Rightarrow> int \<times> ('k, 'v) locked" where
  "resizeShardLocked perShard cs =
     (case cs of (c, s) \<Rightarrow>
        evictOverBudgetLocked EvictReasonResize MaxInt
          (c, s\<lparr>sh_budget := perShard, sh_policy := pol_setBudget perShard (sh_policy s)\<rparr>))"

fun resizeShards :: "nat list \<Rightarrow> int \<Rightarrow> ('k, 'v) cache \<Rightarrow> int \<times> ('k, 'v) cache" where
  "resizeShards [] perShard C = (0, C)"
| "resizeShards (i # is) perShard C =
     (let (n, C) = withShard i (resizeShardLocked perShard) C;
          C = releaseShard i C;
          (m, C) = resizeShards is perShard C
      in (n + m, C))"

definition Resize :: "int \<Rightarrow> ('k, 'v) cache \<Rightarrow> int \<times> ('k, 'v) cache" where
  "Resize newSize C =
     (if c_closed (core C) \<or> newSize \<le> 0 then (0, C)
      else let C = onCore (count (sc_resizes_update (\<lambda>n. n + 1))) C;
               C = onCore (\<lambda>c. if cf_maxBytes (c_cfg c) > 0 then c\<lparr>c_maxBytes := newSize\<rparr> else c\<lparr>c_maxEntries := newSize\<rparr>) C;
               perShard = perShardBudget (c_maxEntries (core C)) (int (length (shards C)));
               (n, C) = resizeShards (allShards C) perShard C;
               (m, C) = shedOverBudget EvictReasonResize None C
           in (n + m, onCore (\<lambda>c. publishEvent \<lparr>ev_Kind = EventResize, ev_Key = None, ev_Value = None, ev_Reason = None,
                 ev_At = c_now c, ev_Tags = [], ev_Err = None\<rparr> c) C))"

section \<open>Background work\<close>

definition sweepExpiredLocked :: "('k, 'v) locked \<Rightarrow> int \<times> ('k, 'v) locked" where
  "sweepExpiredLocked cs =
     (case cs of (c, s) \<Rightarrow>
        let (expired, b) = ttl_Sweep (expiryOf (sh_storage s)) (c_now c) (sh_ttl s);
            es = map (\<lambda>k. the (st_get k (sh_storage s))) expired
        in (int (length expired),
            removeEntries es EvictReasonExpired (sc_expirations_update (\<lambda>n. n + 1)) (c, s\<lparr>sh_ttl := b\<rparr>)))"

definition janitorIdleShutdownTicks :: nat where
  "janitorIdleShutdownTicks = 5"

text \<open>One tick of \<open>runJanitor\<close>, under the lock.\<close>

definition janitorTickLocked :: "('k, 'v) locked \<Rightarrow> int \<times> ('k, 'v) locked" where
  "janitorTickLocked cs =
     (let (removed, (c, s)) = sweepExpiredLocked cs;
          j = sh_janitor s;
          j = (if removed = 0 \<and> ttl_Len (sh_ttl s) = 0
               then if ja_idle j + 1 \<ge> janitorIdleShutdownTicks then \<lparr>ja_running = False, ja_idle = ja_idle j + 1\<rparr>
                    else j\<lparr>ja_idle := ja_idle j + 1\<rparr>
               else j\<lparr>ja_idle := 0\<rparr>)
      in (removed, (c, s\<lparr>sh_janitor := j\<rparr>)))"

definition janitorTick :: "nat \<Rightarrow> ('k, 'v) cache \<Rightarrow> ('k, 'v) cache" where
  "janitorTick i C =
     (if i < length (shards C) \<and> ja_running (sh_janitor (shards C ! i))
      then let (n, C) = withShard i janitorTickLocked C in flushAndUnlock i C
      else C)"

definition tagCleanupTake :: "('k, 'v) cache \<Rightarrow> ('k, 'v) cache" where
  "tagCleanupTake C = onCore (\<lambda>c. c\<lparr>c_tags := cleanupTake (c_tags c)\<rparr>) C"

definition tagCleanupApply :: "('k, 'v) cache \<Rightarrow> ('k, 'v) cache" where
  "tagCleanupApply C = onCore (\<lambda>c. c\<lparr>c_tags := cleanupApply (tagsOf C) (c_tags c)\<rparr>) C"

definition Subscribe :: "int \<Rightarrow> eventKind list \<Rightarrow> ('k, 'v) cache \<Rightarrow> nat \<times> ('k, 'v) cache" where
  "Subscribe buf kinds C =
     (case eb_subscribe (nat (subscribeBuffer buf (cf_eventsBuffer (c_cfg (core C))))) (kindMask kinds) (c_events (core C)) of
        (i, b) \<Rightarrow> (i, onCore (\<lambda>c. c\<lparr>c_events := b\<rparr>) C))"

section \<open>Removing a list of entries\<close>

text \<open>A section of code that keeps the invariant of the shard and only takes entries out.\<close>

definition drops :: "('k \<Rightarrow> bool) \<Rightarrow> (('k, 'v) locked \<Rightarrow> 'r \<times> ('k, 'v) locked) \<Rightarrow> bool" where
  "drops own f \<longleftrightarrow> (\<forall>c s oth n w. locked_ok own oth n w (c, s) \<longrightarrow> locked_ok own oth n w (snd (f (c, s))) \<and>
     frozen (fst (snd (f (c, s)))) = frozen c \<and> shrunk s (snd (snd (f (c, s)))))"

lemma dropsD:
  assumes "drops own f" and "locked_ok own oth n w (c, s)"
  shows "keeps own f (c, s)" "shrunk s (snd (snd (f (c, s))))"
  using assms unfolding drops_def keeps_def by auto

text \<open>What a count may be: a change of any counter but the two the bounds are checked on.\<close>

definition tally :: "(statsCounters \<Rightarrow> statsCounters) \<Rightarrow> bool" where
  "tally f \<longleftrightarrow> (\<forall>x. sc_entries (f x) = sc_entries x \<and> sc_bytes (f x) = sc_bytes x)"

lemma tally_simps [simp]:
  "tally id" "tally (sc_expirations_update g)" "tally (sc_deletes_update g)" "tally (sc_tagInvalidations_update g)"
  by (simp_all add: tally_def)

lemma locked_inv_tally: "tally f \<Longrightarrow> locked_inv D own oth n w (count f c, s) = locked_inv D own oth n w (c, s)"
  by (simp add: tally_def)

lemma removeLocked_drop:
  assumes inv: "locked_inv D own oth n w (c, s)" and e: "st_get (e_key e) (sh_storage s) = Some e"
  shows "locked_inv (D - {e_key e}) own oth n w (removeLocked e r (c, s))"
proof -
  have "pol_ok (sh_policy s)" using inv by (simp add: locked_inv_def shard_inv_def)
  then show ?thesis
    using removeLocked_inv [OF assms, of "sh_policy s" r] by (simp add: pol.ok_remove pol.tracked_remove)
qed

lemma removeEntries_spec:
  assumes "locked_inv D own oth n w (c, s)" and "\<And>e. e \<in> set es \<Longrightarrow> st_get (e_key e) (sh_storage s) = Some e"
    and "distinct (map e_key es)" and "tally f"
  shows "locked_inv (D - e_key ` set es) own oth n w (removeEntries es r f (c, s)) \<and>
    frozen (fst (removeEntries es r f (c, s))) = frozen c \<and>
    (\<forall>k. st_get k (sh_storage (snd (removeEntries es r f (c, s)))) =
       (if k \<in> e_key ` set es then None else st_get k (sh_storage s)))"
  using assms
proof (induction es arbitrary: c s D)
  case (Cons e es)
  obtain c1 s1 where r: "removeLocked e r (c, s) = (c1, s1)" by force
  have st: "st_ok (sh_storage s)" using shard_invD(1) [OF locked_invD(2) [OF Cons.prems(1)]] .
  have "locked_inv (D - {e_key e}) own oth n w (c1, s1)"
    using removeLocked_drop [OF Cons.prems(1), of e r] Cons.prems(2) r by simp
  then have l: "locked_inv (D - {e_key e}) own oth n w (count f c1, s1)" using Cons.prems(4) by (simp add: locked_inv_tally)
  have g: "st_get k (sh_storage s1) = (if k = e_key e then None else st_get k (sh_storage s))" for k
    using removeLocked_shard(1) [of e r c s] r by (simp add: st.get_del [OF st])
  have "st_get (e_key x) (sh_storage s1) = Some x" if "x \<in> set es" for x
  proof -
    have "e_key x \<noteq> e_key e" using that Cons.prems(3) by (metis distinct.simps(2) image_eqI list.set_map list.simps(9))
    then show ?thesis using that Cons.prems(2) [of x] by (simp add: g)
  qed
  note ih = Cons.IH [OF l this _ Cons.prems(4)]
  have "D - {e_key e} - e_key ` set es = D - e_key ` set (e # es)" by auto
  moreover have "frozen c1 = frozen c" using removeLocked_frozen [of e r c s] r by simp
  moreover have "distinct (map e_key es)" using Cons.prems(3) by simp
  ultimately show ?case using ih by (simp add: r g)
qed simp

lemma stored_entries:
  assumes "shard_ok own s"
  shows "e \<in> set (map snd (st_each (sh_storage s))) \<longleftrightarrow> st_get (e_key e) (sh_storage s) = Some e"
    "distinct (map e_key (map snd (st_each (sh_storage s))))"
proof -
  note sd = shard_invD [OF assms]
  have g: "st_get k (sh_storage s) = map_of (st_each (sh_storage s)) k" for k by (rule st.get_each [OF sd(1)])
  have d: "distinct (map fst (st_each (sh_storage s)))" by (rule st.each_distinct [OF sd(1)])
  have k: "e_key x = i" if "(i, x) \<in> set (st_each (sh_storage s))" for i x
    using that d sd(2) [of i x] by (simp add: g)
  show "e \<in> set (map snd (st_each (sh_storage s))) \<longleftrightarrow> st_get (e_key e) (sh_storage s) = Some e"
  proof
    assume "e \<in> set (map snd (st_each (sh_storage s)))"
    then obtain i where i: "(i, e) \<in> set (st_each (sh_storage s))" by auto
    then show "st_get (e_key e) (sh_storage s) = Some e" using k [OF i] d by (simp add: g)
  next
    assume "st_get (e_key e) (sh_storage s) = Some e"
    then have "(e_key e, e) \<in> set (st_each (sh_storage s))" unfolding g by (rule map_of_SomeD)
    then show "e \<in> set (map snd (st_each (sh_storage s)))" by force
  qed
  have "map e_key (map snd (st_each (sh_storage s))) = map fst (st_each (sh_storage s))"
    using k by (auto simp: comp_def)
  then show "distinct (map e_key (map snd (st_each (sh_storage s))))" using d by (simp only:)
qed

text \<open>Removing the entries that a test selects.\<close>

lemma removeSelected_spec:
  fixes P r k
  assumes inv: "locked_ok own oth n w (c, s)" and f: "tally f"
  defines "cs \<equiv> removeEntries (filter P (map snd (st_each (sh_storage s)))) r f (c, s)"
  shows "locked_ok own oth n w cs" "frozen (fst cs) = frozen c"
    "st_get k (sh_storage (snd cs)) = (case st_get k (sh_storage s) of None \<Rightarrow> None | Some e \<Rightarrow> if P e then None else Some e)"
proof -
  let ?es = "filter P (map snd (st_each (sh_storage s)))"
  have so: "shard_ok own s" by (rule locked_invD(2) [OF inv])
  note se = stored_entries [OF so]
  have in_es: "e \<in> set ?es \<longleftrightarrow> st_get (e_key e) (sh_storage s) = Some e \<and> P e" for e
    using se(1) [of e] by auto
  have d: "distinct (map e_key ?es)" using se(2) by (simp add: distinct_map_filter)
  note r = removeEntries_spec [OF inv _ d f, of r]
  have r: "locked_inv ({} - e_key ` set ?es) own oth n w cs \<and> frozen (fst cs) = frozen c \<and>
    (\<forall>k. st_get k (sh_storage (snd cs)) = (if k \<in> e_key ` set ?es then None else st_get k (sh_storage s)))"
    unfolding cs_def by (rule r) (simp only: in_es)
  then show "locked_ok own oth n w cs" "frozen (fst cs) = frozen c" by simp_all
  have "k \<in> e_key ` set ?es \<longleftrightarrow> (\<exists>e. st_get k (sh_storage s) = Some e \<and> P e)"
    using in_es shard_invD(2) [OF so, of k] by (metis (no_types, lifting) image_iff)
  then show "st_get k (sh_storage (snd cs)) =
      (case st_get k (sh_storage s) of None \<Rightarrow> None | Some e \<Rightarrow> if P e then None else Some e)"
    using r by (auto split: option.split)
qed

lemma removeSelected_shrunk:
  assumes "locked_ok own oth n w (c, s)" and "tally f"
  shows "shrunk s (snd (removeEntries (filter P (map snd (st_each (sh_storage s)))) r f (c, s)))"
  using removeSelected_spec(3) [OF assms, where P = P and r = r] by (simp add: shrunk_def split: option.split)

lemma deleteExpiredLocked_drops: "drops own deleteExpiredLocked"
  unfolding drops_def deleteExpiredLocked_def Let_def fst_conv snd_conv
  by (intro allI impI conjI removeSelected_spec(1,2) removeSelected_shrunk) simp_all

lemma deleteExpiredLocked_left:
  assumes "locked_ok own oth n w (c, s)" and "st_get k (sh_storage (snd (snd (deleteExpiredLocked (c, s))))) = Some e"
  shows "\<not> e_expired e (c_now c)"
  using assms(2) unfolding deleteExpiredLocked_def Let_def fst_conv snd_conv
  by (simp add: removeSelected_spec(3) [OF assms(1)] split: option.splits if_splits)

lemma key_of_markAll [simp]: "key_of (fl_markAll gs f) g = key_of f g"
  by (simp add: key_of_def fl_markAll_table option.map_comp comp_def)

lemma fl_ok_markAll: "fl_ok f \<Longrightarrow> fl_ok (fl_markAll gs f)"
  unfolding fl_ok_def fl_markAll_fields fl_markAll_table key_of_markAll
  by (auto split: if_splits)

lemma markMatching_ok: "fl_ok f \<Longrightarrow> fl_ok (markMatching m f)"
  by (simp add: markMatching_def Let_def fl_ok_markAll)

lemma deletePrefixShard_drops: "drops own (deletePrefixShard m)"
proof -
  have "locked_ok own oth n w (c, s\<lparr>sh_flights := markMatching m (sh_flights s)\<rparr>)" if "locked_ok own oth n w (c, s)" for c s oth n w
    using that shard_invD(9) [OF locked_invD(2) [OF that]] by (simp add: locked_ok_flights markMatching_ok)
  note r = removeSelected_spec(1,2) [OF this tally_simps(1)] removeSelected_shrunk [OF this tally_simps(1)]
  show ?thesis
    unfolding drops_def deletePrefixShard_def Let_def prod.case fst_conv snd_conv
  proof (intro allI impI conjI)
    fix c and s :: "('a, 'b) shard" and oth n w assume l: "locked_ok own oth n w (c, s)"
    let ?s = "s\<lparr>sh_flights := markMatching m (sh_flights s)\<rparr>"
    let ?cs = "removeEntries (filter (\<lambda>e. m (e_key e)) (map snd (st_each (sh_storage ?s)))) EvictReasonDeletedPrefix id (c, ?s)"
    show "locked_ok own oth n w ?cs" "frozen (fst ?cs) = frozen c" using r(1,2) [OF l] by blast+
    show "shrunk s (snd ?cs)" using r(3) [OF l] by (simp add: shrunk_def)
  qed
qed

lemma deletePrefixShard_left:
  assumes "locked_ok own oth n w (c, s)" and "st_get k (sh_storage (snd (snd (deletePrefixShard m (c, s))))) = Some e"
  shows "\<not> m (e_key e)"
proof -
  have "locked_ok own oth n w (c, s\<lparr>sh_flights := markMatching m (sh_flights s)\<rparr>)"
    using assms(1) shard_invD(9) [OF locked_invD(2) [OF assms(1)]] by (simp add: locked_ok_flights markMatching_ok)
  note r = removeSelected_spec(3) [OF this tally_simps(1), where P = "\<lambda>e. m (e_key e)" and r = EvictReasonDeletedPrefix and k = k]
  show ?thesis
    using assms(2) unfolding deletePrefixShard_def Let_def prod.case fst_conv snd_conv r by (auto split: option.splits if_splits)
qed

section \<open>Loops over the shards\<close>

lemma lockedOp_drops:
  assumes ok: "cache_ok C" and i: "i < length (shards C)" and d: "drops (\<lambda>k. shardFor k C = i) f"
  shows "cache_ok (lockedOp i f C)" "cshrunk C (lockedOp i f C)" "\<not> overBudget (core (lockedOp i f C))"
    "keeps (\<lambda>k. shardFor k C = i) f (core C, shards C ! i)"
proof -
  note k = dropsD [OF d cache_locked [OF ok i]]
  show "keeps (\<lambda>k. shardFor k C = i) f (core C, shards C ! i)" by (rule k(1))
  show "cache_ok (lockedOp i f C)" "\<not> overBudget (core (lockedOp i f C))" using lockedOp_spec [OF ok i k(1)] by blast+
  show "cshrunk C (lockedOp i f C)" by (rule lockedOp_shrinks [OF ok i k])
qed

lemma cshrunkD:
  assumes "cshrunk C C'"
  shows "frozen (core C') = frozen (core C)" "length (shards C') = length (shards C)" "shardFor k C' = shardFor k C"
proof -
  show f: "frozen (core C') = frozen (core C)" "length (shards C') = length (shards C)" using assms by (auto simp: cshrunk_def)
  show "shardFor k C' = shardFor k C" by (rule shardFor_cong [OF frozenD(1) [OF f(1)] f(2)])
qed

lemma overShards_Cons:
  "overShards (i # is) f C = (let C1 = lockedOp i f C; (m, C2) = overShards is f C1 in (fst (f (core C, shards C ! i)) + m, C2))"
  by (simp add: lockedOp_def withShard_eq Let_def)

lemma overShards_spec:
  assumes "cache_ok C" and "set is \<subseteq> {..<length (shards C)}" and d: "\<And>own. drops own f"
  shows "cache_ok (snd (overShards is f C)) \<and> cshrunk C (snd (overShards is f C)) \<and>
    (is \<noteq> [] \<or> \<not> overBudget (core C) \<longrightarrow> \<not> overBudget (core (snd (overShards is f C))))"
  using assms(1,2)
proof (induction "is" arbitrary: C)
  case (Cons i "is")
  have i: "i < length (shards C)" using Cons.prems(2) by simp
  note o = lockedOp_drops [OF Cons.prems(1) i d]
  have "set is \<subseteq> {..<length (shards (lockedOp i f C))}" using Cons.prems(2) cshrunkD(2) [OF o(2)] by simp
  from Cons.IH [OF o(1) this] o(2,3) cshrunk_trans [OF o(2)] show ?case
    unfolding overShards_Cons Let_def by (auto simp: case_prod_beta)
qed simp

text \<open>What holds of the entries a section leaves in its shard holds of those left in the end.\<close>

lemma overShards_left:
  assumes "cache_ok C" and "set is \<subseteq> {..<length (shards C)}" and d: "\<And>own. drops own f"
    and R: "\<And>own oth n w c s k e. locked_ok own oth n w (c, s) \<Longrightarrow> frozen c = frozen (core C) \<Longrightarrow>
      st_get k (sh_storage (snd (snd (f (c, s))))) = Some e \<Longrightarrow> R e"
    and "shardFor k C \<in> set is" and "look (snd (overShards is f C)) k = Some e"
  shows "R e"
  using assms(1,2) R assms(5,6)
proof (induction "is" arbitrary: C)
  case (Cons i "is")
  have i: "i < length (shards C)" using Cons.prems(2) by simp
  note o = lockedOp_drops [OF Cons.prems(1) i d]
  have sub: "set is \<subseteq> {..<length (shards (lockedOp i f C))}" using Cons.prems(2) cshrunkD(2) [OF o(2)] by simp
  have eq: "snd (overShards (i # is) f C) = snd (overShards is f (lockedOp i f C))"
    unfolding overShards_Cons Let_def by (simp add: case_prod_beta)
  show ?case
  proof (cases "shardFor k C = i")
    case True
    have "look (lockedOp i f C) k = Some e"
      using overShards_spec [OF o(1) sub d] cshrunk_look [OF _ o(1), of "snd (overShards is f (lockedOp i f C))" k]
        Cons.prems(5) unfolding eq by auto
    then have "st_get k (sh_storage (snd (snd (f (core C, shards C ! i))))) = Some e"
      using look_lockedOp [OF Cons.prems(1) True [symmetric] o(4), of k] True by auto
    then show ?thesis using Cons.prems(3) [OF cache_locked [OF Cons.prems(1) i] refl] by blast
  next
    case False
    have "shardFor k (lockedOp i f C) \<in> set is" using False Cons.prems(4) cshrunkD(3) [OF o(2)] by simp
    from Cons.IH [OF o(1) sub _ this] show ?thesis
      using Cons.prems(3,5) cshrunkD(1) [OF o(2)] unfolding eq by (metis (no_types, lifting))
  qed
qed simp

lemma allShards_sub: "set (allShards C) \<subseteq> {..<length (shards C)}" "cache_ok C \<Longrightarrow> allShards C \<noteq> []"
  "cache_ok C \<Longrightarrow> shardFor k C \<in> set (allShards C)"
  using shardFor_less [of C k] by auto

lemma DeleteExpired_spec:
  assumes ok: "cache_ok C"
  shows "cache_ok (snd (DeleteExpired C)) \<and> cshrunk C (snd (DeleteExpired C))"
    "\<not> c_closed (core C) \<Longrightarrow> look (snd (DeleteExpired C)) k = Some e \<Longrightarrow> \<not> e_expired e (c_now (core C))"
proof -
  note o = overShards_spec [OF ok allShards_sub(1) deleteExpiredLocked_drops]
  show "cache_ok (snd (DeleteExpired C)) \<and> cshrunk C (snd (DeleteExpired C))" using o ok by (simp add: DeleteExpired_def)
  have "\<not> e_expired e (c_now (core C))" if "look (snd (overShards (allShards C) deleteExpiredLocked C)) k = Some e"
    using overShards_left [OF ok allShards_sub(1) deleteExpiredLocked_drops, of "\<lambda>e. \<not> e_expired e (c_now (core C))" k e]
      deleteExpiredLocked_left frozenD(2) allShards_sub(3) [OF ok] that by metis
  then show "\<not> c_closed (core C) \<Longrightarrow> look (snd (DeleteExpired C)) k = Some e \<Longrightarrow> \<not> e_expired e (c_now (core C))"
    by (simp add: DeleteExpired_def)
qed

lemma DeletePrefix_spec:
  assumes ok: "cache_ok C"
  shows "cache_ok (snd (DeletePrefix prefix C)) \<and> cshrunk C (snd (DeletePrefix prefix C))"
    "\<not> c_closed (core C) \<Longrightarrow> ty_hasPrefix (c_types (core C)) = Some h \<Longrightarrow>
       look (snd (DeletePrefix prefix C)) k = Some e \<Longrightarrow> \<not> h k prefix"
proof -
  note o = overShards_spec [OF ok allShards_sub(1) deletePrefixShard_drops]
  show "cache_ok (snd (DeletePrefix prefix C)) \<and> cshrunk C (snd (DeletePrefix prefix C))"
    using o ok by (simp add: DeletePrefix_def split: option.split)
  assume a: "\<not> c_closed (core C)" "ty_hasPrefix (c_types (core C)) = Some h" "look (snd (DeletePrefix prefix C)) k = Some e"
  let ?C = "snd (overShards (allShards C) (deletePrefixShard (\<lambda>k. h k prefix)) C)"
  have l: "look ?C k = Some e" using a by (simp add: DeletePrefix_def)
  have "\<not> h (e_key e) prefix"
    using overShards_left [OF ok allShards_sub(1) deletePrefixShard_drops _ allShards_sub(3) [OF ok] l,
        of "\<lambda>e. \<not> h (e_key e) prefix"] deletePrefixShard_left by metis
  moreover have "e_key e = k"
  proof -
    have "cache_ok ?C" using o by blast
    from shard_invD(2) [OF locked_invD(2) [OF cache_locked [OF this shardFor_less [OF this]]]] l
    show ?thesis by (auto simp: look_def)
  qed
  ultimately show "\<not> h k prefix" by simp
qed

section \<open>Single keys\<close>

lemma cache_locked_shard: "cache_ok C \<Longrightarrow> shard_ok (\<lambda>k'. shardFor k' C = shardFor k C) (shards C ! shardFor k C)"
  by (rule locked_invD(2) [OF cache_locked [OF _ shardFor_less]])

lemma look_key: "cache_ok C \<Longrightarrow> look C k = Some e \<Longrightarrow> e_key e = k"
  using shard_invD(2) [OF cache_locked_shard] by (auto simp: look_def)

lemma removeKeyLocked_drops: "drops own (removeKeyLocked key r)"
  unfolding drops_def
proof (intro allI impI)
  fix c and s :: "('a, 'b) shard" and oth n w assume inv: "locked_ok own oth n w (c, s)"
  note sd = shard_invD [OF locked_invD(2) [OF inv]]
  let ?s = "s\<lparr>sh_flights := supersedeFlight key (sh_flights s)\<rparr>"
  have l: "locked_ok own oth n w (c, ?s)" using sd(9) by (intro locked_ok_flights [OF inv] fl_ok_supersede)
  show "locked_ok own oth n w (snd (removeKeyLocked key r (c, s))) \<and>
    frozen (fst (snd (removeKeyLocked key r (c, s)))) = frozen c \<and> shrunk s (snd (snd (removeKeyLocked key r (c, s))))"
  proof (cases "st_get key (sh_storage s)")
    case None
    then show ?thesis using l by (simp add: removeKeyLocked_def shrunk_def)
  next
    case (Some e)
    have k: "e_key e = key" using sd(2) Some .
    have "shrunk ?s (snd (removeLocked e r (c, ?s)))" using sd(1) by (intro removeLocked_shrunk) simp
    then show ?thesis
      using removeLocked_ok [OF l, of e r] Some k by (simp add: removeKeyLocked_def Let_def case_prod_beta shrunk_def)
  qed
qed

lemma removeKeyLocked_gone:
  assumes "locked_ok own oth n w (c, s)"
  shows "st_get key (sh_storage (snd (snd (removeKeyLocked key r (c, s))))) = None"
    "fst (removeKeyLocked key r (c, s)) = (st_get key (sh_storage s) \<noteq> None)"
  using shard_invD(1,2) [OF locked_invD(2) [OF assms]]
  by (auto simp: removeKeyLocked_def Let_def case_prod_beta removeLocked_shard(1) st.get_del split: option.split)

lemma deleteKey_spec:
  assumes ok: "cache_ok C"
  shows "cache_ok (snd (deleteKey key r C)) \<and> cshrunk C (snd (deleteKey key r C))"
    "\<not> c_closed (core C) \<Longrightarrow> look (snd (deleteKey key r C)) key = None \<and> fst (deleteKey key r C) = (look C key \<noteq> None) \<and>
       \<not> overBudget (core (snd (deleteKey key r C)))"
proof -
  let ?i = "shardFor key C"
  have i: "?i < length (shards C)" by (rule shardFor_less [OF ok])
  note o = lockedOp_drops [OF ok i removeKeyLocked_drops, of key r]
  note g = removeKeyLocked_gone [OF cache_locked [OF ok i], of key r]
  have eq: "deleteKey key r C = (if c_closed (core C) then (False, C)
      else (fst (removeKeyLocked key r (core C, shards C ! ?i)), lockedOp ?i (removeKeyLocked key r) C))"
    by (simp add: deleteKey_def Let_def withShard_flush)
  show "cache_ok (snd (deleteKey key r C)) \<and> cshrunk C (snd (deleteKey key r C))" using o ok by (simp add: eq)
  show "look (snd (deleteKey key r C)) key = None \<and> fst (deleteKey key r C) = (look C key \<noteq> None) \<and>
      \<not> overBudget (core (snd (deleteKey key r C)))" if "\<not> c_closed (core C)"
    using that o(3) g look_lockedOp [OF ok refl o(4), of key] by (auto simp: eq look_def [of C])
qed

lemma invalidateRemote_spec: "cache_ok C \<Longrightarrow> cache_ok (invalidateRemote key C) \<and> cshrunk C (invalidateRemote key C)"
  using deleteKey_spec(1) [of C key EvictReasonRemote] by (simp add: invalidateRemote_def)

lemma deleteIfLocked_drops: "drops own (deleteIfLocked key pred)"
  unfolding drops_def
proof (intro allI impI)
  fix c and s :: "('a, 'b) shard" and oth n w assume inv: "locked_ok own oth n w (c, s)"
  note sd = shard_invD [OF locked_invD(2) [OF inv]]
  show "locked_ok own oth n w (snd (deleteIfLocked key pred (c, s))) \<and>
    frozen (fst (snd (deleteIfLocked key pred (c, s)))) = frozen c \<and> shrunk s (snd (snd (deleteIfLocked key pred (c, s))))"
  proof (cases "freshEntryLocked key (c, s)")
    case (Some e)
    then have "e_key e = key" "st_get key (sh_storage s) = Some e" using sd(2) by (auto simp: freshEntryLocked_Some)
    then show ?thesis
      using removeLocked_ok [OF inv, of e EvictReasonDeleted] removeLocked_shrunk [OF sd(1), of e EvictReasonDeleted c] Some inv
      by (simp add: deleteIfLocked_def Let_def case_prod_beta)
  qed (use inv in \<open>simp add: deleteIfLocked_def\<close>)
qed

lemma DeleteIf_spec:
  assumes ok: "cache_ok C"
  shows "cache_ok (snd (DeleteIf key pred C)) \<and> cshrunk C (snd (DeleteIf key pred C))"
  using lockedOp_drops(1,2) [OF ok shardFor_less [OF ok] deleteIfLocked_drops, of key key pred] ok
  by (simp add: DeleteIf_def Let_def withShard_flush)

lemma DeleteMulti_loop_spec:
  "cache_ok C \<Longrightarrow> cache_ok (snd (DeleteMulti_loop ks C)) \<and> cshrunk C (snd (DeleteMulti_loop ks C))"
proof (induction ks arbitrary: C)
  case (Cons k ks)
  note d = deleteKey_spec(1) [OF Cons.prems, of k EvictReasonDeleted]
  show ?case using Cons.IH [of "snd (Delete k C)"] d cshrunk_trans [of C "snd (Delete k C)"]
    by (simp add: Delete_def Let_def case_prod_beta)
qed simp

lemma DeleteMulti_spec: "cache_ok C \<Longrightarrow> cache_ok (snd (DeleteMulti ks C)) \<and> cshrunk C (snd (DeleteMulti ks C))"
  using DeleteMulti_loop_spec [of C ks] by (simp add: DeleteMulti_def)

lemma removeChosen_drops: "drops own (removeChosen ks)"
  unfolding drops_def
proof (intro allI impI)
  show "locked_ok own oth n w (snd (removeChosen ks (c, s))) \<and> frozen (fst (snd (removeChosen ks (c, s)))) = frozen c \<and>
    shrunk s (snd (snd (removeChosen ks (c, s))))"
    if "locked_ok own oth n w (c, s)" for c and s :: "('a, 'b) shard" and oth n w
    using that
  proof (induction ks arbitrary: c s)
    case (Cons k ks)
    note sd = shard_invD [OF locked_invD(2) [OF Cons.prems]]
    show ?case
    proof (cases "st_get k (sh_storage s)")
      case None
      then show ?thesis using Cons.IH [OF Cons.prems] by simp
    next
      case (Some e)
      obtain c1 s1 where r: "removeLocked e EvictReasonDeletedWhere (c, s) = (c1, s1)" by force
      have "locked_ok own oth n w (c1, s1)" "frozen c1 = frozen c" "shrunk s s1"
        using removeLocked_ok [OF Cons.prems, of e EvictReasonDeletedWhere] sd(2) [OF Some] Some
          removeLocked_frozen [of e EvictReasonDeletedWhere c s] removeLocked_shrunk [OF sd(1), of e EvictReasonDeletedWhere c] r
        by simp_all
      then show ?thesis using Cons.IH [of c1 s1] shrunk_trans [of s s1] Some r by (simp add: case_prod_beta)
    qed
  qed simp
qed

lemma deleteWhereLoop_spec:
  "cache_ok C \<Longrightarrow> set is \<subseteq> {..<length (shards C)} \<Longrightarrow>
    cache_ok (snd (deleteWhereLoop is pred C)) \<and> cshrunk C (snd (deleteWhereLoop is pred C))"
proof (induction "is" arbitrary: C)
  case (Cons i "is")
  have i: "i < length (shards C)" using Cons.prems(2) by simp
  let ?f = "removeChosen (chosenBy pred (core C, shards C ! i))"
  note o = lockedOp_drops [OF Cons.prems(1) i removeChosen_drops, of "chosenBy pred (core C, shards C ! i)"]
  have "set is \<subseteq> {..<length (shards (lockedOp i ?f C))}" using Cons.prems(2) cshrunkD(2) [OF o(2)] by simp
  note ih = Cons.IH [OF o(1) this]
  have "snd (deleteWhereLoop (i # is) pred C) = (if chosenBy pred (core C, shards C ! i) = [] then snd (deleteWhereLoop is pred C)
      else snd (deleteWhereLoop is pred (lockedOp i ?f C)))"
    by (simp add: Let_def case_prod_beta lockedOp_def)
  then show ?case using ih o(2) cshrunk_trans [OF o(2)] Cons.IH [OF Cons.prems(1)] Cons.prems(2) by auto
qed simp

lemma DeleteWhere_spec: "cache_ok C \<Longrightarrow> cache_ok (snd (DeleteWhere pred C)) \<and> cshrunk C (snd (DeleteWhere pred C))"
  using deleteWhereLoop_spec [OF _ allShards_sub(1), of C pred] by (simp add: DeleteWhere_def)

section \<open>Tags\<close>

lemma invalidateKeys_spec:
  "cache_ok C \<Longrightarrow> cache_ok (snd (invalidateKeys ks C)) \<and> cshrunk C (snd (invalidateKeys ks C)) \<and>
    (\<forall>k \<in> set ks. look (snd (invalidateKeys ks C)) k = None)"
proof (induction ks arbitrary: C)
  case (Cons k ks)
  let ?C = "snd (invalidateKey k C)"
  note i = invalidateKey_spec [OF Cons.prems, of k]
  note ih = Cons.IH [OF i(1)]
  have "look (snd (invalidateKeys ks ?C)) k = None" using ih cshrunk_none [OF _ i(1) i(3)] by blast
  then show ?case using ih cshrunk_trans [OF i(2)] by (simp add: case_prod_beta)
qed simp

lemma publishTags_quiet [simp]: "quiet (publishTags n tags)"
proof -
  have "quiet (publishEvent ev)" for ev :: "('a, 'b) event" by simp
  then show ?thesis by (simp add: quiet_def publishTags_def)
qed

lemma quiet_tally: "tally f \<Longrightarrow> quiet (count f)"
  by (intro quiet_count) (simp_all add: tally_def)

lemma tagged_indexed: "cache_ok C \<Longrightarrow> look C k = Some e \<Longrightarrow> t \<in> set (e_tags e) \<Longrightarrow> k \<in> set (idx_snapshot t (tg_index (c_tags (core C))))"
  by (auto simp: cache_ok_def tags_ok_def tagsOf_def tagsIn_def look_def tagged_def)

lemma cshrunk_core: "shards C1 = shards C2 \<Longrightarrow> frozen (core C1) = frozen (core C2) \<Longrightarrow> cshrunk C C1 = cshrunk C C2"
  by (simp add: cshrunk_def)

lemma cshrunk_core_left: "shards C1 = shards C2 \<Longrightarrow> frozen (core C1) = frozen (core C2) \<Longrightarrow> cshrunk C1 C = cshrunk C2 C"
  by (simp add: cshrunk_def)

lemma invalidated:
  fixes ks :: "'k list"
  assumes ok: "cache_ok C" and f: "tally f"
  defines "C1 \<equiv> snd (invalidateKeys ks (onCore (count f) C))"
  shows "cache_ok (onCore (publishTags n tags) C1)" "cshrunk C (onCore (publishTags n tags) C1)"
    "k \<in> set ks \<Longrightarrow> look (onCore (publishTags n tags) C1) k = None"
proof -
  note a = onCore_spec [OF quiet_tally [OF f] ok]
  note i = invalidateKeys_spec [OF a(1), of ks, folded C1_def]
  have c1: "cache_ok C1" using i by blast
  note b = onCore_spec [OF publishTags_quiet [of n tags] c1]
  show "cache_ok (onCore (publishTags n tags) C1)" by (rule b(1))
  have "cshrunk C C1" using i cshrunk_core_left [OF a(3,2)] by blast
  then show "cshrunk C (onCore (publishTags n tags) C1)" using cshrunk_core [OF b(3,2)] by blast
  show "k \<in> set ks \<Longrightarrow> look (onCore (publishTags n tags) C1) k = None" using i by (simp add: b(4))
qed

lemma InvalidateTag_spec:
  assumes ok: "cache_ok C"
  shows "cache_ok (snd (InvalidateTag tag C)) \<and> cshrunk C (snd (InvalidateTag tag C))"
    "\<not> c_closed (core C) \<Longrightarrow> k \<in> set (idx_snapshot tag (tg_index (c_tags (core C)))) \<Longrightarrow> look (snd (InvalidateTag tag C)) k = None"
proof -
  let ?f = "sc_tagInvalidations_update (\<lambda>n. n + 1)"
  have t: "c_tags (core (onCore (count ?f) C)) = c_tags (core C)" by (simp add: onCore_def)
  note i = invalidated [OF ok tally_simps(4), where ks = "idx_snapshot tag (tg_index (c_tags (core C)))"]
  show "cache_ok (snd (InvalidateTag tag C)) \<and> cshrunk C (snd (InvalidateTag tag C))"
    using ok i(1,2) by (simp add: InvalidateTag_def Let_def case_prod_beta t)
  show "\<not> c_closed (core C) \<Longrightarrow> k \<in> set (idx_snapshot tag (tg_index (c_tags (core C)))) \<Longrightarrow> look (snd (InvalidateTag tag C)) k = None"
    using i(3) by (simp add: InvalidateTag_def Let_def case_prod_beta t)
qed

lemma InvalidateTags_spec:
  assumes ok: "cache_ok C"
  shows "cache_ok (snd (InvalidateTags tags C)) \<and> cshrunk C (snd (InvalidateTags tags C))"
    "\<not> c_closed (core C) \<Longrightarrow> tag \<in> set tags \<Longrightarrow> k \<in> set (idx_snapshot tag (tg_index (c_tags (core C)))) \<Longrightarrow>
       look (snd (InvalidateTags tags C)) k = None"
proof -
  let ?f = "sc_tagInvalidations_update (\<lambda>n. n + 1)"
  let ?ks = "remdups (concat (map (\<lambda>tag. idx_snapshot tag (tg_index (c_tags (core C)))) tags))"
  have t: "c_tags (core (onCore (count ?f) C)) = c_tags (core C)" by (simp add: onCore_def)
  note i = invalidated [OF ok tally_simps(4), where ks = ?ks]
  show "cache_ok (snd (InvalidateTags tags C)) \<and> cshrunk C (snd (InvalidateTags tags C))"
    using ok i(1,2) by (simp add: InvalidateTags_def Let_def case_prod_beta t)
  show "look (snd (InvalidateTags tags C)) k = None"
    if "\<not> c_closed (core C)" "tag \<in> set tags" "k \<in> set (idx_snapshot tag (tg_index (c_tags (core C))))"
  proof -
    have "k \<in> set ?ks" "tags \<noteq> []" using that by auto
    then show ?thesis using i(3) that(1) by (simp add: InvalidateTags_def Let_def case_prod_beta t)
  qed
qed

section \<open>Emptying a shard\<close>

lemma untag_fold: "fold (untag_one k) ts idx = idx_untag k ts idx"
  by (cases ts) (simp_all add: idx_untag_def)

lemma untag_entries:
  "tagged (fold (\<lambda>e idx. fold (untag_one (e_key e)) (e_tags e) idx) es idx) t k \<longleftrightarrow>
     tagged idx t k \<and> \<not> (\<exists>e \<in> set es. e_key e = k \<and> t \<in> set (e_tags e))"
  "idx_ok idx \<Longrightarrow> idx_ok (fold (\<lambda>e idx. fold (untag_one (e_key e)) (e_tags e) idx) es idx)"
  by (induction es arbitrary: idx) (auto simp: untag_fold idx_untag_spec idx_untag_ok)

lemma tags_ok_untagShard:
  assumes sok: "shard_ok own s" and g: "tags_ok (tagsNow own oth (sh_storage s)) g" and e: "\<And>k. st_get k st = None"
  shows "tags_ok (tagsNow own oth st) (g\<lparr>tg_index := untagShardLocked s (tg_index g)\<rparr>)"
proof -
  let ?cur = "tagsNow own oth (sh_storage s)" and ?cur' = "tagsNow own oth st"
  let ?idx = "untagShardLocked s (tg_index g)"
  have a: "idx_ok (tg_index g)" "\<And>t k. t \<in> set (?cur k) \<Longrightarrow> tagged (tg_index g) t k"
    "\<And>t k. tagged (tg_index g) t k \<Longrightarrow> t \<in> set (?cur k) \<or> pending_untag g t k"
    using g unfolding tags_ok_def by blast+
  have mem: "(\<exists>e \<in> set (map snd (st_each (sh_storage s))). e_key e = k \<and> t \<in> set (e_tags e)) \<longleftrightarrow> own k \<and> t \<in> set (?cur k)" for t k
  proof -
    have "(\<exists>e \<in> set (map snd (st_each (sh_storage s))). e_key e = k \<and> t \<in> set (e_tags e)) \<longleftrightarrow>
        (\<exists>e. st_get k (sh_storage s) = Some e \<and> t \<in> set (e_tags e))"
      using stored_entries(1) [OF sok] shard_invD(2) [OF sok, of k] by metis
    then show ?thesis using shard_invD(3) [OF sok, of k] by (auto simp: tagsNow_def tagsIn_def split: option.splits)
  qed
  have u: "tagged ?idx t k \<longleftrightarrow> tagged (tg_index g) t k \<and> \<not> (own k \<and> t \<in> set (?cur k))" for t k
    unfolding untagShardLocked_def untag_entries(1) mem ..
  have c: "?cur' k = (if own k then [] else ?cur k)" for k using e by (simp add: tagsNow_def tagsIn_def)
  have p: "pending_untag (g\<lparr>tg_index := ?idx\<rparr>) t k = pending_untag g t k" for t k by (simp add: pending_untag_def)
  have "idx_ok ?idx" unfolding untagShardLocked_def by (rule untag_entries(2) [OF a(1)])
  then show ?thesis
    unfolding tags_ok_def p using a(2,3) by (auto simp: u c)
qed

lemma reset_fold:
  fixes c :: "('k, 'v) core"
  defines "step \<equiv> \<lambda>b e c. count_if (b \<and> cf_statsEnabled (c_cfg c))
     (sc_evictionsByReason_update (\<lambda>f. f(EvictReasonClear := f EvictReasonClear + 1)))
     (count (addBytes (- e_weight e) \<circ> addEntries (- 1)) c)"
  shows "c_tags (fold (step b) es c) = c_tags c" "c_events (fold (step b) es c) = c_events c"
    "frozen (fold (step b) es c) = frozen c"
    "sc_entries (c_counters c) = wrap64 x \<Longrightarrow> sc_entries (c_counters (fold (step b) es c)) = wrap64 (x - int (length es))"
    "sc_bytes (c_counters c) = wrap64 y \<Longrightarrow> sc_bytes (c_counters (fold (step b) es c)) = wrap64 (y - sum_list (map e_weight es))"
proof -
  have st: "sc_entries (c_counters (step b e c)) = wrap64 (sc_entries (c_counters c) - 1)"
    "sc_bytes (c_counters (step b e c)) = wrap64 (sc_bytes (c_counters c) - e_weight e)"
    "c_tags (step b e c) = c_tags c" "c_events (step b e c) = c_events c" "frozen (step b e c) = frozen c" for e c
    by (simp_all add: step_def addBytes_def addEntries_def)
  show "c_tags (fold (step b) es c) = c_tags c" "c_events (fold (step b) es c) = c_events c"
    "frozen (fold (step b) es c) = frozen c"
    by (induction es arbitrary: c) (simp_all add: st)
  show "sc_entries (c_counters (fold (step b) es c)) = wrap64 (x - int (length es))" if "sc_entries (c_counters c) = wrap64 x"
    using that
  proof (induction es arbitrary: c x)
    case (Cons e es)
    show ?case using Cons.IH [of "step b e c" "x - 1"] Cons.prems by (simp add: st algebra_simps)
  qed simp
  show "sc_bytes (c_counters (fold (step b) es c)) = wrap64 (y - sum_list (map e_weight es))" if "sc_bytes (c_counters c) = wrap64 y"
    using that
  proof (induction es arbitrary: c y)
    case (Cons e es)
    show ?case using Cons.IH [of "step b e c" "y - e_weight e"] Cons.prems by (simp add: st algebra_simps)
  qed simp
qed

lemma removePolicy_ok: "pol_ok p \<Longrightarrow> pol_ok (fold (\<lambda>e p. pol_onRemove (e_key e) p) es p)"
  by (induction es arbitrary: p) (simp_all add: pol.ok_remove)

lemma resetShardLocked_shard:
  assumes sok: "shard_ok own s"
  shows "shard_ok own (snd (resetShardLocked b (c, s)))" "\<And>k. st_get k (sh_storage (snd (resetShardLocked b (c, s)))) = None"
proof -
  note sd = shard_invD [OF sok]
  define p where "p = pol_reset (fold (\<lambda>e p. pol_onRemove (e_key e) p) (map snd (st_each (sh_storage s))) (sh_policy s))"
  have p: "pol_ok p" "pol_tracked p = {}"
    unfolding p_def by (rule pol.reset_ok pol.reset_tracked, rule removePolicy_ok [OF sd(5)])+
  have f: "fl_ok (supersedeAllFlights (sh_flights s))" by (rule fl_ok_supersedeAll [OF sd(9)])
  have r: "snd (resetShardLocked b (c, s)) = s\<lparr>sh_storage := st_clearAll (sh_storage s),
      sh_flights := supersedeAllFlights (sh_flights s), sh_policy := p, sh_ttl := ttl_Reset (sh_ttl s)\<rparr>"
    by (simp add: resetShardLocked_def Let_def p_def)
  have g: "st_get k (st_clearAll (sh_storage s)) = None" for k by (simp add: st.get_clear [OF sd(1)])
  have "timed (st_clearAll (sh_storage s)) = {}" by (simp add: timed_def expiryOf_def g)
  then show "shard_ok own (snd (resetShardLocked b (c, s)))"
    using p f st.clear_ok [OF sd(1)] ttl.ok_reset [OF sd(7)] ttl.tracked_reset [OF sd(7)]
    unfolding r shard_inv_def by (simp add: g)
  show "\<And>k. st_get k (sh_storage (snd (resetShardLocked b (c, s)))) = None" by (simp add: r g)
qed

lemma resetShardLocked_locked:
  assumes inv: "locked_ok own oth n w (c, s)"
  shows "locked_ok own oth n w (resetShardLocked b (c, s))" "frozen (fst (resetShardLocked b (c, s))) = frozen c"
proof -
  note d = locked_invD [OF inv]
  note sd = shard_invD [OF d(2)]
  note sh = resetShardLocked_shard [OF d(2), where b = b and c = c]
  define g where "g = (c_tags c)\<lparr>tg_index := untagShardLocked s (tg_index (c_tags c))\<rparr>"
  define es where "es = map snd (st_each (sh_storage s))"
  obtain c' where c': "fst (resetShardLocked b (c, s)) = c'" by simp
  note rf = reset_fold [where b = b and es = es and c = "c\<lparr>c_tags := g\<rparr>"]
  have "int (length es) = st_length (sh_storage s)" "sum_list (map e_weight es) = weightIn (sh_storage s)"
    by (simp_all add: es_def st.size_each [OF sd(1)] weightIn_def)
  then have n: "sc_entries (c_counters c') = wrap64 n" "sc_bytes (c_counters c') = wrap64 w"
    using rf(4) [where x = "n + st_length (sh_storage s)"] rf(5) [where y = "w + weightIn (sh_storage s)"] d(3,4) c'
    by (simp_all add: resetShardLocked_def Let_def g_def es_def)
  have t: "c_tags c' = g" "c_events c' = c_events c" "frozen c' = frozen c"
    using rf(1-3) c' by (simp_all add: resetShardLocked_def Let_def g_def es_def)
  show "frozen (fst (resetShardLocked b (c, s))) = frozen c" using t(3) c' by simp
  have "core_ok c'" using d(1) t(2) frozenD(2) [OF t(3)] by (simp add: core_ok_def)
  moreover have "tags_ok (tagsNow own oth (sh_storage (snd (resetShardLocked b (c, s))))) g"
    unfolding g_def by (rule tags_ok_untagShard [OF d(2,5) sh(2)])
  moreover have "st_length (sh_storage (snd (resetShardLocked b (c, s)))) = 0"
    using length_zero [OF shard_invD(1) [OF sh(1)]] sh(2) by blast
  moreover have "weightIn (sh_storage (snd (resetShardLocked b (c, s)))) = 0"
    using weight_clear [OF sd(1)] by (simp add: resetShardLocked_def Let_def)
  ultimately show "locked_ok own oth n w (resetShardLocked b (c, s))"
    using sh(1) n t(1) by (simp add: locked_inv_def c')
qed

lemma resetShardLocked_drops: "drops own (\<lambda>cs. (0 :: int, resetShardLocked b cs))"
proof -
  have "shrunk s (snd (resetShardLocked b (c, s)))" if "locked_ok own oth n w (c, s)" for c s oth n w
    using resetShardLocked_shard(2) [OF locked_invD(2) [OF that]] by (simp add: shrunk_def)
  then show ?thesis unfolding drops_def snd_conv using resetShardLocked_locked by blast
qed

lemma resetAll_spec:
  fixes b :: bool
  assumes ok: "cache_ok C"
  defines "C' \<equiv> snd (overShards (allShards C) (\<lambda>cs. (0, resetShardLocked b cs)) C)"
  shows "cache_ok C'" "cshrunk C C'" "look C' k = None" "\<not> overBudget (core C')"
proof -
  note o = overShards_spec [OF ok allShards_sub(1) resetShardLocked_drops, of b, folded C'_def]
  show "cache_ok C'" "cshrunk C C'" "\<not> overBudget (core C')" using o allShards_sub(2) [OF ok] by blast+
  have "False" if "look C' k = Some e" for e
    using overShards_left [OF ok allShards_sub(1) resetShardLocked_drops _ allShards_sub(3) [OF ok], of b "\<lambda>_. False" k e]
      that resetShardLocked_shard(2) [OF locked_invD(2)] unfolding C'_def by force
  then show "look C' k = None" by (cases "look C' k") auto
qed

lemma quiet_fold: "(\<And>x. x \<in> set xs \<Longrightarrow> quiet (f x)) \<Longrightarrow> quiet (fold f xs)"
  by (induction xs) (simp_all add: quiet_def)

lemma runPurgeVisitor_spec:
  assumes "cache_ok C"
  shows "cache_ok (runPurgeVisitor C)" "frozen (core (runPurgeVisitor C)) = frozen (core C)" "shards (runPurgeVisitor C) = shards C"
  unfolding runPurgeVisitor_def Let_def
  by (intro onCore_spec(1,2,3) [OF quiet_fold assms]; auto)+

lemma Clear_spec:
  assumes ok: "cache_ok C"
  shows "cache_ok (Clear C) \<and> cshrunk C (Clear C)" "\<not> c_closed (core C) \<Longrightarrow> look (Clear C) k = None"
proof -
  note p = runPurgeVisitor_spec [OF ok]
  note r = resetAll_spec [OF p(1), where b = True]
  have "cshrunk C (snd (overShards (allShards (runPurgeVisitor C)) (\<lambda>cs. (0, resetShardLocked True cs)) (runPurgeVisitor C)))"
    using r(2) cshrunk_core_left [OF p(3,2)] by blast
  then show "cache_ok (Clear C) \<and> cshrunk C (Clear C)" using ok r(1) by (simp add: Clear_def Let_def)
  show "\<not> c_closed (core C) \<Longrightarrow> look (Clear C) k = None" using r(3) by (simp add: Clear_def Let_def)
qed

lemma Reset_spec:
  assumes ok: "cache_ok C"
  shows "cache_ok (Reset C)" "cshrunk C (Reset C)" "look (Reset C) k = None" "\<not> overBudget (core (Reset C))"
proof -
  have q: "quiet (\<lambda>c. c\<lparr>c_admission := adm_Reset (c_admission c)\<rparr>)" by (simp add: quiet_def)
  note a = onCore_spec [OF q ok]
  note r = resetAll_spec [OF a(1), where b = False]
  show "cache_ok (Reset C)" "look (Reset C) k = None" "\<not> overBudget (core (Reset C))" using r by (simp_all add: Reset_def Let_def)
  show "cshrunk C (Reset C)" using r(2) cshrunk_core_left [OF a(3,2)] by (simp add: Reset_def Let_def)
qed

section \<open>Closing, resizing and background work\<close>

lemma cache_ok_recore:
  assumes ok: "cache_ok C" and "c_settings c = c_settings (core C)" and "core_ok c"
    and "sc_entries (c_counters c) = sc_entries (c_counters (core C))" and "sc_bytes (c_counters c) = sc_bytes (c_counters (core C))"
    and "tags_ok (tagsOf C) (c_tags c)"
  shows "cache_ok (C\<lparr>core := c\<rparr>)"
proof -
  have sf: "shardFor k (C\<lparr>core := c\<rparr>) = shardFor k C" for k using assms(2) by (intro shardFor_cong) simp_all
  have "tagsOf (C\<lparr>core := c\<rparr>) = tagsOf C" by (simp add: fun_eq_iff tagsOf_def sf)
  moreover have "storedEntries (C\<lparr>core := c\<rparr>) = storedEntries C" "storedWeight (C\<lparr>core := c\<rparr>) = storedWeight C"
    by (simp_all add: storedEntries_def storedWeight_def)
  ultimately show ?thesis using assms unfolding cache_ok_def sf by simp
qed

lemma cache_okD:
  assumes "cache_ok C"
  shows "core_ok (core C)" "tags_ok (tagsOf C) (c_tags (core C))"
  using assms by (simp_all add: cache_ok_def)

lemma look_recore: "c_settings (f (core C)) = c_settings (core C) \<Longrightarrow> look (onCore f C) k = look C k"
  using shardFor_cong [of "onCore f C" C k] by (simp add: look_def onCore_def)

lemma stopJanitors_ok: "cache_ok C \<Longrightarrow> cache_ok (C\<lparr>shards := map stopJanitor (shards C)\<rparr>)"
proof -
  assume ok: "cache_ok C"
  let ?C = "C\<lparr>shards := map stopJanitor (shards C)\<rparr>"
  have sf: "shardFor k ?C = shardFor k C" for k by (intro shardFor_cong) simp_all
  have st: "sh_storage (stopJanitor s) = sh_storage s" for s :: "('a, 'b) shard" by (simp add: stopJanitor_def)
  have t: "tagsOf ?C = tagsOf C" using shardFor_less [OF ok] by (auto simp: fun_eq_iff tagsOf_def sf st)
  have w: "storedEntries ?C = storedEntries C" "storedWeight ?C = storedWeight C"
    by (simp_all add: storedEntries_def storedWeight_def comp_def st)
  have "shard_ok own (stopJanitor s)" if "shard_ok own s" for own and s :: "('a, 'b) shard"
    using that by (simp add: stopJanitor_def)
  then show ?thesis using ok unfolding cache_ok_def sf t w by simp
qed

lemma tags_ok_drained:
  assumes "tags_ok cur g"
  defines "g1 \<equiv> cleanupApply cur g"
  shows "tags_ok cur (g1\<lparr>tg_index := drainRemaining cur (tg_queue g1) (tg_index g1), tg_queue := []\<rparr>)"
proof -
  let ?g = "g1\<lparr>tg_queue := [], tg_batch := tg_queue g1\<rparr>"
  have g1: "tags_ok cur g1" unfolding g1_def by (rule tags_ok_apply [OF assms(1)])
  have "tg_batch g1 = []" by (simp add: g1_def cleanupApply_def)
  then have "pending_untag ?g t k = pending_untag g1 t k" for t k by (simp add: pending_untag_def)
  then have "tags_ok cur ?g" using g1 by (simp add: tags_ok_def)
  from tags_ok_apply [OF this] have "tags_ok cur (cleanupApply cur ?g)" .
  also have "cleanupApply cur ?g = g1\<lparr>tg_index := drainRemaining cur (tg_queue g1) (tg_index g1), tg_queue := []\<rparr>"
    by (simp add: cleanupApply_def drainRemaining_eq g1_def)
  finally show ?thesis .
qed

lemma stopTagCleanup_spec:
  assumes ok: "cache_ok C"
  shows "cache_ok (stopTagCleanup C)" "tagged (tg_index (c_tags (core (stopTagCleanup C)))) t k \<longleftrightarrow> t \<in> set (tagsOf C k)"
    "look (stopTagCleanup C) k = look C k" "c_closed (core (stopTagCleanup C)) = c_closed (core C)"
proof -
  have t: "tags_ok (tagsOf C) (c_tags (core (stopTagCleanup C)))"
    using tags_ok_drained [OF cache_okD(2) [OF ok]] by (simp add: stopTagCleanup_def onCore_def Let_def)
  show "cache_ok (stopTagCleanup C)"
    unfolding stopTagCleanup_def onCore_def using cache_okD(1) [OF ok] t
    by (intro cache_ok_recore [OF ok]) (simp_all add: core_ok_def stopTagCleanup_def onCore_def)
  have "tagCleanupBacklog (c_tags (core (stopTagCleanup C))) = 0"
    by (simp add: stopTagCleanup_def onCore_def Let_def tagCleanupBacklog_def cleanupApply_def)
  then show "tagged (tg_index (c_tags (core (stopTagCleanup C)))) t k \<longleftrightarrow> t \<in> set (tagsOf C k)" by (rule tags_ok_settled [OF t])
  show "look (stopTagCleanup C) k = look C k" by (simp add: look_recore stopTagCleanup_def)
  show "c_closed (core (stopTagCleanup C)) = c_closed (core C)" by (simp add: stopTagCleanup_def onCore_def)
qed

text \<open>\<open>Close\<close> leaves the cache closed, without entries and without indexed tags.\<close>

lemma Close_spec:
  assumes ok: "cache_ok C"
  shows "cache_ok (Close C)" "c_closed (core (Close C))"
    "\<not> c_closed (core C) \<Longrightarrow> look (Close C) k = None \<and> (\<forall>t k. \<not> tagged (tg_index (c_tags (core (Close C)))) t k)"
proof -
  define C1 where "C1 = onCore (\<lambda>c. c\<lparr>c_closed := True, c_sealed := True\<rparr>) C"
  have ok1: "cache_ok C1" unfolding C1_def onCore_def using cache_okD [OF ok] by (intro cache_ok_recore [OF ok]) (simp_all add: core_ok_def)
  define C2 where "C2 = C1\<lparr>shards := map stopJanitor (shards C1)\<rparr>"
  define C3 where "C3 = runPurgeVisitor C2"
  note s3 = runPurgeVisitor_spec [OF stopJanitors_ok [OF ok1], folded C2_def C3_def]
  define C4 where "C4 = Reset C3"
  note s4 = Reset_spec [OF s3(1), folded C4_def]
  define C5 where "C5 = stopTagCleanup C4"
  note s5 = stopTagCleanup_spec [OF s4(1), folded C5_def]
  let ?C6 = "onCore (\<lambda>c. c\<lparr>c_events := eb_close (c_events c)\<rparr>) C5"
  have eq: "Close C = (if c_closed (core C) then C else ?C6)"
    unfolding Close_def Let_def C5_def C4_def C3_def C2_def C1_def ..
  have "cache_ok ?C6" unfolding onCore_def using cache_okD [OF s5(1)]
    by (intro cache_ok_recore [OF s5(1)]) (simp_all add: core_ok_def eb_close_ok)
  then show "cache_ok (Close C)" using ok by (simp add: eq)
  have "c_closed (core C3)" using frozenD(4) [OF s3(2)] by (simp add: C2_def C1_def onCore_def)
  then have "c_closed (core C4)" using frozenD(4) [OF cshrunkD(1) [OF s4(2)]] by simp
  then show "c_closed (core (Close C))" by (simp add: eq s5(4) onCore_def)
  have "look ?C6 k = None" using s4(3) s5(3) by (simp add: look_recore)
  moreover have "\<not> tagged (tg_index (c_tags (core C5))) t i" for t i
    using s4(3) [of i] by (simp add: s5(2) tagsOf_def tagsIn_def look_def)
  ultimately show "\<not> c_closed (core C) \<Longrightarrow> look (Close C) k = None \<and> (\<forall>t k. \<not> tagged (tg_index (c_tags (core (Close C)))) t k)"
    by (simp add: eq onCore_def)
qed

lemma resizeShardLocked_drops: "drops own (resizeShardLocked b)"
  unfolding drops_def
proof (intro allI impI)
  fix c and s :: "('a, 'b) shard" and oth n w assume inv: "locked_ok own oth n w (c, s)"
  note sd = shard_invD [OF locked_invD(2) [OF inv]]
  let ?s = "s\<lparr>sh_budget := b, sh_policy := pol_setBudget b (sh_policy s)\<rparr>"
  have l: "locked_ok own oth n w (c, ?s)"
    using locked_ok_policy [OF inv, of "pol_setBudget b (sh_policy s)"] sd(5)
    by (simp add: pol.setBudget_ok pol.setBudget_tracked locked_inv_def shard_inv_def)
  have "shrunk s ?s" by (simp add: shrunk_def)
  then show "locked_ok own oth n w (snd (resizeShardLocked b (c, s))) \<and> frozen (fst (snd (resizeShardLocked b (c, s)))) = frozen c \<and>
      shrunk s (snd (snd (resizeShardLocked b (c, s))))"
    using evictLoop_ok [OF l] evictLoop_frozen evictLoop_shrunk [OF l] shrunk_trans
    unfolding resizeShardLocked_def evictOverBudgetLocked_def prod.case by blast
qed

lemma resizeShards_spec:
  "cache_ok C \<Longrightarrow> set is \<subseteq> {..<length (shards C)} \<Longrightarrow>
    cache_ok (snd (resizeShards is b C)) \<and> cshrunk C (snd (resizeShards is b C))"
proof (induction "is" arbitrary: C)
  case (Cons i "is")
  have i: "i < length (shards C)" using Cons.prems(2) by simp
  note d = dropsD [OF resizeShardLocked_drops [where b = b] cache_locked [OF Cons.prems(1) i]]
  define C1 where "C1 = snd (withShard i (resizeShardLocked b) C)"
  note w = withShard_ok [OF Cons.prems(1) i d(1), folded C1_def]
  have c1: "cshrunk C C1" using w(2,3) d(2) i by (auto simp: cshrunk_def C1_def withShard_eq nth_list_update)
  have "i < length (shards C1)" using i w(3) by simp
  note r = releaseShard_spec [OF w(1) this]
  have c2: "cshrunk C (releaseShard i C1)" by (rule cshrunk_trans [OF c1 r(2)])
  have "set is \<subseteq> {..<length (shards (releaseShard i C1))}" using Cons.prems(2) cshrunkD(2) [OF c2] by simp
  from Cons.IH [OF r(1) this] cshrunk_trans [OF c2] show ?case by (simp add: C1_def case_prod_beta Let_def)
qed simp

lemma Resize_spec:
  assumes ok: "cache_ok C"
  shows "cache_ok (snd (Resize b C))"
    "\<not> c_closed (core C) \<Longrightarrow> 0 < b \<Longrightarrow> \<not> overBudget (core (snd (Resize b C))) \<and>
       (if cf_maxBytes (c_cfg (core C)) > 0 then c_maxBytes (core (snd (Resize b C))) = b else c_maxEntries (core (snd (Resize b C))) = b)"
    "look (snd (Resize b C)) k = look C k \<or> look (snd (Resize b C)) k = None"
proof -
  define C1 where "C1 = onCore (count (sc_resizes_update (\<lambda>n. n + 1))) C"
  have q: "quiet (count (sc_resizes_update (\<lambda>n. n + 1)))" by (rule quiet_tally) (simp add: tally_def)
  note s1 = onCore_spec [OF q ok, folded C1_def]
  define C2 where "C2 = onCore (\<lambda>c. if cf_maxBytes (c_cfg c) > 0 then c\<lparr>c_maxBytes := b\<rparr> else c\<lparr>c_maxEntries := b\<rparr>) C1"
  have ok2: "cache_ok C2" unfolding C2_def onCore_def using cache_okD [OF s1(1)]
    by (intro cache_ok_recore [OF s1(1)]) (simp_all add: core_ok_def)
  have l2: "look C2 k = look C k" unfolding C2_def by (subst look_recore) (simp_all add: s1(4))
  define perShard where "perShard = perShardBudget (c_maxEntries (core C2)) (int (length (shards C2)))"
  define C3 where "C3 = snd (resizeShards (allShards C2) perShard C2)"
  have s3: "cache_ok C3" "cshrunk C2 C3" using resizeShards_spec [OF ok2 allShards_sub(1), of perShard] by (simp_all add: C3_def)
  define C4 where "C4 = snd (shedOverBudget EvictReasonResize None C3)"
  have s4: "cache_ok C4" "cshrunk C3 C4" "\<not> overBudget (core C4)"
    using shedLoop_spec [OF s3(1), of None "Suc (nat (storedEntries C3))" EvictReasonResize]
    by (simp_all add: C4_def shedOverBudget_def valid_last_def)
  define pub where "pub = (\<lambda>c :: ('a, 'b) core. publishEvent \<lparr>ev_Kind = EventResize, ev_Key = None, ev_Value = None, ev_Reason = None,
      ev_At = c_now c, ev_Tags = [], ev_Err = None\<rparr> c)"
  have q: "quiet pub" using quiet_simps(6) unfolding pub_def quiet_def by blast
  note s5 = onCore_spec [OF q s4(1)]
  have eq: "snd (Resize b C) = (if c_closed (core C) \<or> b \<le> 0 then C else onCore pub C4)"
    unfolding Resize_def Let_def C4_def C3_def C2_def C1_def pub_def perShard_def by (simp add: case_prod_beta)
  have c4: "cshrunk C2 C4" by (rule cshrunk_trans [OF s3(2) s4(2)])
  have fr: "frozen (core (onCore pub C4)) = frozen (core C2)" using s5(2) cshrunkD(1) [OF c4] by simp
  have st: "c_settings (core C1) = c_settings (core C)" using frozenD(1) [OF s1(2)] .
  show "cache_ok (snd (Resize b C))" using ok s5(1) by (simp add: eq)
  show "look (snd (Resize b C)) k = look C k \<or> look (snd (Resize b C)) k = None"
    using cshrunk_look [OF c4 ok2, of k] by (simp add: eq s5(4) l2)
  have "if cf_maxBytes (c_cfg (core C)) > 0 then c_maxBytes (core (onCore pub C4)) = b else c_maxEntries (core (onCore pub C4)) = b"
    using frozenD(5,6) [OF fr] st by (simp add: C2_def onCore_def)
  then show "\<not> c_closed (core C) \<Longrightarrow> 0 < b \<Longrightarrow> \<not> overBudget (core (snd (Resize b C))) \<and>
      (if cf_maxBytes (c_cfg (core C)) > 0 then c_maxBytes (core (snd (Resize b C))) = b else c_maxEntries (core (snd (Resize b C))) = b)"
    using s4(3) by (simp add: eq s5(5))
qed

text \<open>A sweep takes the due keys out of the TTL backend at once and then removes their entries one by
  one: in between, the invariant is the one with those keys as \<open>D\<close>.\<close>

lemma sweep_entries:
  assumes inv: "locked_ok own oth n w (c, s)" and r: "ttl_Sweep (expiryOf (sh_storage s)) (c_now c) (sh_ttl s) = (xs, b)"
  defines "es \<equiv> map (\<lambda>k. the (st_get k (sh_storage s))) xs"
  shows "locked_inv (set xs) own oth n w (c, s\<lparr>sh_ttl := b\<rparr>)" "e \<in> set es \<Longrightarrow> st_get (e_key e) (sh_storage s) = Some e"
    "map e_key es = xs" "distinct xs" "e \<in> set es \<Longrightarrow> e_expired e (c_now c)"
proof -
  note d = locked_invD [OF inv]
  note sd = shard_invD [OF d(2)]
  have t: "time_ok (c_now c)" using d(1) by (simp add: core_ok_def time_ok_def)
  have sub: "set xs \<subseteq> timed (sh_storage s)" and tr: "ttl_tracked b = timed (sh_storage s) - set xs"
    using ttl.sweep_tracked [OF sd(7) t r] sd(8) by auto
  have "shard_inv own (set xs) (s\<lparr>sh_ttl := b\<rparr>)"
    using sd tr ttl.ok_sweep [OF sd(7) t r] unfolding shard_inv_def by simp
  then show "locked_inv (set xs) own oth n w (c, s\<lparr>sh_ttl := b\<rparr>)" using d by (simp add: locked_inv_def)
  have g: "\<exists>e. st_get k (sh_storage s) = Some e \<and> e_key e = k \<and> e_expired e (c_now c)" if "k \<in> set xs" for k
  proof -
    have "expiryOf (sh_storage s) k \<noteq> 0" using sub that by (auto simp: timed_def)
    moreover have "expiryOf (sh_storage s) k \<le> c_now c" by (rule ttl.sweep_due [OF sd(7) t r that])
    ultimately show ?thesis using sd(2) [of k] by (auto simp: expiryOf_def e_expired_def split: option.splits)
  qed
  show "e \<in> set es \<Longrightarrow> st_get (e_key e) (sh_storage s) = Some e" "e \<in> set es \<Longrightarrow> e_expired e (c_now c)"
    using g by (auto simp: es_def) (metis option.sel)+
  show "map e_key es = xs" unfolding es_def map_map comp_def using g by (intro map_idI) (metis option.sel)
  show "distinct xs" by (rule ttl.sweep_distinct [OF sd(7) t r])
qed

lemma sweepExpiredLocked_drops: "drops own sweepExpiredLocked"
  unfolding drops_def
proof (intro allI impI)
  fix c and s :: "('a, 'b) shard" and oth n w assume inv: "locked_ok own oth n w (c, s)"
  obtain xs b where r: "ttl_Sweep (expiryOf (sh_storage s)) (c_now c) (sh_ttl s) = (xs, b)" by force
  note se = sweep_entries [OF inv r]
  let ?es = "map (\<lambda>k. the (st_get k (sh_storage s))) xs" and ?f = "sc_expirations_update (\<lambda>n. n + 1)"
  have st: "st_get (e_key e) (sh_storage (s\<lparr>sh_ttl := b\<rparr>)) = Some e" if "e \<in> set ?es" for e
    using se(2) [OF that] by (cases s) simp
  have dist: "distinct (map e_key ?es)" unfolding se(3) by (rule se(4))
  have keys: "e_key ` set ?es = set xs" using se(3) by (metis list.set_map)
  have "snd (sweepExpiredLocked (c, s)) = removeEntries ?es EvictReasonExpired ?f (c, s\<lparr>sh_ttl := b\<rparr>)"
    by (simp add: sweepExpiredLocked_def r)
  then show "locked_ok own oth n w (snd (sweepExpiredLocked (c, s))) \<and> frozen (fst (snd (sweepExpiredLocked (c, s)))) = frozen c \<and>
      shrunk s (snd (snd (sweepExpiredLocked (c, s))))"
    using removeEntries_spec [OF se(1) st dist tally_simps(2)] unfolding keys by (simp add: shrunk_def)
qed

lemma janitorTickLocked_drops: "drops own janitorTickLocked"
  unfolding drops_def
proof (intro allI impI)
  fix c and s :: "('a, 'b) shard" and oth n w assume inv: "locked_ok own oth n w (c, s)"
  obtain m c1 s1 where r: "sweepExpiredLocked (c, s) = (m, (c1, s1))" by (metis surj_pair)
  have d: "locked_ok own oth n w (c1, s1)" "frozen c1 = frozen c" "shrunk s s1"
    using sweepExpiredLocked_drops [of own, unfolded drops_def, rule_format, OF inv] r by simp_all
  obtain j where "snd (janitorTickLocked (c, s)) = (c1, s1\<lparr>sh_janitor := j\<rparr>)" by (simp add: janitorTickLocked_def r Let_def)
  then show "locked_ok own oth n w (snd (janitorTickLocked (c, s))) \<and> frozen (fst (snd (janitorTickLocked (c, s)))) = frozen c \<and>
      shrunk s (snd (snd (janitorTickLocked (c, s))))"
    using d by (simp add: shrunk_def locked_inv_def)
qed

lemma janitorTick_spec: "cache_ok C \<Longrightarrow> cache_ok (janitorTick i C) \<and> cshrunk C (janitorTick i C)"
  using lockedOp_drops(1,2) [OF _ _ janitorTickLocked_drops, of C i]
  by (simp add: janitorTick_def lockedOp_def case_prod_beta)

lemma cleanup_ok:
  assumes ok: "cache_ok C"
  shows "cache_ok (tagCleanupTake C)" "cache_ok (tagCleanupApply C)"
  unfolding tagCleanupTake_def tagCleanupApply_def onCore_def using cache_okD [OF ok]
  by (intro cache_ok_recore [OF ok]; simp add: core_ok_def tags_ok_take tags_ok_apply)+

lemma Subscribe_ok: "cache_ok C \<Longrightarrow> cache_ok (snd (Subscribe buf kinds C))"
proof -
  assume ok: "cache_ok C"
  let ?b = "snd (eb_subscribe (nat (subscribeBuffer buf (cf_eventsBuffer (c_cfg (core C))))) (kindMask kinds) (c_events (core C)))"
  have "eb_ok ?b" using cache_okD(1) [OF ok] by (simp add: core_ok_def eb_subscribe_ok)
  then have "cache_ok (C\<lparr>core := (core C)\<lparr>c_events := ?b\<rparr>\<rparr>)"
    using cache_okD [OF ok] by (intro cache_ok_recore [OF ok]) (simp_all add: core_ok_def)
  then show ?thesis by (simp add: Subscribe_def case_prod_beta onCore_def)
qed

end
