(* ===== verification/Cache_Compute.thy ===== *)
theory Cache_Compute
  imports Cache_Delete
begin

text \<open>
  Atomic read-modify-write (compute.go). A callback is a function of the value it is given; it is called
  under the lock of the shard, so that the whole operation is one step. A nil callback is \<^const>\<open>None\<close>.
  The detection of a callback that calls back into its own shard (\<open>enterCompute\<close>, a panic) is outside
  the model, in which a callback has no access to the cache.
\<close>

section \<open>Operations\<close>

datatype computeAction = ComputeStore | ComputeDelete | ComputeNoOp | ComputeUndefined "8 word"

text \<open>\<open>currentLocked\<close> without a \<open>Store\<close>.\<close>

definition currentLocked :: "'k \<Rightarrow> ('k, 'v) locked \<Rightarrow> ('k, 'v) entry option \<times> 'v \<times> bool" where
  "currentLocked key cs =
     (let zero = ty_zeroV (c_types (fst cs))
      in case freshEntryLocked key cs of
           Some e \<Rightarrow> (Some e, e_loadValue zero e, True)
         | None \<Rightarrow> (None, zero, False))"

definition replaceValueLocked :: "('k, 'v) entry \<Rightarrow> 'v \<Rightarrow> int \<Rightarrow> ('k, 'v) locked \<Rightarrow> ('k, 'v) locked" where
  "replaceValueLocked e v weight cs =
     (case cs of (c, s) \<Rightarrow>
        let key = e_key e;
            s = s\<lparr>sh_flights := supersedeFlight key (sh_flights s)\<rparr>;
            c = count (addBytes (weight - e_weight e)) c;
            s = putEntry ((e_storeValue v e)\<lparr>e_weight := weight, e_lastAccess := c_now c, e_hits := 0\<rparr>) s;
            s = s\<lparr>sh_policy := pol_onUpdate key (sh_policy s)\<rparr>;
            c = count_if (cf_statsEnabled (c_cfg c)) (sc_updates_update (\<lambda>n. n + 1)) c
        in (publishEvent (keyEvent EventUpdate key v (e_tags e) c) c, s))"

definition storeComputedLocked :: "'k \<Rightarrow> 'v \<Rightarrow> int \<Rightarrow> ('k, 'v) locked \<Rightarrow> ('k, 'v) locked" where
  "storeComputedLocked key v weight cs =
     (case freshEntryLocked key cs of
        Some e \<Rightarrow> replaceValueLocked e v weight cs
      | None \<Rightarrow> upsertDefault key v weight [] cs)"

definition replaceOrStoreLocked :: "('k, 'v) entry option \<Rightarrow> 'k \<Rightarrow> 'v \<Rightarrow> int \<Rightarrow> ('k, 'v) locked \<Rightarrow> ('k, 'v) locked" where
  "replaceOrStoreLocked e key v weight cs =
     (case e of Some e \<Rightarrow> replaceValueLocked e v weight cs | None \<Rightarrow> storeComputedLocked key v weight cs)"

definition computeLocked :: "'k \<Rightarrow> ('v \<Rightarrow> bool \<Rightarrow> 'k error + 'v \<times> computeAction) \<Rightarrow> ('k, 'v) locked \<Rightarrow>
    ('k error + 'v) \<times> ('k, 'v) locked" where
  "computeLocked key fn cs =
     (let zero = ty_zeroV (c_types (fst cs)); (e, current, present) = currentLocked key cs
      in case fn current present of
           Inl err \<Rightarrow> (Inl err, cs)
         | Inr (newValue, action) \<Rightarrow>
             (case action of
                ComputeStore \<Rightarrow>
                  (case computeWeight (fst cs) key newValue of
                     Inl err \<Rightarrow> (Inl err, cs)
                   | Inr weight \<Rightarrow> (Inr newValue, replaceOrStoreLocked e key newValue weight cs))
              | ComputeDelete \<Rightarrow>
                  (Inr zero, case e of Some e \<Rightarrow> removeLocked e EvictReasonComputed cs | None \<Rightarrow> cs)
              | ComputeNoOp \<Rightarrow> (Inr (if present then current else zero), cs)
              | ComputeUndefined _ \<Rightarrow> (Inl (Wrapped errUnknownComputeAction), cs)))"

definition Compute :: "'k \<Rightarrow> ('v \<Rightarrow> bool \<Rightarrow> 'k error + 'v \<times> computeAction) option \<Rightarrow> ('k, 'v) cache \<Rightarrow>
    ('k error + 'v) \<times> ('k, 'v) cache" where
  "Compute key fn C =
     (if c_closed (core C) then (Inl ErrClosed, C)
      else case fn of
             None \<Rightarrow> (Inl errNilComputeFn, C)
           | Some fn \<Rightarrow>
               let i = shardFor key C; (r, C) = withShard i (computeLocked key fn) C in (r, flushAndUnlock i C))"

definition computeIfAbsentLocked :: "'k \<Rightarrow> 'k error + 'v \<times> int \<Rightarrow> ('k, 'v) locked \<Rightarrow>
    ('k error + 'v \<times> bool) \<times> ('k, 'v) locked" where
  "computeIfAbsentLocked key result cs =
     (let (e, current, present) = currentLocked key cs
      in if present then (Inr (current, False), cs)
         else case result of
                Inl err \<Rightarrow> (Inl err, cs)
              | Inr (v, ttl) \<Rightarrow>
                  if ttl < 0 then (Inl ErrInvalidTTL, cs)
                  else case computeWeight (fst cs) key v of
                         Inl err \<Rightarrow> (Inl err, cs)
                       | Inr weight \<Rightarrow>
                           let ttl = (if ttl = 0 then cf_defaultTTL (c_cfg (fst cs)) else ttl)
                           in (Inr (v, True), upsertTTL key v weight ttl (cf_slidingTTL (c_cfg (fst cs))) [] cs))"

text \<open>The result \<open>fn\<close> gives when it is called.\<close>

definition ComputeIfAbsent :: "'k \<Rightarrow> ('k error + 'v \<times> int) option \<Rightarrow> ('k, 'v) cache \<Rightarrow>
    ('k error + 'v \<times> bool) \<times> ('k, 'v) cache" where
  "ComputeIfAbsent key fn C =
     (if c_closed (core C) then (Inl ErrClosed, C)
      else case fn of
             None \<Rightarrow> (Inl errNilComputeFn, C)
           | Some result \<Rightarrow>
               let i = shardFor key C; (r, C) = withShard i (computeIfAbsentLocked key result) C
               in (r, flushAndUnlock i C))"

definition computeIfPresentLocked :: "'k \<Rightarrow> ('v \<Rightarrow> 'k error + 'v \<times> computeAction) \<Rightarrow> ('k, 'v) locked \<Rightarrow>
    ('k error + 'v) \<times> ('k, 'v) locked" where
  "computeIfPresentLocked key fn cs =
     (let zero = ty_zeroV (c_types (fst cs)); (e, current, present) = currentLocked key cs
      in if \<not> present then (Inr zero, cs)
         else case fn current of
                Inl err \<Rightarrow> (Inl err, cs)
              | Inr (newValue, action) \<Rightarrow>
                  (case action of
                     ComputeStore \<Rightarrow>
                       (case computeWeight (fst cs) key newValue of
                          Inl err \<Rightarrow> (Inl err, cs)
                        | Inr weight \<Rightarrow> (Inr newValue, replaceOrStoreLocked e key newValue weight cs))
                   | ComputeDelete \<Rightarrow>
                       (Inr zero, case e of Some e \<Rightarrow> removeLocked e EvictReasonComputed cs | None \<Rightarrow> cs)
                   | ComputeNoOp \<Rightarrow> (Inr current, cs)
                   | ComputeUndefined _ \<Rightarrow> (Inl (Wrapped errUnknownComputeAction), cs)))"

definition ComputeIfPresent :: "'k \<Rightarrow> ('v \<Rightarrow> 'k error + 'v \<times> computeAction) option \<Rightarrow> ('k, 'v) cache \<Rightarrow>
    ('k error + 'v) \<times> ('k, 'v) cache" where
  "ComputeIfPresent key fn C =
     (if c_closed (core C) then (Inl ErrClosed, C)
      else case fn of
             None \<Rightarrow> (Inl errNilComputeFn, C)
           | Some fn \<Rightarrow>
               let i = shardFor key C; (r, C) = withShard i (computeIfPresentLocked key fn) C
               in (r, flushAndUnlock i C))"

definition updateLocked :: "'k \<Rightarrow> ('v \<Rightarrow> 'v) \<Rightarrow> ('k, 'v) locked \<Rightarrow> ('k error + 'v) \<times> ('k, 'v) locked" where
  "updateLocked key fn cs =
     (let (e, current, present) = currentLocked key cs
      in if \<not> present then (Inl ErrNotFound, cs)
         else case computeWeight (fst cs) key (fn current) of
                Inl err \<Rightarrow> (Inl err, cs)
              | Inr weight \<Rightarrow> (Inr (fn current), replaceOrStoreLocked e key (fn current) weight cs))"

definition Update :: "'k \<Rightarrow> ('v \<Rightarrow> 'v) option \<Rightarrow> ('k, 'v) cache \<Rightarrow> ('k error + 'v) \<times> ('k, 'v) cache" where
  "Update key fn C =
     (case fn of
        None \<Rightarrow> (Inl errNilComputeFn, C)
      | Some fn \<Rightarrow>
          if c_closed (core C) then (Inl ErrClosed, C)
          else let i = shardFor key C; (r, C) = withShard i (updateLocked key fn) C in (r, flushAndUnlock i C))"

text \<open>\<open>deepEqual\<close> is \<open>reflect.DeepEqual\<close> on the values.\<close>

definition compareAndSwapLocked :: "('v \<Rightarrow> 'v \<Rightarrow> bool) \<Rightarrow> 'k \<Rightarrow> 'v \<Rightarrow> 'v \<Rightarrow> ('k, 'v) locked \<Rightarrow> bool \<times> ('k, 'v) locked" where
  "compareAndSwapLocked deepEqual key old newValue cs =
     (let (e, current, present) = currentLocked key cs
      in if \<not> present then (False, cs)
         else if \<not> deepEqual current old then (False, cs)
         else case computeWeight (fst cs) key newValue of
                Inl _ \<Rightarrow> (False, cs)
              | Inr weight \<Rightarrow> (True, replaceOrStoreLocked e key newValue weight cs))"

definition CompareAndSwap :: "('v \<Rightarrow> 'v \<Rightarrow> bool) \<Rightarrow> 'k \<Rightarrow> 'v \<Rightarrow> 'v \<Rightarrow> ('k, 'v) cache \<Rightarrow> bool \<times> ('k, 'v) cache" where
  "CompareAndSwap deepEqual key old newValue C =
     (if c_closed (core C) then (False, C)
      else let i = shardFor key C; (r, C) = withShard i (compareAndSwapLocked deepEqual key old newValue) C
           in (r, flushAndUnlock i C))"

text \<open>The arithmetic is that of the value type: for a \<open>'w word\<close> it wraps around.\<close>

definition IncrementBy :: "'k \<Rightarrow> 'v :: plus \<Rightarrow> ('k, 'v) cache \<Rightarrow> ('k error + 'v) \<times> ('k, 'v) cache" where
  "IncrementBy key delta C = Compute key (Some (\<lambda>cur _. Inr (cur + delta, ComputeStore))) C"

definition Increment :: "'k \<Rightarrow> ('k, 'v :: {plus, one}) cache \<Rightarrow> ('k error + 'v) \<times> ('k, 'v) cache" where
  "Increment key C = IncrementBy key 1 C"

definition decrementDelta :: "'v :: {zero, one, minus}" where
  "decrementDelta = 0 - 1"

definition Decrement :: "'k \<Rightarrow> ('k, 'v :: {plus, zero, one, minus}) cache \<Rightarrow> ('k error + 'v) \<times> ('k, 'v) cache" where
  "Decrement key C = IncrementBy key decrementDelta C"

section \<open>Replacing a value\<close>

text \<open>An entry whose weight changes while the byte counter moves by \<open>d\<close>: the counter stays exact when
  \<open>d\<close> is the change of the weight, and is off by the difference otherwise.\<close>

lemma locked_ok_reweigh:
  assumes inv: "locked_ok own oth n w (c, s)" and old: "st_get (e_key e) (sh_storage s) = Some e0"
    and s': "sh_storage s' = st_set (e_key e) e (sh_storage s)" "shard_ok own s'" and t: "e_tags e = e_tags e0"
    and c': "sc_entries (c_counters c') = sc_entries (c_counters c)"
      "sc_bytes (c_counters c') = wrap64 (sc_bytes (c_counters c) + d)" "c_tags c' = c_tags c"
      "c_now c' = c_now c" "eb_ok (c_events c) \<Longrightarrow> eb_ok (c_events c')"
  shows "locked_ok own oth n (w + d - (e_weight e - e_weight e0)) (c', s')"
proof -
  note l = locked_invD [OF inv]
  note sd = shard_invD [OF l(2)]
  have own: "own (e_key e)" using sd(3) [OF old] .
  have "tagsNow own oth (st_set (e_key e) e (sh_storage s)) = tagsNow own oth (sh_storage s)"
    using old own t by (auto simp: tagsNow_set [where own = own, OF sd(1) own] fun_eq_iff tagsNow_def tagsIn_def)
  moreover have "sc_bytes (c_counters c') = wrap64 (w + d - (e_weight e - e_weight e0) + weightIn (st_set (e_key e) e (sh_storage s)))"
    using weight_set [OF sd(1), of "e_key e" e] old wrap64_add [of "w + weightIn (sh_storage s)" d]
    by (simp add: c'(2) l(4) algebra_simps)
  ultimately show ?thesis
    using l(1,3,5) s' c' st.size_set_old [OF sd(1) old, of e] by (simp add: locked_inv_def core_ok_def)
qed

lemma replaceValueLocked_ok:
  assumes inv: "locked_ok own oth n w (c, s)" and e: "st_get (e_key e) (sh_storage s) = Some e"
    and w: "1 \<le> weight" "weight \<le> maxEntryWeight"
  shows "locked_ok own oth n w (replaceValueLocked e v weight (c, s))" "frozen (fst (replaceValueLocked e v weight (c, s))) = frozen c"
proof -
  note sd = shard_invD [OF locked_invD(2) [OF inv]]
  define f where "f = supersedeFlight (e_key e) (sh_flights s)"
  define e' where "e' = (e_storeValue v e)\<lparr>e_weight := weight, e_lastAccess := c_now c, e_hits := 0\<rparr>"
  have e': "e_key e' = e_key e" "e_tags e' = e_tags e" "e_weight e' = weight" "e_expireAt e' = e_expireAt e" "entry_ok e'"
    using sd(4) [OF e] w by (simp_all add: e'_def e_storeValue_def entry_ok_def)
  define s1 where "s1 = s\<lparr>sh_flights := f\<rparr>"
  have s1: "shard_ok own s1" "sh_storage s1 = sh_storage s" "sh_policy s1 = sh_policy s"
    using shard_inv_flights [OF locked_invD(2) [OF inv] fl_ok_supersede [OF sd(9)]] by (simp_all add: s1_def f_def)
  have old: "st_get (e_key e') (sh_storage s1) = Some e" using e e'(1) s1(2) by simp
  define s2 where "s2 = (putEntry e' s1)\<lparr>sh_policy := pol_onUpdate (e_key e) (sh_policy s)\<rparr>"
  have "shard_ok own (putEntry e' s1)" by (rule shard_ok_rewrite [OF s1(1) old e'(5,4)])
  then have s2: "shard_ok own s2" unfolding s2_def
    by (rule shard_inv_policy) (simp_all add: putEntry_def s1(3) pol.ok_update pol.tracked_update sd(5))
  define c' where "c' = fst (replaceValueLocked e v weight (c, s))"
  have c': "sc_entries (c_counters c') = sc_entries (c_counters c)"
    "sc_bytes (c_counters c') = wrap64 (sc_bytes (c_counters c) + (weight - e_weight e))" "c_tags c' = c_tags c"
    "frozen c' = frozen c" "eb_ok (c_events c) \<Longrightarrow> eb_ok (c_events c')"
    by (simp_all add: c'_def replaceValueLocked_def Let_def)
  have r: "replaceValueLocked e v weight (c, s) = (c', s2)"
    by (simp add: c'_def s2_def s1_def f_def e'_def replaceValueLocked_def Let_def putEntry_def)
  have "locked_ok own oth n (w + (weight - e_weight e) - (e_weight e' - e_weight e)) (c', s2)"
    using old frozenD(2) [OF c'(4)] c' s2
    by (intro locked_ok_reweigh [OF inv]) (simp_all add: s1(2) s2_def putEntry_def e')
  then show "locked_ok own oth n w (replaceValueLocked e v weight (c, s))" by (simp add: r e'(3))
  show "frozen (fst (replaceValueLocked e v weight (c, s))) = frozen c" using c'(4) by (simp add: r)
qed

lemma replaceValueLocked_upserted:
  assumes "st_ok (sh_storage s)" and "\<not> flags_has (e_flags e) flagNegative"
  shows "upserted (e_key e) v s (snd (replaceValueLocked e v weight (c, s)))"
  using assms by (simp add: upserted_def replaceValueLocked_def Let_def putEntry_def st.get_set e_storeValue_def)

text \<open>What a computed value is stored with.\<close>

lemma replaceOrStoreLocked_spec:
  assumes inv: "locked_ok own oth n w (c, s)" and own: "own key" and t: "cf_defaultTTL (c_cfg c) \<le> ttl_max"
    and w: "computeWeight c key v = Inr weight"
  defines "cs \<equiv> replaceOrStoreLocked (freshEntryLocked key (c, s)) key v weight (c, s)"
  shows "locked_ok own oth n w cs" "frozen (fst cs) = frozen c" "\<not> c_sealed c \<Longrightarrow> upserted key v s (snd cs)"
proof -
  note sd = shard_invD [OF locked_invD(2) [OF inv]]
  have r: "1 \<le> weight" "weight \<le> maxEntryWeight" using computeWeight_range [OF w] by auto
  have "locked_ok own oth n w cs \<and> frozen (fst cs) = frozen c \<and> (\<not> c_sealed c \<longrightarrow> upserted key v s (snd cs))"
  proof (cases "freshEntryLocked key (c, s)")
    case None
    obtain c' s' where u: "upsertTTL key v weight (cf_defaultTTL (c_cfg c)) (cf_slidingTTL (c_cfg c)) [] (c, s) = (c', s')" by force
    have "cs = (c', s')" using u None by (simp add: cs_def replaceOrStoreLocked_def storeComputedLocked_def upsertDefault_def)
    then show ?thesis using upsertTTL_spec [OF inv own r t u] by simp
  next
    case (Some e)
    then have e: "st_get key (sh_storage s) = Some e" "\<not> flags_has (e_flags e) flagNegative" by (simp_all add: freshEntryLocked_Some)
    have k: "e_key e = key" using sd(2) [OF e(1)] .
    have "cs = replaceValueLocked e v weight (c, s)" using Some by (simp add: cs_def replaceOrStoreLocked_def)
    then show ?thesis
      using replaceValueLocked_ok [OF inv _ r, of e v] replaceValueLocked_upserted [OF sd(1) e(2), of v weight c] e(1) k by simp
  qed
  then show "locked_ok own oth n w cs" "frozen (fst cs) = frozen c" "\<not> c_sealed c \<Longrightarrow> upserted key v s (snd cs)" by blast+
qed

section \<open>Sections that write one key\<close>

text \<open>A section with the outcome it has for the entries: \<open>stored cs = Some v\<close> when it writes \<open>v\<close> to the key;
  otherwise it only takes entries out.\<close>

definition writes :: "'k \<Rightarrow> (('k, 'v) locked \<Rightarrow> 'v option) \<Rightarrow> ('k \<Rightarrow> bool) \<Rightarrow> (('k, 'v) locked \<Rightarrow> 'r \<times> ('k, 'v) locked) \<Rightarrow> ('k, 'v) core \<Rightarrow> bool" where
  "writes key stored own f c \<longleftrightarrow> (\<forall>s oth n w. locked_ok own oth n w (c, s) \<longrightarrow>
     locked_ok own oth n w (snd (f (c, s))) \<and> frozen (fst (snd (f (c, s)))) = frozen c \<and>
     (case stored (c, s) of
        Some v \<Rightarrow> \<not> c_sealed c \<longrightarrow> upserted key v s (snd (snd (f (c, s))))
      | None \<Rightarrow> shrunk s (snd (snd (f (c, s))))))"

lemma lockedOp_writes:
  assumes ok: "cache_ok C" and w: "writes key stored (\<lambda>k. shardFor k C = shardFor key C) f (core C)"
  defines "i \<equiv> shardFor key C"
  shows "cache_ok (lockedOp i f C)" "frozen (core (lockedOp i f C)) = frozen (core C)" "\<not> overBudget (core (lockedOp i f C))"
    "stored (core C, shards C ! i) = Some v \<Longrightarrow> \<not> c_sealed (core C) \<Longrightarrow> wrote key v C (lockedOp i f C)"
    "stored (core C, shards C ! i) = None \<Longrightarrow> cshrunk C (lockedOp i f C)"
proof -
  have i: "i < length (shards C)" unfolding i_def by (rule shardFor_less [OF ok])
  note l = cache_locked [OF ok i]
  note w = w [folded i_def, unfolded writes_def, rule_format]
  have k: "keeps (\<lambda>k. shardFor k C = i) f (core C, shards C ! i)" using w [OF l] w by (auto simp: keeps_def)
  show "cache_ok (lockedOp i f C)" "frozen (core (lockedOp i f C)) = frozen (core C)" "\<not> overBudget (core (lockedOp i f C))"
    using lockedOp_spec [OF ok i k] by blast+
  show "stored (core C, shards C ! i) = Some v \<Longrightarrow> \<not> c_sealed (core C) \<Longrightarrow> wrote key v C (lockedOp i f C)"
    using w [OF l] by (intro lockedOp_wrote [OF ok meta_eq_to_obj_eq [OF i_def] k]) simp
  show "stored (core C, shards C ! i) = None \<Longrightarrow> cshrunk C (lockedOp i f C)"
    using w [OF l] by (intro lockedOp_shrinks [OF ok i k]) simp
qed

text \<open>Every compute operation ends in one of three ways.\<close>

definition endsIn :: "'k \<Rightarrow> (('k, 'v) locked \<Rightarrow> 'v option) \<Rightarrow> (('k, 'v) locked \<Rightarrow> 'r \<times> ('k, 'v) locked) \<Rightarrow>
    ('k, 'v) core \<Rightarrow> ('k, 'v) shard \<Rightarrow> bool" where
  "endsIn key stored f c s \<longleftrightarrow>
     (snd (f (c, s)) = (c, s) \<and> stored (c, s) = None) \<or>
     (\<exists>e r. freshEntryLocked key (c, s) = Some e \<and> snd (f (c, s)) = removeLocked e r (c, s) \<and> stored (c, s) = None) \<or>
     (\<exists>v weight. computeWeight c key v = Inr weight \<and>
        snd (f (c, s)) = replaceOrStoreLocked (freshEntryLocked key (c, s)) key v weight (c, s) \<and> stored (c, s) = Some v)"

lemma writesI:
  assumes t: "cf_defaultTTL (c_cfg c) \<le> ttl_max" and own: "own key" and f: "\<And>s. endsIn key stored f c s"
  shows "writes key stored own f c"
  unfolding writes_def
proof (intro allI impI)
  fix s oth n w assume inv: "locked_ok own oth n w (c, s)"
  note sd = shard_invD [OF locked_invD(2) [OF inv]]
  consider "snd (f (c, s)) = (c, s)" "stored (c, s) = None"
    | e r where "freshEntryLocked key (c, s) = Some e" "snd (f (c, s)) = removeLocked e r (c, s)" "stored (c, s) = None"
    | v weight where "computeWeight c key v = Inr weight"
        "snd (f (c, s)) = replaceOrStoreLocked (freshEntryLocked key (c, s)) key v weight (c, s)" "stored (c, s) = Some v"
    using f [of s] unfolding endsIn_def by (elim disjE exE conjE) blast+
  then show "locked_ok own oth n w (snd (f (c, s))) \<and> frozen (fst (snd (f (c, s)))) = frozen c \<and>
      (case stored (c, s) of Some v \<Rightarrow> \<not> c_sealed c \<longrightarrow> upserted key v s (snd (snd (f (c, s))))
       | None \<Rightarrow> shrunk s (snd (snd (f (c, s)))))"
  proof cases
    case 1
    then show ?thesis using inv by simp
  next
    case (2 e r)
    then have "st_get (e_key e) (sh_storage s) = Some e" using sd(2) by (auto simp: freshEntryLocked_Some)
    then show ?thesis using removeLocked_ok [OF inv] removeLocked_shrunk [OF sd(1)] 2 by simp
  next
    case (3 v weight)
    then show ?thesis using replaceOrStoreLocked_spec [OF inv own t 3(1)] by simp
  qed
qed

text \<open>The value a compute operation is to store.\<close>

definition computed :: "'k \<Rightarrow> ('v \<Rightarrow> bool \<Rightarrow> 'k error + 'v \<times> computeAction) \<Rightarrow> ('k, 'v) locked \<Rightarrow> 'v option" where
  "computed key fn cs =
     (case currentLocked key cs of (_, current, present) \<Rightarrow>
        case fn current present of
          Inr (v, ComputeStore) \<Rightarrow> if isl (computeWeight (fst cs) key v) then None else Some v
        | _ \<Rightarrow> None)"

lemma currentLocked_fst: "fst (currentLocked key cs) = freshEntryLocked key cs"
  by (simp add: currentLocked_def Let_def split: option.split)

lemma currentLocked_present: "snd (snd (currentLocked key cs)) \<longleftrightarrow> fst (currentLocked key cs) \<noteq> None"
  by (simp add: currentLocked_def Let_def split: option.split)

lemma computeLocked_writes:
  assumes "cf_defaultTTL (c_cfg c) \<le> ttl_max" and "own key"
  shows "writes key (computed key (fn)) own (computeLocked key fn) c"
proof (rule writesI [where own = own and key = key, OF assms])
  fix s
  obtain e current present where cur: "currentLocked key (c, s) = (e, current, present)" by (metis surj_pair)
  have e: "freshEntryLocked key (c, s) = e" using currentLocked_fst [of key "(c, s)"] cur by simp
  have p: "present \<longleftrightarrow> e \<noteq> None" using currentLocked_present [of key "(c, s)"] cur by simp
  show "endsIn key (computed key (fn)) (computeLocked key fn) c s"
    unfolding endsIn_def computeLocked_def computed_def Let_def cur e
    using p by (auto split: sum.split prod.split computeAction.split option.split)
qed

lemma computeIfPresentLocked_writes:
  assumes "cf_defaultTTL (c_cfg c) \<le> ttl_max" and "own key"
  shows "writes key (computed key (\<lambda>v present. if present then fn v else Inr (v, ComputeNoOp))) own (computeIfPresentLocked key fn) c"
proof (rule writesI [where own = own and key = key, OF assms])
  fix s
  obtain e current present where cur: "currentLocked key (c, s) = (e, current, present)" by (metis surj_pair)
  have e: "freshEntryLocked key (c, s) = e" using currentLocked_fst [of key "(c, s)"] cur by simp
  have p: "present \<longleftrightarrow> e \<noteq> None" using currentLocked_present [of key "(c, s)"] cur by simp
  show "endsIn key (computed key (\<lambda>v present. if present then fn v else Inr (v, ComputeNoOp))) (computeIfPresentLocked key fn) c s"
    unfolding endsIn_def computeIfPresentLocked_def computed_def Let_def cur e
    using p by (auto split: sum.split prod.split computeAction.split option.split)
qed

lemma updateLocked_writes:
  assumes "cf_defaultTTL (c_cfg c) \<le> ttl_max" and "own key"
  shows "writes key (computed key (\<lambda>v present. if present then Inr (fn v, ComputeStore) else Inl ErrNotFound)) own (updateLocked key fn) c"
proof (rule writesI [where own = own and key = key, OF assms])
  fix s
  obtain e current present where cur: "currentLocked key (c, s) = (e, current, present)" by (metis surj_pair)
  have e: "freshEntryLocked key (c, s) = e" using currentLocked_fst [of key "(c, s)"] cur by simp
  have p: "present \<longleftrightarrow> e \<noteq> None" using currentLocked_present [of key "(c, s)"] cur by simp
  show "endsIn key (computed key (\<lambda>v present. if present then Inr (fn v, ComputeStore) else Inl ErrNotFound)) (updateLocked key fn) c s"
    unfolding endsIn_def updateLocked_def computed_def Let_def cur e
    using p by (auto split: sum.split prod.split computeAction.split option.split)
qed

lemma compareAndSwapLocked_writes:
  assumes "cf_defaultTTL (c_cfg c) \<le> ttl_max" and "own key"
  shows "writes key (computed key (\<lambda>v present. if present \<and> deepEqual v old then Inr (new, ComputeStore) else Inl ErrNotFound)) own (compareAndSwapLocked deepEqual key old new) c"
proof (rule writesI [where own = own and key = key, OF assms])
  fix s
  obtain e current present where cur: "currentLocked key (c, s) = (e, current, present)" by (metis surj_pair)
  have e: "freshEntryLocked key (c, s) = e" using currentLocked_fst [of key "(c, s)"] cur by simp
  have p: "present \<longleftrightarrow> e \<noteq> None" using currentLocked_present [of key "(c, s)"] cur by simp
  show "endsIn key (computed key (\<lambda>v present. if present \<and> deepEqual v old then Inr (new, ComputeStore) else Inl ErrNotFound)) (compareAndSwapLocked deepEqual key old new) c s"
    unfolding endsIn_def compareAndSwapLocked_def computed_def Let_def cur e
    using p by (auto split: sum.split prod.split computeAction.split option.split)
qed

section \<open>The operations\<close>

text \<open>The current value of a key, as the callbacks see it.\<close>

definition current :: "'k \<Rightarrow> ('k, 'v) cache \<Rightarrow> 'v \<times> bool" where
  "current key C = snd (currentLocked key (core C, shards C ! shardFor key C))"

lemma current_look:
  "current key C =
     (case look C key of
        Some e \<Rightarrow> if flags_has (e_flags e) flagNegative \<or> entryExpiredLocked (core C) e then (ty_zeroV (c_types (core C)), False)
          else (e_loadValue (ty_zeroV (c_types (core C))) e, True)
      | None \<Rightarrow> (ty_zeroV (c_types (core C)), False))"
  by (simp add: current_def currentLocked_def Let_def freshEntryLocked_def look_def split: option.split)

lemma writes_op:
  assumes ok: "cache_ok C" and w: "writes key (computed key fn) (\<lambda>k. shardFor k C = shardFor key C) f (core C)"
    and open_: "\<not> c_sealed (core C)"
  defines "C' \<equiv> lockedOp (shardFor key C) f C"
  shows "cache_ok C'" "frozen (core C') = frozen (core C)" "\<not> overBudget (core C')"
    "case fn (fst (current key C)) (snd (current key C)) of
       Inr (v, ComputeStore) \<Rightarrow> if isl (computeWeight (core C) key v) then cshrunk C C' else wrote key v C C'
     | _ \<Rightarrow> cshrunk C C'"
proof -
  note l = lockedOp_writes [OF ok w, folded C'_def]
  show "cache_ok C'" "frozen (core C') = frozen (core C)" "\<not> overBudget (core C')" using l(1-3) by blast+
  have "computed key fn (core C, shards C ! shardFor key C) =
     (case fn (fst (current key C)) (snd (current key C)) of
        Inr (v, ComputeStore) \<Rightarrow> if isl (computeWeight (core C) key v) then None else Some v | _ \<Rightarrow> None)"
    unfolding computed_def current_def fst_conv by (simp add: case_prod_beta)
  then show "case fn (fst (current key C)) (snd (current key C)) of
       Inr (v, ComputeStore) \<Rightarrow> if isl (computeWeight (core C) key v) then cshrunk C C' else wrote key v C C'
     | _ \<Rightarrow> cshrunk C C'"
    using l(4,5) open_ by (auto split: sum.split prod.split computeAction.split)
qed

lemma compute_op:
  assumes "cache_ok C" and "writes key stored (\<lambda>k. shardFor k C = shardFor key C) f (core C)"
  shows "cache_ok (lockedOp (shardFor key C) f C) \<and> frozen (core (lockedOp (shardFor key C) f C)) = frozen (core C)"
  using lockedOp_writes(1,2) [OF assms] by blast

lemma Compute_eq: "\<not> c_closed (core C) \<Longrightarrow> Compute key (Some fn) C =
    (fst (computeLocked key fn (core C, shards C ! shardFor key C)), lockedOp (shardFor key C) (computeLocked key fn) C)"
  by (simp add: Compute_def Let_def withShard_flush)

lemma ttls_default: "ttls_ok (c_settings c) \<Longrightarrow> cf_defaultTTL (c_cfg c) \<le> ttl_max"
  by (simp add: ttls_ok_def)

lemma compute_ok:
  assumes ok: "cache_ok C" and t: "ttls_ok (c_settings (core C))"
  shows "cache_ok (snd (Compute key fn C)) \<and> frozen (core (snd (Compute key fn C))) = frozen (core C)"
    "cache_ok (snd (ComputeIfPresent key fn' C)) \<and> frozen (core (snd (ComputeIfPresent key fn' C))) = frozen (core C)"
    "cache_ok (snd (Update key fn'' C)) \<and> frozen (core (snd (Update key fn'' C))) = frozen (core C)"
    "cache_ok (snd (CompareAndSwap deq key old new C)) \<and> frozen (core (snd (CompareAndSwap deq key old new C))) = frozen (core C)"
  using compute_op [OF ok computeLocked_writes [OF ttls_default [OF t] refl]]
    compute_op [OF ok computeIfPresentLocked_writes [OF ttls_default [OF t] refl]]
    compute_op [OF ok updateLocked_writes [OF ttls_default [OF t] refl]]
    compute_op [OF ok compareAndSwapLocked_writes [OF ttls_default [OF t] refl]] ok
  by (simp_all add: Compute_def ComputeIfPresent_def Update_def CompareAndSwap_def Let_def withShard_flush split: option.split)

lemma ComputeIfAbsent_ok:
  assumes ok: "cache_ok C" and t: "ttls_ok (c_settings (core C))" and r: "\<And>v ttl. fn = Some (Inr (v, ttl)) \<Longrightarrow> ttl \<le> ttl_max"
  shows "cache_ok (snd (ComputeIfAbsent key fn C)) \<and> frozen (core (snd (ComputeIfAbsent key fn C))) = frozen (core C)"
proof (cases "c_closed (core C) \<or> fn = None")
  case True
  then show ?thesis using ok by (auto simp: ComputeIfAbsent_def)
next
  case False
  then obtain result where fn: "fn = Some result" and op: "\<not> c_closed (core C)" by auto
  let ?i = "shardFor key C" and ?s = "shards C ! shardFor key C"
  have il: "?i < length (shards C)" by (rule shardFor_less [OF ok])
  have "keeps (\<lambda>k. shardFor k C = ?i) (computeIfAbsentLocked key result) (core C, ?s)"
  proof (cases "\<exists>v ttl weight. result = Inr (v, ttl) \<and> computeWeight (core C) key v = Inr weight \<and>
      snd (computeIfAbsentLocked key result (core C, ?s)) = upsertTTL key v weight
        (if ttl = 0 then cf_defaultTTL (c_cfg (core C)) else ttl) (cf_slidingTTL (c_cfg (core C))) [] (core C, ?s)")
    case True
    then obtain v ttl weight where u: "result = Inr (v, ttl)" "computeWeight (core C) key v = Inr weight"
      "snd (computeIfAbsentLocked key result (core C, ?s)) = upsertTTL key v weight
        (if ttl = 0 then cf_defaultTTL (c_cfg (core C)) else ttl) (cf_slidingTTL (c_cfg (core C))) [] (core C, ?s)" by blast
    have "(if ttl = 0 then cf_defaultTTL (c_cfg (core C)) else ttl) \<le> ttl_max" using ttls_default [OF t] r [of v ttl] fn u(1) by simp
    from upsertTTL_keeps [OF refl _ _ this cache_locked [OF ok il]] computeWeight_range [OF u(2)] show ?thesis
      by (simp add: keeps_def u(3))
  next
    case False
    then have "snd (computeIfAbsentLocked key result (core C, ?s)) = (core C, ?s)"
      by (auto simp: computeIfAbsentLocked_def Let_def case_prod_beta split: sum.split)
    then show ?thesis by (simp add: keeps_def)
  qed
  from lockedOp_spec(1,2) [OF ok il this] show ?thesis using fn op by (simp add: ComputeIfAbsent_def Let_def withShard_flush)
qed

end
