(* ===== verification/Spec2Isabelle.thy ===== *)
theory Spec2Isabelle
  imports DLinked Policy Sketch_Hash Sketch_CMS Sketch_Bloom TTL_Backend Shard_Store Latency_Histogram Stats Flights
    Settings Tags Events Cache_Compute
begin

text \<open>
  A verification library for the in-memory cache of package \<open>memcache\<close> (src/).
\<close>

end
